(* ===== verification/Prelude.thy ===== *)
theory Prelude
  imports Complex_Main "HOL-Library.AList" "HOL-Library.Multiset"
begin

text \<open>
  Shared vocabulary of the development: transactions (a state and error monad that keeps the
  state reached when an error is raised, so that rollback can be modelled explicitly), the two
  SQL statements the store is written with (guarded UPDATE and keyed SELECT) as functions on
  lists of rows, Go's maps with their zero-value lookup as association lists, and the lemma
  collections the component theories add to.
\<close>

named_theorems tx_simps \<open>unfolding rules of the transaction combinators\<close>
named_theorems row_simps \<open>field effects of the row updates of the store\<close>
named_theorems op_defs \<open>definitions of the store primitives\<close>


section \<open>Transactions\<close>

text \<open>
  A step of a transaction reads and writes a state and ends in an error (Go: a non-nil
  \<open>err\<close>) or a value. The state at the error is kept: \<open>Tx\<close> of the store theory decides
  what survives a rollback.
\<close>

type_synonym ('s, 'e, 'a) tx = "'s \<Rightarrow> ('e + 'a) \<times> 's"

definition tx_return :: "'a \<Rightarrow> ('s, 'e, 'a) tx" where
  "tx_return x = (\<lambda>s. (Inr x, s))"

definition tx_raise :: "'e \<Rightarrow> ('s, 'e, 'a) tx" where
  "tx_raise e = (\<lambda>s. (Inl e, s))"

definition tx_bind :: "('s, 'e, 'a) tx \<Rightarrow> ('a \<Rightarrow> ('s, 'e, 'b) tx) \<Rightarrow> ('s, 'e, 'b) tx" where
  "tx_bind m f = (\<lambda>s. case m s of (Inl e, s') \<Rightarrow> (Inl e, s') | (Inr x, s') \<Rightarrow> f x s')"

definition tx_get :: "('s \<Rightarrow> 'a) \<Rightarrow> ('s, 'e, 'a) tx" where
  "tx_get g = (\<lambda>s. (Inr (g s), s))"

definition tx_modify :: "('s \<Rightarrow> 's) \<Rightarrow> ('s, 'e, unit) tx" where
  "tx_modify f = (\<lambda>s. (Inr (), f s))"

text \<open>A \<open>for\<close> loop over a list that threads local variables through its body.\<close>

fun tx_fold :: "('x \<Rightarrow> 'a \<Rightarrow> ('s, 'e, 'a) tx) \<Rightarrow> 'x list \<Rightarrow> 'a \<Rightarrow> ('s, 'e, 'a) tx" where
  "tx_fold f [] a = tx_return a"
| "tx_fold f (x # xs) a = tx_bind (f x a) (tx_fold f xs)"

lemma tx_return_run [simp]: "tx_return x s = (Inr x, s)"
  by (simp add: tx_return_def)

lemma tx_raise_run [simp]: "tx_raise e s = (Inl e, s)"
  by (simp add: tx_raise_def)

lemma tx_get_run [simp]: "tx_get g s = (Inr (g s), s)"
  by (simp add: tx_get_def)

lemma tx_modify_run [simp]: "tx_modify f s = (Inr (), f s)"
  by (simp add: tx_modify_def)

lemma tx_bind_run [tx_simps]:
  "tx_bind m f s = (case m s of (Inl e, s') \<Rightarrow> (Inl e, s') | (Inr x, s') \<Rightarrow> f x s')"
  by (simp add: tx_bind_def)

lemma tx_bind_Inr [simp]: "m s = (Inr x, s') \<Longrightarrow> tx_bind m f s = f x s'"
  by (simp add: tx_bind_def)

lemma tx_bind_Inl [simp]: "m s = (Inl e, s') \<Longrightarrow> tx_bind m f s = (Inl e, s')"
  by (simp add: tx_bind_def)

lemma tx_bind_eq_Inr:
  "tx_bind m f s = (Inr y, t) \<longleftrightarrow> (\<exists>x s'. m s = (Inr x, s') \<and> f x s' = (Inr y, t))"
  by (auto simp: tx_bind_def split: prod.splits sum.splits)

lemma tx_bind_Inr_elim:
  assumes "tx_bind m f s = (Inr y, t)"
  obtains x s' where "m s = (Inr x, s')" and "f x s' = (Inr y, t)"
  using assms by (auto simp: tx_bind_eq_Inr)

lemma tx_bind_cong [fundef_cong]:
  "m s = m' s' \<Longrightarrow> (\<And>x t. m' s' = (Inr x, t) \<Longrightarrow> f x t = f' x t) \<Longrightarrow> tx_bind m f s = tx_bind m' f' s'"
  by (auto simp: tx_bind_def split: prod.splits sum.splits)

text \<open>The monad laws, so that a block can be regrouped in a proof.\<close>

lemma tx_bind_return_left [simp]: "tx_bind (tx_return x) f = f x"
  by (simp add: tx_bind_def fun_eq_iff)

lemma tx_bind_return_right: "tx_bind m tx_return = m"
  by (auto simp: tx_bind_def fun_eq_iff split: prod.splits sum.splits)

lemma tx_bind_assoc: "tx_bind (tx_bind m f) g = tx_bind m (\<lambda>x. tx_bind (f x) g)"
  by (auto simp: tx_bind_def fun_eq_iff split: prod.splits sum.splits)

lemma tx_bind_raise [simp]: "tx_bind (tx_raise e) f = tx_raise e"
  by (simp add: tx_bind_def fun_eq_iff)

lemma tx_fold_append: "tx_fold f (xs @ ys) a = tx_bind (tx_fold f xs a) (tx_fold f ys)"
proof (induction xs arbitrary: a)
  case Nil
  then show ?case by simp
next
  case (Cons x xs)
  then have "tx_fold f (xs @ ys) = (\<lambda>a. tx_bind (tx_fold f xs a) (tx_fold f ys))"
    by (simp add: fun_eq_iff)
  then show ?case by (simp add: tx_bind_assoc)
qed


subsection \<open>Reasoning about transactions\<close>

text \<open>
  \<open>tx_always I m\<close>: whatever \<open>m\<close> ends in, error or value, it keeps the state predicate
  \<open>I\<close>. \<open>tx_total P m Q\<close>: from a state with \<open>P\<close> the transaction raises no error and
  ends with \<open>Q\<close>.
\<close>

definition tx_always :: "('s \<Rightarrow> bool) \<Rightarrow> ('s, 'e, 'a) tx \<Rightarrow> bool" where
  "tx_always I m \<longleftrightarrow> (\<forall>s. I s \<longrightarrow> I (snd (m s)))"

definition tx_total :: "('s \<Rightarrow> bool) \<Rightarrow> ('s, 'e, 'a) tx \<Rightarrow> ('a \<Rightarrow> 's \<Rightarrow> bool) \<Rightarrow> bool" where
  "tx_total P m Q \<longleftrightarrow> (\<forall>s. P s \<longrightarrow> (\<exists>x s'. m s = (Inr x, s') \<and> Q x s'))"

lemma tx_alwaysI: "(\<And>s. I s \<Longrightarrow> I (snd (m s))) \<Longrightarrow> tx_always I m"
  by (simp add: tx_always_def)

lemma tx_alwaysD: "tx_always I m \<Longrightarrow> I s \<Longrightarrow> m s = (r, s') \<Longrightarrow> I s'"
  by (metis snd_conv tx_always_def)

lemma tx_always_return [intro]: "tx_always I (tx_return x)"
  by (simp add: tx_always_def)

lemma tx_always_raise [intro]: "tx_always I (tx_raise e)"
  by (simp add: tx_always_def)

lemma tx_always_get [intro]: "tx_always I (tx_get g)"
  by (simp add: tx_always_def)

lemma tx_always_modify: "(\<And>s. I s \<Longrightarrow> I (f s)) \<Longrightarrow> tx_always I (tx_modify f)"
  by (simp add: tx_always_def)

lemma tx_always_bind [intro]:
  assumes "tx_always I m" and "\<And>x. tx_always I (f x)"
  shows "tx_always I (tx_bind m f)"
  using assms by (fastforce simp: tx_always_def tx_bind_def split: prod.splits sum.splits)

lemma tx_always_if [intro]:
  "(c \<Longrightarrow> tx_always I m) \<Longrightarrow> (\<not> c \<Longrightarrow> tx_always I n) \<Longrightarrow> tx_always I (if c then m else n)"
  by simp

lemma tx_always_fold [intro]:
  assumes "\<And>x a. tx_always I (f x a)"
  shows "tx_always I (tx_fold f xs a)"
  using assms by (induction xs arbitrary: a) auto

lemma tx_totalD:
  assumes "tx_total P m Q" and "P s"
  obtains x s' where "m s = (Inr x, s')" and "Q x s'"
  using assms by (auto simp: tx_total_def)

lemma tx_total_bind:
  assumes "tx_total P m R" and "\<And>x. tx_total (R x) (f x) Q"
  shows "tx_total P (tx_bind m f) Q"
  unfolding tx_total_def
proof (intro allI impI)
  fix s assume "P s"
  with assms(1) obtain x s' where "m s = (Inr x, s')" and "R x s'" by (rule tx_totalD)
  moreover from assms(2) \<open>R x s'\<close> obtain y t where "f x s' = (Inr y, t)" and "Q y t"
    by (rule tx_totalD)
  ultimately show "\<exists>y t. tx_bind m f s = (Inr y, t) \<and> Q y t" by simp
qed

text \<open>A loop rule: an invariant over the elements done, the local variables and the state.\<close>

lemma tx_fold_total:
  assumes step: "\<And>done x rest a s. xs = done @ x # rest \<Longrightarrow> J done a s \<Longrightarrow>
      \<exists>a' s'. f x a s = (Inr a', s') \<and> J (done @ [x]) a' s'"
    and init: "J [] a s"
  shows "\<exists>a' s'. tx_fold f xs a s = (Inr a', s') \<and> J xs a' s'"
proof -
  have "xs = done @ rest \<Longrightarrow> J done a s \<Longrightarrow> \<exists>a' s'. tx_fold f rest a s = (Inr a', s') \<and> J xs a' s'"
    for "done" rest a s
  proof (induction rest arbitrary: "done" a s)
    case Nil
    then show ?case by simp
  next
    case (Cons x rest)
    from step [OF Cons.prems] obtain a' s' where f: "f x a s = (Inr a', s')"
      and J: "J (done @ [x]) a' s'" by blast
    from Cons.prems(1) have "xs = (done @ [x]) @ rest" by simp
    from Cons.IH [OF this J] f show ?case by simp
  qed
  from this [of "[]" xs a s] init show ?thesis by simp
qed


subsection \<open>Transactions within an order on states\<close>

text \<open>
  \<open>tx_within R m\<close>: whatever \<open>m\<close> ends in, its last state is \<open>R\<close>-related to its first.
  For a reflexive and transitive \<open>R\<close> this is a property of the parts of a transaction.
\<close>

definition tx_within :: "('s \<Rightarrow> 's \<Rightarrow> bool) \<Rightarrow> ('s, 'e, 'a) tx \<Rightarrow> bool" where
  "tx_within R m \<longleftrightarrow> (\<forall>s. R s (snd (m s)))"

locale state_order =
  fixes R :: "'s \<Rightarrow> 's \<Rightarrow> bool"
  assumes R_refl: "R s s"
    and R_trans: "R s t \<Longrightarrow> R t u \<Longrightarrow> R s u"
begin

lemma withinI: "(\<And>s. R s (snd (m s))) \<Longrightarrow> tx_within R m"
  by (simp add: tx_within_def)

lemma withinD: "tx_within R m \<Longrightarrow> m s = (r, s') \<Longrightarrow> R s s'"
  by (metis snd_conv tx_within_def)

lemma within_return: "tx_within R (tx_return x)"
  by (simp add: tx_within_def R_refl)

lemma within_raise: "tx_within R (tx_raise e)"
  by (simp add: tx_within_def R_refl)

lemma within_get: "tx_within R (tx_get g)"
  by (simp add: tx_within_def R_refl)

lemma within_if: "(c \<Longrightarrow> tx_within R m) \<Longrightarrow> (\<not> c \<Longrightarrow> tx_within R n) \<Longrightarrow> tx_within R (if c then m else n)"
  by simp

lemma within_bind_at:
  assumes "R s (snd (m s))" and "\<And>x. tx_within R (f x)"
  shows "R s (snd (tx_bind m f s))"
proof (cases "m s")
  case (Pair r s')
  show ?thesis
  proof (cases r)
    case (Inr x)
    have "R s' (snd (f x s'))" using assms(2) by (simp add: tx_within_def)
    with Pair Inr assms(1) show ?thesis by (auto intro: R_trans)
  qed (use Pair assms(1) in simp)
qed

lemma within_bind: "tx_within R m \<Longrightarrow> (\<And>x. tx_within R (f x)) \<Longrightarrow> tx_within R (tx_bind m f)"
  by (rule withinI) (rule within_bind_at, simp_all add: tx_within_def)

lemma within_fold: "(\<And>x a. tx_within R (f x a)) \<Longrightarrow> tx_within R (tx_fold f xs a)"
  by (induction xs arbitrary: a) (simp_all only: tx_fold.simps within_return within_bind)

end


subsection \<open>Transition systems\<close>

text \<open>
  A system is the predicate of its initial states and its step relation. What holds initially and
  is kept by every step holds wherever steps lead; an order every step of a good state respects
  relates any state with all later ones.
\<close>

locale inductive_invariant =
  fixes start :: "'s \<Rightarrow> bool" and step :: "'s \<Rightarrow> 's \<Rightarrow> bool" and I :: "'s \<Rightarrow> bool"
  assumes start_I: "start s \<Longrightarrow> I s"
    and step_I: "I s \<Longrightarrow> step s s' \<Longrightarrow> I s'"
begin

lemma steps_I: "step\<^sup>*\<^sup>* s s' \<Longrightarrow> I s \<Longrightarrow> I s'"
  by (induction rule: rtranclp_induct) (auto intro: step_I)

lemma reachable_I: "start s \<Longrightarrow> step\<^sup>*\<^sup>* s s' \<Longrightarrow> I s'"
  by (blast intro: steps_I start_I)

end

locale growing_system = inductive_invariant start step I + state_order R
  for start :: "'s \<Rightarrow> bool" and step :: "'s \<Rightarrow> 's \<Rightarrow> bool" and I :: "'s \<Rightarrow> bool" and R :: "'s \<Rightarrow> 's \<Rightarrow> bool" +
  assumes step_R: "I s \<Longrightarrow> step s s' \<Longrightarrow> R s s'"
begin

lemma steps_R: "step\<^sup>*\<^sup>* s s' \<Longrightarrow> I s \<Longrightarrow> R s s'"
proof (induction rule: rtranclp_induct)
  case (step t u)
  then have "R t u" using steps_I step_R by blast
  with step show ?case using R_trans by blast
qed (rule R_refl)

end


section \<open>SQL on lists of rows\<close>

text \<open>
  A table is the list of its rows in rowid order (no table of the schema ever deletes a row, so
  rowid order is insertion order). \<open>UPDATE t SET f WHERE P\<close> rewrites every row that
  satisfies \<open>P\<close> and reports how many there were; \<open>SELECT ... WHERE P\<close> filters; an
  \<open>ORDER BY k, rowid\<close> is the stable \<open>sort_key k\<close>.
\<close>

definition sql_update :: "('r \<Rightarrow> bool) \<Rightarrow> ('r \<Rightarrow> 'r) \<Rightarrow> 'r list \<Rightarrow> 'r list" where
  "sql_update P f rows = map (\<lambda>r. if P r then f r else r) rows"

definition sql_affected :: "('r \<Rightarrow> bool) \<Rightarrow> 'r list \<Rightarrow> nat" where
  "sql_affected P rows = length (filter P rows)"

lemma sql_update_Nil [simp]: "sql_update P f [] = []"
  by (simp add: sql_update_def)

lemma sql_update_Cons [simp]:
  "sql_update P f (r # rs) = (if P r then f r else r) # sql_update P f rs"
  by (simp add: sql_update_def)

lemma length_sql_update [simp]: "length (sql_update P f rows) = length rows"
  by (simp add: sql_update_def)

lemma set_sql_update: "set (sql_update P f rows) = (\<lambda>r. if P r then f r else r) ` set rows"
  by (simp add: sql_update_def)

lemma in_sql_update:
  "r \<in> set (sql_update P f rows) \<longleftrightarrow> (\<exists>q \<in> set rows. r = (if P q then f q else q))"
  by (auto simp: set_sql_update)

lemma sql_update_none: "(\<And>r. r \<in> set rows \<Longrightarrow> \<not> P r) \<Longrightarrow> sql_update P f rows = rows"
  by (induction rows) auto

lemma map_sql_update:
  "(\<And>r. r \<in> set rows \<Longrightarrow> P r \<Longrightarrow> g (f r) = g r) \<Longrightarrow> map g (sql_update P f rows) = map g rows"
  by (induction rows) auto

lemma sql_affected_keyed:
  assumes "distinct (map key rows)" and "r \<in> set rows" and "key r = k"
  shows "sql_affected (\<lambda>q. key q = k \<and> Q q) rows = (if Q r then 1 else 0)"
  using assms
proof (induction rows)
  case Nil
  then show ?case by simp
next
  case (Cons q qs)
  have none: "sql_affected (\<lambda>q. key q = k \<and> Q q) qs = 0" if "k \<notin> key ` set qs"
    using that by (auto simp: sql_affected_def filter_empty_conv)
  show ?case
  proof (cases "r = q")
    case True
    with Cons.prems have "k \<notin> key ` set qs" by auto
    with none Cons.prems True show ?thesis by (simp add: sql_affected_def)
  next
    case False
    with Cons.prems have r: "r \<in> set qs" and ne: "key q \<noteq> k" by auto
    with Cons.IH Cons.prems show ?thesis by (simp add: sql_affected_def)
  qed
qed

text \<open>
  The contract of a keyed UPDATE, stated once: the rewrite keeps the key, so the keys of the
  table and their uniqueness survive, and a lookup sees the rewritten row under its key and
  every other row as it was.
\<close>

locale keyed_update =
  fixes key :: "'r \<Rightarrow> 'k"
    and upd :: "'r \<Rightarrow> 'r"
  assumes key_upd: "key (upd r) = key r"
begin

lemma keys_kept: "map key (sql_update P upd rows) = map key rows"
  by (rule map_sql_update) (rule key_upd)

lemma find_sql_update:
  "find (\<lambda>r. key r = k) (sql_update P upd rows) =
     map_option (\<lambda>r. if P r then upd r else r) (find (\<lambda>r. key r = k) rows)"
  by (induction rows) (auto simp: key_upd)

lemma find_other_key:
  assumes "\<And>r. P r \<Longrightarrow> key r = k'" and "k \<noteq> k'"
  shows "find (\<lambda>r. key r = k) (sql_update P upd rows) = find (\<lambda>r. key r = k) rows"
  using assms by (induction rows) (auto simp: key_upd)

end

lemma keyed_filter: "distinct (map f xs) \<Longrightarrow> r \<in> set xs \<Longrightarrow> filter (\<lambda>q. f q = f r) xs = [r]"
  by (induction xs) (auto simp: filter_empty_conv image_iff)

lemma find_keyed_Some:
  assumes "distinct (map key rows)" and "r \<in> set rows"
  shows "find (\<lambda>q. key q = key r) rows = Some r"
  using assms by (induction rows) (auto simp: rev_image_eqI)

lemma find_keyed_iff:
  assumes "distinct (map key rows)"
  shows "find (\<lambda>q. key q = k) rows = Some r \<longleftrightarrow> r \<in> set rows \<and> key r = k"
proof
  assume "find (\<lambda>q. key q = k) rows = Some r"
  then show "r \<in> set rows \<and> key r = k" by (auto simp: find_Some_iff)
next
  assume "r \<in> set rows \<and> key r = k"
  then show "find (\<lambda>q. key q = k) rows = Some r"
    using find_keyed_Some [OF assms] by auto
qed

lemma find_None_keys: "find (\<lambda>q. key q = k) rows = None \<longleftrightarrow> k \<notin> key ` set rows"
  by (auto simp: find_None_iff)

lemma distinct_keys_eq:
  "distinct (map key rows) \<Longrightarrow> a \<in> set rows \<Longrightarrow> b \<in> set rows \<Longrightarrow> key a = key b \<Longrightarrow> a = b"
  by (simp add: distinct_map inj_on_def)


section \<open>Go maps\<close>

text \<open>
  A Go map is an association list; reading a missing key gives the zero value of the element
  type, as \<open>m[k]\<close> does.
\<close>

definition get_int :: "('k \<times> int) list \<Rightarrow> 'k \<Rightarrow> int" where
  "get_int m k = (case map_of m k of Some v \<Rightarrow> v | None \<Rightarrow> 0)"

definition get_list :: "('k \<times> 'a list) list \<Rightarrow> 'k \<Rightarrow> 'a list" where
  "get_list m k = (case map_of m k of Some v \<Rightarrow> v | None \<Rightarrow> [])"

definition get_str :: "('k \<times> string) list \<Rightarrow> 'k \<Rightarrow> string" where
  "get_str m k = (case map_of m k of Some v \<Rightarrow> v | None \<Rightarrow> [])"

lemma get_int_update [simp]: "get_int (AList.update k v m) = (get_int m)(k := v)"
  by (auto simp: get_int_def update_conv fun_eq_iff)

lemma get_list_update [simp]: "get_list (AList.update k v m) = (get_list m)(k := v)"
  by (auto simp: get_list_def update_conv fun_eq_iff)

lemma get_int_Nil [simp]: "get_int [] k = 0"
  by (simp add: get_int_def)

lemma get_list_Nil [simp]: "get_list [] k = []"
  by (simp add: get_list_def)

end
