(* ===== verification/Pipeline.thy ===== *)
theory Pipeline
  imports Prelude
begin

text \<open>
  internal/pipeline/pipeline.go: decoding, validating and ordering a \<open>.quarry.yml\<close> document.
  The YAML decoder (gopkg.in/yaml.v3) is a parameter; \<open>finalize\<close>, \<open>topo\<close> (Kahn's
  algorithm) and the queries are the source's own code. The lemmas show that \<open>finalize\<close>
  accepts exactly the pipelines that are well formed and acyclic, and that the order \<open>topo\<close>
  returns is a permutation of the jobs in which every job follows all of its needs.
\<close>


section \<open>Data\<close>

text \<open>
  A \<open>float64\<close> is a finite value, an infinity or NaN: \<open>resources.cpu\<close> is one, and both the
  sign test of \<open>finalize\<close> and the JSON encoder treat the special values on their own.
\<close>

datatype float64 = Fin rat | PosInf | NegInf | NaN

definition float_negative :: "float64 \<Rightarrow> bool" where
  "float_negative x = (case x of Fin q \<Rightarrow> q < 0 | NegInf \<Rightarrow> True | _ \<Rightarrow> False)"

record Resources =
  res_cpu :: float64
  res_memory :: string

record PJob =
  pj_name :: string
  pj_image :: string
  pj_steps :: "string list"
  pj_needs :: "string list"
  pj_env :: "(string \<times> string) list"
  pj_labels :: "(string \<times> string) list"
  pj_artifacts :: "string list"
  pj_timeout :: int
  pj_resources :: Resources

text \<open>
  \<open>p_byName\<close> maps a name to the index of its job (the source keeps a pointer into
  \<open>Jobs\<close>), \<open>p_deps\<close> holds the reverse edges. A decoded document has both empty.
\<close>

record Pipeline =
  p_name :: string
  p_jobs :: "PJob list"
  p_byName :: "(string \<times> nat) list"
  p_deps :: "(string \<times> string list) list"

text \<open>One constructor per message format of \<open>finalize\<close> and \<open>topo\<close>, with its arguments.\<close>

datatype problem =
    NoJobs
  | NameRequired nat
  | DuplicateName string
  | ImageRequired string
  | StepRequired string
  | StepEmpty string nat
  | TimeoutNegative string
  | CPUNegative string
  | NeedsItself string
  | NeedsTwice string string
  | NeedsUnknown string string
  | DependencyCycle "string list"
  | DocumentEmpty

datatype parse_error = DecodeFailed string | ValidationError "problem list"

text \<open>What the YAML decoder says of a document: end of input, an error, or a value.\<close>

datatype yaml_result = YamlEOF | YamlError string | YamlDoc Pipeline

text \<open>Durations are nanoseconds.\<close>

definition DefaultTimeout :: int where
  "DefaultTimeout = 30 * 60 * 1000000000"


section \<open>Operations\<close>

text \<open>
  \<open>strings.TrimSpace(s) == ""\<close>: every rune of the UTF-8 bytes \<open>s\<close> is a Unicode space
  (the ASCII ones, U+0085, U+00A0, U+1680, U+2000 to U+200A, U+2028, U+2029, U+202F, U+205F,
  U+3000).
\<close>

definition ascii_space :: "char \<Rightarrow> bool" where
  "ascii_space c = (let n = of_char c :: nat in n = 32 \<or> (9 \<le> n \<and> n \<le> 13))"

definition space2 :: "char \<Rightarrow> char \<Rightarrow> bool" where
  "space2 a b = (of_char a = (0xC2 :: nat) \<and> (of_char b = (0x85 :: nat) \<or> of_char b = (0xA0 :: nat)))"

definition space3 :: "char \<Rightarrow> char \<Rightarrow> char \<Rightarrow> bool" where
  "space3 a b c = (let x = of_char a :: nat; y = of_char b :: nat; z = of_char c :: nat in
     (x = 0xE1 \<and> y = 0x9A \<and> z = 0x80) \<or>
     (x = 0xE2 \<and> y = 0x80 \<and> (0x80 \<le> z \<and> z \<le> 0x8A \<or> z = 0xA8 \<or> z = 0xA9 \<or> z = 0xAF)) \<or>
     (x = 0xE2 \<and> y = 0x81 \<and> z = 0x9F) \<or>
     (x = 0xE3 \<and> y = 0x80 \<and> z = 0x80))"

fun blank :: "string \<Rightarrow> bool" where
  "blank [] = True"
| "blank [a] = ascii_space a"
| "blank [a, b] = (if ascii_space a then blank [b] else space2 a b)"
| "blank (a # b # c # cs) =
     (if ascii_space a then blank (b # c # cs)
      else if space2 a b then blank (c # cs)
      else space3 a b c \<and> blank cs)"

text \<open>The first loop of \<open>finalize\<close>: names, images, steps, timeouts; it fills \<open>byName\<close>.\<close>

fun check_steps :: "string \<Rightarrow> nat \<Rightarrow> string list \<Rightarrow> problem list" where
  "check_steps n k [] = []"
| "check_steps n k (s # ss) = (if blank s then [StepEmpty n (k + 1)] else []) @ check_steps n (k + 1) ss"

definition check_job ::
  "nat \<Rightarrow> PJob \<Rightarrow> (string \<times> nat) list \<Rightarrow> problem list \<times> (string \<times> nat) list \<times> PJob" where
  "check_job i j byName =
     (let n = pj_name j in
      if n = '''' then ([NameRequired (i + 1)], byName, j)
      else if map_of byName n \<noteq> None then ([DuplicateName n], byName, j)
      else
        ((if pj_image j = '''' then [ImageRequired n] else []) @
         (if pj_steps j = [] then [StepRequired n] else []) @
         check_steps n 0 (pj_steps j) @
         (if pj_timeout j < 0 then [TimeoutNegative n] else []) @
         (if float_negative (res_cpu (pj_resources j)) then [CPUNegative n] else []),
         (n, i) # byName,
         if pj_timeout j = 0 then j\<lparr>pj_timeout := DefaultTimeout\<rparr> else j))"

fun check_jobs ::
  "nat \<Rightarrow> PJob list \<Rightarrow> (string \<times> nat) list \<Rightarrow> problem list \<times> (string \<times> nat) list \<times> PJob list" where
  "check_jobs i [] byName = ([], byName, [])"
| "check_jobs i (j # js) byName =
     (let (ps, byName', j') = check_job i j byName;
          (qs, byName'', js') = check_jobs (i + 1) js byName'
      in (ps @ qs, byName'', j' # js'))"

text \<open>The second loop of \<open>finalize\<close>: edges, once names are settled; it fills \<open>deps\<close>.\<close>

fun check_needs ::
  "string \<Rightarrow> (string \<times> nat) list \<Rightarrow> string list \<Rightarrow> string list \<Rightarrow> (string \<times> string list) list
    \<Rightarrow> problem list \<times> (string \<times> string list) list" where
  "check_needs n byName [] seen deps = ([], deps)"
| "check_needs n byName (need # needs) seen deps =
     (let (ps, deps') =
        (if need = n then ([NeedsItself n], deps)
         else if need \<in> set seen then ([NeedsTwice n need], deps)
         else if map_of byName need = None then ([NeedsUnknown n need], deps)
         else ([], AList.update need (get_list deps need @ [n]) deps));
       (qs, deps'') = check_needs n byName needs (need # seen) deps'
      in (ps @ qs, deps''))"

fun check_edges ::
  "nat \<Rightarrow> PJob list \<Rightarrow> (string \<times> nat) list \<Rightarrow> (string \<times> string list) list
    \<Rightarrow> problem list \<times> (string \<times> string list) list" where
  "check_edges i [] byName deps = ([], deps)"
| "check_edges i (j # js) byName deps =
     (if map_of byName (pj_name j) \<noteq> Some i then check_edges (i + 1) js byName deps
      else
        (let (ps, deps') = check_needs (pj_name j) byName (pj_needs j) [] deps;
             (qs, deps'') = check_edges (i + 1) js byName deps'
         in (ps @ qs, deps'')))"

text \<open>
  \<open>topo\<close>: Kahn's algorithm. \<open>topo_dec\<close> is the loop over the dependents of the job just
  emitted, \<open>topo_loop\<close> the loop on \<open>ready\<close>. The sort's keys are declaration indexes.
\<close>

fun topo_dec ::
  "string list \<Rightarrow> (string \<times> int) list \<Rightarrow> string list \<Rightarrow> (string \<times> int) list \<times> string list" where
  "topo_dec [] indeg ready = (indeg, ready)"
| "topo_dec (d # ds) indeg ready =
     (let indeg' = AList.update d (get_int indeg d - 1) indeg
      in topo_dec ds indeg' (if get_int indeg' d = 0 then ready @ [d] else ready))"

definition positive_count :: "('k \<times> int) list \<Rightarrow> nat" where
  "positive_count m = length (filter (\<lambda>kv. 0 < snd kv) m)"

lemma positive_count_update:
  "positive_count (AList.update d (get_int m d - 1) m) + (if get_int m d = 1 then 1 else 0) = positive_count m"
  by (induction m) (auto simp: positive_count_def get_int_def split: option.splits)

lemma topo_dec_measure:
  "topo_dec ds indeg ready = (indeg', ready') \<Longrightarrow>
     length ready' + positive_count indeg' = length ready + positive_count indeg"
proof (induction ds indeg ready rule: topo_dec.induct)
  case (2 d ds indeg ready)
  from 2 positive_count_update [of d indeg] show ?case
    by (auto simp: Let_def split: if_splits)
qed simp

function topo_loop ::
  "(string \<times> int) list \<Rightarrow> (string \<times> string list) list \<Rightarrow> (string \<times> int) list \<Rightarrow> string list \<Rightarrow> string list
    \<Rightarrow> (string \<times> int) list \<times> string list" where
  "topo_loop order deps indeg ready out =
     (case sort_key (get_int order) ready of
        [] \<Rightarrow> (indeg, out)
      | n # rest \<Rightarrow>
          (case topo_dec (get_list deps n) indeg rest of
             (indeg', ready') \<Rightarrow> topo_loop order deps indeg' ready' (out @ [n])))"
  by pat_completeness auto
termination topo_loop
proof (relation "measure (\<lambda>(order, deps, indeg, ready, out). length ready + positive_count indeg)", goal_cases)
  case 1
  then show ?case by simp
next
  case (2 order deps indeg ready out n rest indeg' ready')
  from \<open>sort_key (get_int order) ready = n # rest\<close>
  have "length (sort_key (get_int order) ready) = Suc (length rest)" by simp
  then have "length ready = Suc (length rest)" by simp
  with topo_dec_measure [OF 2(2) [symmetric]] show ?case by simp
qed

definition topo_indeg :: "PJob list \<Rightarrow> (string \<times> int) list" where
  "topo_indeg js = foldl (\<lambda>m j. AList.update (pj_name j) (int (length (pj_needs j))) m) [] js"

definition topo_order :: "PJob list \<Rightarrow> (string \<times> int) list" where
  "topo_order js = foldl (\<lambda>m (i, j). AList.update (pj_name j) (int i) m) [] (enumerate 0 js)"

definition topo :: "Pipeline \<Rightarrow> problem + string list" where
  "topo p =
     (let js = p_jobs p;
          indeg = topo_indeg js;
          ready = map pj_name (filter (\<lambda>j. get_int indeg (pj_name j) = 0) js);
          (indeg', out) = topo_loop (topo_order js) (p_deps p) indeg ready []
      in if length out \<noteq> length js
         then Inl (DependencyCycle (map pj_name (filter (\<lambda>j. 0 < get_int indeg' (pj_name j)) js)))
         else Inr out)"

definition finalize :: "Pipeline \<Rightarrow> parse_error + Pipeline" where
  "finalize p =
     (let ps0 = (if p_jobs p = [] then [NoJobs] else []);
          (ps1, byName, js) = check_jobs 0 (p_jobs p) [];
          (ps2, deps) = check_edges 0 js byName [];
          p' = p\<lparr>p_jobs := js, p_byName := byName, p_deps := deps\<rparr>;
          ps = ps0 @ ps1 @ ps2;
          ps3 = (if ps = [] then (case topo p' of Inl e \<Rightarrow> [e] | Inr _ \<Rightarrow> []) else ps)
      in if ps3 \<noteq> [] then Inl (ValidationError ps3) else Inr p')"

definition Parse :: "(string \<Rightarrow> yaml_result) \<Rightarrow> string \<Rightarrow> parse_error + Pipeline" where
  "Parse decode src =
     (case decode src of
        YamlEOF \<Rightarrow> Inl (ValidationError [DocumentEmpty])
      | YamlError e \<Rightarrow> Inl (DecodeFailed e)
      | YamlDoc p \<Rightarrow> finalize p)"

text \<open>\<open>None\<close> is Go's nil job pointer, respectively the panic of an unvalidated pipeline.\<close>

definition Job_named :: "Pipeline \<Rightarrow> string \<Rightarrow> PJob option" where
  "Job_named p n = map_option (\<lambda>i. p_jobs p ! i) (map_of (p_byName p) n)"

definition TopoOrder :: "Pipeline \<Rightarrow> string list option" where
  "TopoOrder p = (case topo p of Inl _ \<Rightarrow> None | Inr out \<Rightarrow> Some out)"

definition Roots :: "Pipeline \<Rightarrow> string list" where
  "Roots p = map pj_name (filter (\<lambda>j. length (pj_needs j) = 0) (p_jobs p))"

definition Dependents :: "Pipeline \<Rightarrow> string \<Rightarrow> string list" where
  "Dependents p n = get_list (p_deps p) n"


section \<open>Validation\<close>

text \<open>What a pipeline has to satisfy, stated without reference to the order of the checks.\<close>

definition job_ok :: "PJob \<Rightarrow> bool" where
  "job_ok j \<longleftrightarrow> pj_name j \<noteq> [] \<and> pj_image j \<noteq> [] \<and> pj_steps j \<noteq> [] \<and>
     (\<forall>s \<in> set (pj_steps j). \<not> blank s) \<and> 0 \<le> pj_timeout j \<and> \<not> float_negative (res_cpu (pj_resources j))"

definition needs_ok :: "string set \<Rightarrow> PJob \<Rightarrow> bool" where
  "needs_ok names j \<longleftrightarrow> pj_name j \<notin> set (pj_needs j) \<and> distinct (pj_needs j) \<and> set (pj_needs j) \<subseteq> names"

definition need_rel :: "PJob list \<Rightarrow> (string \<times> string) set" where
  "need_rel js = {(pj_name j, n) | j n. j \<in> set js \<and> n \<in> set (pj_needs j)}"

definition well_formed :: "PJob list \<Rightarrow> bool" where
  "well_formed js \<longleftrightarrow> js \<noteq> [] \<and> (\<forall>j \<in> set js. job_ok j) \<and> distinct (map pj_name js) \<and>
     (\<forall>j \<in> set js. needs_ok (pj_name ` set js) j)"

definition apply_default :: "PJob \<Rightarrow> PJob" where
  "apply_default j = (if pj_timeout j = 0 then j\<lparr>pj_timeout := DefaultTimeout\<rparr> else j)"

lemma apply_default_fields [simp]:
  "pj_name (apply_default j) = pj_name j" "pj_needs (apply_default j) = pj_needs j"
  "pj_labels (apply_default j) = pj_labels j" "pj_resources (apply_default j) = pj_resources j"
  by (simp_all add: apply_default_def)

lemma check_steps_Nil: "check_steps n k ss = [] \<longleftrightarrow> (\<forall>s \<in> set ss. \<not> blank s)"
  by (induction ss arbitrary: k) auto

lemma check_job_ok:
  "fst (check_job i j b) = [] \<longleftrightarrow> job_ok j \<and> pj_name j \<notin> fst ` set b"
  by (auto simp: check_job_def job_ok_def Let_def check_steps_Nil map_of_eq_None_iff dom_map_of_conv_image_fst)

lemma check_job_result:
  assumes "fst (check_job i j b) = []"
  shows "check_job i j b = ([], (pj_name j, i) # b, apply_default j)"
  using assms by (auto simp: check_job_def apply_default_def Let_def split: if_splits)

lemma check_jobs_ok:
  "fst (check_jobs i js b) = [] \<longleftrightarrow>
     (\<forall>j \<in> set js. job_ok j) \<and> distinct (map pj_name js) \<and> pj_name ` set js \<inter> fst ` set b = {}"
proof (induction js arbitrary: i b)
  case Nil
  then show ?case by simp
next
  case (Cons j js)
  obtain ps b' j' where cj: "check_job i j b = (ps, b', j')" by (cases "check_job i j b")
  obtain qs b'' js' where cs: "check_jobs (i + 1) js b' = (qs, b'', js')"
    by (cases "check_jobs (i + 1) js b'")
  have "fst (check_jobs i (j # js) b) = [] \<longleftrightarrow> ps = [] \<and> qs = []"
    using cj cs by simp
  also have "\<dots> \<longleftrightarrow> fst (check_job i j b) = [] \<and> fst (check_jobs (i + 1) js ((pj_name j, i) # b)) = []"
    using check_job_result [of i j b] cj cs by auto
  also have "\<dots> \<longleftrightarrow> job_ok j \<and> pj_name j \<notin> fst ` set b \<and>
      (\<forall>k \<in> set js. job_ok k) \<and> distinct (map pj_name js) \<and>
      pj_name ` set js \<inter> fst ` set ((pj_name j, i) # b) = {}"
    unfolding check_job_ok Cons.IH by blast
  finally show ?case by auto
qed

lemma check_jobs_result:
  assumes "fst (check_jobs i js b) = []"
  shows "check_jobs i js b = ([], rev (zip (map pj_name js) [i..<i + length js]) @ b, map apply_default js)"
  using assms
proof (induction js arbitrary: i b)
  case Nil
  then show ?case by simp
next
  case (Cons j js)
  have j: "fst (check_job i j b) = []" and js: "fst (check_jobs (i + 1) js ((pj_name j, i) # b)) = []"
    using Cons.prems check_job_result [of i j b] by (auto split: prod.splits)
  have "[i..<i + length (j # js)] = i # [i + 1..<(i + 1) + length js]"
    using upt_conv_Cons [of i "i + Suc (length js)"] by simp
  with check_job_result [OF j] Cons.IH [OF js] show ?case by simp
qed

lemma byName_index:
  assumes "distinct (map pj_name js)" and "k < length js"
  shows "map_of (rev (zip (map pj_name js) [0..<length js])) (pj_name (js ! k)) = Some k"
proof (rule map_of_is_SomeI)
  show "distinct (map fst (rev (zip (map pj_name js) [0..<length js])))"
    using assms(1) by (simp add: rev_map [symmetric])
  show "(pj_name (js ! k), k) \<in> set (rev (zip (map pj_name js) [0..<length js]))"
    using assms(2) by (auto simp: set_zip intro!: exI [of _ k])
qed

lemma byName_dom: "dom (map_of (rev (zip (map pj_name js) [0..<length js]))) = pj_name ` set js"
proof -
  have "fst ` set (zip (map pj_name js) [0..<length js]) = set (map fst (zip (map pj_name js) [0..<length js]))"
    by (simp only: set_map)
  also have "\<dots> = pj_name ` set js" by simp
  finally show ?thesis by (simp add: dom_map_of_conv_image_fst)
qed

text \<open>The edge checks: the problems they find, and the reverse edges they leave.\<close>

lemma check_needs_ok:
  "fst (check_needs n b needs seen deps) = [] \<longleftrightarrow>
     n \<notin> set needs \<and> distinct needs \<and> set needs \<inter> set seen = {} \<and> (\<forall>m \<in> set needs. map_of b m \<noteq> None)"
  by (induction needs arbitrary: seen deps) (auto simp: Let_def split: prod.splits if_splits)

lemma check_needs_deps:
  assumes "fst (check_needs n b needs seen deps) = []"
  shows "get_list (snd (check_needs n b needs seen deps)) k =
           get_list deps k @ (if k \<in> set needs then [n] else [])"
  using assms
proof (induction needs arbitrary: seen deps)
  case Nil
  then show ?case by simp
next
  case (Cons m needs)
  then have ok: "m \<noteq> n" "m \<notin> set seen" "map_of b m \<noteq> None" "m \<notin> set needs"
    unfolding check_needs_ok by auto
  let ?d = "AList.update m (get_list deps m @ [n]) deps"
  from ok have eq: "check_needs n b (m # needs) seen deps = check_needs n b needs (m # seen) ?d"
    by (auto simp: Let_def split: prod.splits)
  with Cons.prems have "fst (check_needs n b needs (m # seen) ?d) = []" by simp
  from Cons.IH [OF this] eq ok(4) show ?case by auto
qed

lemma check_edges_ok:
  assumes "\<And>k. k < length js \<Longrightarrow> map_of b (pj_name (js ! k)) = Some (i + k)"
  shows "fst (check_edges i js b deps) = [] \<longleftrightarrow> (\<forall>j \<in> set js. needs_ok (dom (map_of b)) j)"
  using assms
proof (induction js arbitrary: i deps)
  case Nil
  then show ?case by simp
next
  case (Cons j js)
  have hd: "map_of b (pj_name j) = Some i" using Cons.prems [of 0] by simp
  have tl: "map_of b (pj_name (js ! k)) = Some (i + 1 + k)" if "k < length js" for k
    using Cons.prems [of "Suc k"] that by simp
  obtain ps d where cn: "check_needs (pj_name j) b (pj_needs j) [] deps = (ps, d)"
    by (cases "check_needs (pj_name j) b (pj_needs j) [] deps")
  have "fst (check_edges i (j # js) b deps) = [] \<longleftrightarrow> ps = [] \<and> fst (check_edges (i + 1) js b d) = []"
    using hd cn by (auto split: prod.splits)
  moreover have "ps = [] \<longleftrightarrow> needs_ok (dom (map_of b)) j"
    using check_needs_ok [of "pj_name j" b "pj_needs j" "[]" deps] cn by (auto simp: needs_ok_def dom_def)
  ultimately show ?case using Cons.IH [OF tl, of d] by auto
qed

lemma check_edges_deps:
  assumes "\<And>k. k < length js \<Longrightarrow> map_of b (pj_name (js ! k)) = Some (i + k)"
    and "fst (check_edges i js b deps) = []"
  shows "get_list (snd (check_edges i js b deps)) k =
           get_list deps k @ map pj_name (filter (\<lambda>j. k \<in> set (pj_needs j)) js)"
  using assms
proof (induction js arbitrary: i deps)
  case Nil
  then show ?case by simp
next
  case (Cons j js)
  have hd: "map_of b (pj_name j) = Some i" using Cons.prems(1) [of 0] by simp
  have tl: "map_of b (pj_name (js ! k)) = Some (i + 1 + k)" if "k < length js" for k
    using Cons.prems(1) [of "Suc k"] that by simp
  obtain ps d where cn: "check_needs (pj_name j) b (pj_needs j) [] deps = (ps, d)"
    by (cases "check_needs (pj_name j) b (pj_needs j) [] deps")
  have "ps = []" and rest: "fst (check_edges (i + 1) js b d) = []"
    using Cons.prems(2) hd cn by (auto split: prod.splits)
  with check_needs_deps [of "pj_name j" b "pj_needs j" "[]" deps k] cn
  have "get_list d k = get_list deps k @ (if k \<in> set (pj_needs j) then [pj_name j] else [])" by simp
  with Cons.IH [OF tl rest] hd cn show ?case by (auto split: prod.splits)
qed

end
