(* ===== verification/Topo.thy ===== *)
theory Topo
  imports Pipeline
begin

text \<open>
  Correctness of \<open>topo\<close> (Kahn's algorithm) and of \<open>finalize\<close> as a whole: the loop
  invariant of the algorithm, that it emits every job exactly when the needs are acyclic, and
  that \<open>finalize\<close> accepts a document exactly when it is well formed and acyclic.
\<close>


section \<open>The graph Kahn's algorithm runs on\<close>

definition needs_of :: "PJob list \<Rightarrow> string \<Rightarrow> string list" where
  "needs_of js n = (case find (\<lambda>j. pj_name j = n) js of Some j \<Rightarrow> pj_needs j | None \<Rightarrow> [])"

definition graph_ok :: "PJob list \<Rightarrow> (string \<times> string list) list \<Rightarrow> bool" where
  "graph_ok js deps \<longleftrightarrow> distinct (map pj_name js) \<and> (\<forall>j \<in> set js. needs_ok (pj_name ` set js) j) \<and>
     (\<forall>k. get_list deps k = map pj_name (filter (\<lambda>j. k \<in> set (pj_needs j)) js))"

lemma needs_of_job:
  "distinct (map pj_name js) \<Longrightarrow> j \<in> set js \<Longrightarrow> needs_of js (pj_name j) = pj_needs j"
  by (simp add: needs_of_def find_keyed_Some [of pj_name])

lemma need_rel_iff:
  assumes "distinct (map pj_name js)"
  shows "(n, m) \<in> need_rel js \<longleftrightarrow> n \<in> pj_name ` set js \<and> m \<in> set (needs_of js n)"
  using needs_of_job [OF assms] by (auto simp: need_rel_def)

lemma graph_needs:
  assumes "graph_ok js deps" and "n \<in> pj_name ` set js"
  shows "distinct (needs_of js n)" and "set (needs_of js n) \<subseteq> pj_name ` set js"
    and "n \<notin> set (needs_of js n)"
proof -
  from assms(2) obtain j where j: "j \<in> set js" "n = pj_name j" by auto
  moreover from assms(1) j(1) have "needs_ok (pj_name ` set js) j" and "needs_of js (pj_name j) = pj_needs j"
    by (simp_all add: graph_ok_def needs_of_job)
  ultimately show "distinct (needs_of js n)" and "set (needs_of js n) \<subseteq> pj_name ` set js"
    and "n \<notin> set (needs_of js n)"
    by (simp_all add: needs_ok_def)
qed

lemma graph_deps:
  assumes "graph_ok js deps"
  shows "distinct (get_list deps k)"
    and "m \<in> set (get_list deps k) \<longleftrightarrow> m \<in> pj_name ` set js \<and> k \<in> set (needs_of js m)"
proof -
  from assms have d: "distinct (map pj_name js)" by (simp add: graph_ok_def)
  have eq: "get_list deps k = map pj_name (filter (\<lambda>j. k \<in> set (pj_needs j)) js)"
    using assms by (simp add: graph_ok_def)
  show "distinct (get_list deps k)"
    unfolding eq by (rule distinct_map_filter [OF d])
  show "m \<in> set (get_list deps k) \<longleftrightarrow> m \<in> pj_name ` set js \<and> k \<in> set (needs_of js m)"
    unfolding eq using needs_of_job [OF d] by auto
qed

lemma topo_indeg_get:
  assumes "distinct (map pj_name js)" and "j \<in> set js"
  shows "get_int (topo_indeg js) (pj_name j) = int (length (pj_needs j))"
proof -
  have "j \<in> set js \<Longrightarrow> distinct (map pj_name js) \<Longrightarrow>
      get_int (foldl (\<lambda>m j. AList.update (pj_name j) (int (length (pj_needs j))) m) m js) (pj_name j)
        = int (length (pj_needs j))" for m
    using assms(1)
  proof (induction js arbitrary: m rule: rev_induct)
    case Nil
    then show ?case by simp
  next
    case (snoc k js)
    then show ?case by (auto simp: rev_image_eqI)
  qed
  with assms show ?thesis by (simp add: topo_indeg_def)
qed


section \<open>The loop invariant\<close>

definition unmet :: "PJob list \<Rightarrow> string list \<Rightarrow> string \<Rightarrow> string list" where
  "unmet js out n = filter (\<lambda>m. m \<notin> set out) (needs_of js n)"

text \<open>Each job was, when it was emitted, the first declared of those that were ready.\<close>

definition by_priority :: "PJob list \<Rightarrow> (string \<times> int) list \<Rightarrow> string list \<Rightarrow> bool" where
  "by_priority js order out \<longleftrightarrow>
     (\<forall>i < length out. \<forall>n \<in> pj_name ` set js - set (take i out).
        unmet js (take i out) n = [] \<longrightarrow> get_int order (out ! i) \<le> get_int order n)"

definition kahn_inv :: "PJob list \<Rightarrow> (string \<times> int) list \<Rightarrow> string list \<Rightarrow> string list \<Rightarrow> bool" where
  "kahn_inv js indeg ready out \<longleftrightarrow>
     distinct (out @ ready) \<and> set (out @ ready) \<subseteq> pj_name ` set js \<and>
     (\<forall>n \<in> pj_name ` set js. get_int indeg n = int (length (unmet js out n))) \<and>
     (\<forall>n \<in> pj_name ` set js. n \<in> set (out @ ready) \<longleftrightarrow> unmet js out n = []) \<and>
     (\<forall>i < length out. set (needs_of js (out ! i)) \<subseteq> set (take i out))"

lemma topo_dec_result:
  assumes "distinct ds"
  shows "snd (topo_dec ds indeg ready) = ready @ filter (\<lambda>d. get_int indeg d = 1) ds"
    and "get_int (fst (topo_dec ds indeg ready)) x = get_int indeg x - (if x \<in> set ds then 1 else 0)"
  using assms
proof (induction ds indeg ready rule: topo_dec.induct)
  case (1 indeg ready)
  { case 1 show ?case by simp next case 2 show ?case by simp }
next
  case (2 d ds indeg ready)
  let ?i = "AList.update d (get_int indeg d - 1) indeg"
  have same: "filter (\<lambda>e. get_int ?i e = 1) ds = filter (\<lambda>e. get_int indeg e = 1) ds"
    if "d \<notin> set ds"
    using that by (intro filter_cong) auto
  { case 1 with "2.IH" same show ?case by (auto simp: Let_def)
  next
    case 2 with "2.IH"(2) [of ?i] show ?case by (auto simp: Let_def) }
qed

lemma unmet_snoc:
  "unmet js (out @ [n]) m = filter (\<lambda>k. k \<noteq> n) (unmet js out m)"
  by (auto simp: unmet_def filter_filter intro: filter_cong)

lemma length_remove_one:
  "distinct xs \<Longrightarrow> int (length (filter (\<lambda>k. k \<noteq> n) xs)) = int (length xs) - (if n \<in> set xs then 1 else 0)"
  by (induction xs) auto

lemma kahn_step:
  assumes g: "graph_ok js deps" and inv: "kahn_inv js indeg ready out"
    and sorted: "mset ready = mset (n # rest)"
    and dec: "topo_dec (get_list deps n) indeg rest = (indeg', ready')"
  shows "kahn_inv js indeg' ready' (out @ [n])"
proof -
  let ?N = "pj_name ` set js"
  have set_ready: "set ready = insert n (set rest)"
    using mset_eq_setD [OF sorted] by simp
  have n: "n \<in> ?N" "n \<notin> set out" using inv set_ready by (auto simp: kahn_inv_def)
  have dist_r: "distinct (n # rest)"
    using inv sorted mset_eq_imp_distinct_iff [OF sorted] by (simp add: kahn_inv_def)
  note ds = graph_deps(1) [OF g, where k = n] graph_deps(2) [OF g, where k = n]
  have unmet_d: "distinct (unmet js out m)" if "m \<in> ?N" for m
    using graph_needs(1) [OF g that] by (simp add: unmet_def)
  have in_deps: "m \<in> set (get_list deps n) \<longleftrightarrow> n \<in> set (unmet js out m)" if "m \<in> ?N" for m
    using ds(2) [of m] that n(2) by (auto simp: unmet_def)
  have deg: "get_int indeg m = int (length (unmet js out m))" if "m \<in> ?N" for m
    using inv that by (auto simp: kahn_inv_def)
  have indeg': "get_int indeg' m = int (length (unmet js (out @ [n]) m))" if "m \<in> ?N" for m
    using topo_dec_result(2) [OF ds(1), of indeg rest m] dec deg [OF that] in_deps [OF that]
    by (simp add: unmet_snoc length_remove_one [OF unmet_d [OF that]])
  have ready': "ready' = rest @ filter (\<lambda>d. get_int indeg d = 1) (get_list deps n)"
    using topo_dec_result(1) [OF ds(1), of indeg rest] dec by simp
  have new: "m \<in> set (get_list deps n) \<and> get_int indeg m = 1 \<longleftrightarrow>
      unmet js (out @ [n]) m = [] \<and> unmet js out m \<noteq> []" if "m \<in> ?N" for m
  proof -
    have "get_int indeg m = int (length (unmet js out m))" by (rule deg [OF that])
    moreover have "get_int indeg' m = int (length (unmet js (out @ [n]) m))" by (rule indeg' [OF that])
    moreover have "get_int indeg' m = get_int indeg m - (if m \<in> set (get_list deps n) then 1 else 0)"
      using topo_dec_result(2) [OF ds(1), of indeg rest m] dec by simp
    ultimately show ?thesis by (auto split: if_splits)
  qed
  have old: "m \<in> set out \<union> insert n (set rest) \<longleftrightarrow> unmet js out m = []" if "m \<in> ?N" for m
    using inv that set_ready by (auto simp: kahn_inv_def)
  have member: "m \<in> set ((out @ [n]) @ ready') \<longleftrightarrow> unmet js (out @ [n]) m = []" if "m \<in> ?N" for m
    using old [OF that] new [OF that] by (auto simp: ready' unmet_snoc)
  have sub: "set (get_list deps n) \<subseteq> ?N" using ds(2) by auto
  have fresh: "m \<notin> set out \<union> insert n (set rest)" if "m \<in> set (get_list deps n)" "get_int indeg m = 1" for m
  proof -
    from sub that have N: "m \<in> ?N" by blast
    with new [OF N] that have "unmet js out m \<noteq> []" by simp
    with old [OF N] show ?thesis by blast
  qed
  have "distinct out" and "distinct ready" and "set out \<inter> set ready = {}"
    using inv by (auto simp: kahn_inv_def)
  then have "distinct ((out @ [n]) @ ready')"
    using fresh dist_r ds(1) set_ready n(2) by (auto simp: ready')
  moreover have "set ((out @ [n]) @ ready') \<subseteq> ?N"
    using inv n sub set_ready by (auto simp: ready' kahn_inv_def)
  moreover have "set (needs_of js n) \<subseteq> set out"
    using old [OF n(1)] by (auto simp: unmet_def filter_empty_conv)
  then have "\<forall>i < length (out @ [n]). set (needs_of js ((out @ [n]) ! i)) \<subseteq> set (take i (out @ [n]))"
    using inv by (auto simp: kahn_inv_def nth_append less_Suc_eq)
  ultimately show ?thesis using indeg' member by (simp add: kahn_inv_def)
qed

lemma by_priority_step:
  assumes "kahn_inv js indeg ready out" and "by_priority js order out"
    and "set ready = insert n (set rest)" and "\<forall>m \<in> set rest. get_int order n \<le> get_int order m"
  shows "by_priority js order (out @ [n])"
  unfolding by_priority_def
proof (intro allI impI ballI)
  fix i m assume i: "i < length (out @ [n])" and m: "m \<in> pj_name ` set js - set (take i (out @ [n]))"
    and u: "unmet js (take i (out @ [n])) m = []"
  show "get_int order ((out @ [n]) ! i) \<le> get_int order m"
  proof (cases "i < length out")
    case True
    with assms(2) m u show ?thesis by (simp add: by_priority_def nth_append)
  next
    case False
    with i have i': "i = length out" by simp
    from m i' have N: "m \<in> pj_name ` set js" and "m \<notin> set out" by simp_all
    moreover have "\<forall>n \<in> pj_name ` set js. n \<in> set (out @ ready) \<longleftrightarrow> unmet js out n = []"
      using assms(1) by (simp add: kahn_inv_def)
    ultimately have "m \<in> set ready" using u i' by (metis Un_iff append_eq_conv_conj set_append)
    with assms(3,4) i' show ?thesis by auto
  qed
qed

declare topo_loop.simps [simp del]

lemma topo_loop_inv:
  "graph_ok js deps \<Longrightarrow> kahn_inv js indeg ready out \<Longrightarrow> by_priority js order out \<Longrightarrow>
    topo_loop order deps indeg ready out = (indeg', out') \<Longrightarrow>
    kahn_inv js indeg' [] out' \<and> by_priority js order out'"
proof (induction order deps indeg ready out rule: topo_loop.induct)
  case (1 order deps indeg ready out)
  show ?case
  proof (cases "sort_key (get_int order) ready")
    case Nil
    then have "length (sort_key (get_int order) ready) = 0" by simp
    then have "ready = []" by simp
    with "1.prems" show ?thesis by (subst (asm) topo_loop.simps) simp
  next
    case (Cons n rest)
    obtain i r where dec: "topo_dec (get_list deps n) indeg rest = (i, r)"
      by (cases "topo_dec (get_list deps n) indeg rest")
    have "mset (sort_key (get_int order) ready) = mset ready" by simp
    with Cons have "mset ready = mset (n # rest)" by simp
    from kahn_step [OF "1.prems"(1,2) this dec] have "kahn_inv js i r (out @ [n])" .
    moreover have "by_priority js order (out @ [n])"
    proof (rule by_priority_step [OF "1.prems"(2,3)])
      have "sorted (map (get_int order) (sort_key (get_int order) ready))" by simp
      with Cons show "\<forall>m \<in> set rest. get_int order n \<le> get_int order m" by simp
      show "set ready = insert n (set rest)"
        using mset_eq_setD [OF \<open>mset ready = mset (n # rest)\<close>] by simp
    qed
    moreover have "topo_loop order deps i r (out @ [n]) = (indeg', out')"
      using "1.prems"(4) Cons dec by (subst (asm) topo_loop.simps) simp
    ultimately show ?thesis using "1.IH" [OF Cons dec [symmetric]] "1.prems"(1) by simp
  qed
qed

lemma kahn_inv_start:
  assumes "graph_ok js deps"
  shows "kahn_inv js (topo_indeg js)
    (map pj_name (filter (\<lambda>j. get_int (topo_indeg js) (pj_name j) = 0) js)) []"
proof -
  from assms have d: "distinct (map pj_name js)" by (simp add: graph_ok_def)
  have "get_int (topo_indeg js) (pj_name j) = int (length (unmet js [] (pj_name j)))" if "j \<in> set js" for j
    using topo_indeg_get [OF d that] needs_of_job [OF d that] by (simp add: unmet_def)
  then show ?thesis using d by (auto simp: kahn_inv_def distinct_map_filter)
qed


section \<open>What topo returns\<close>

text \<open>A list in which every job comes after all of its needs.\<close>

definition topo_sorted :: "PJob list \<Rightarrow> string list \<Rightarrow> bool" where
  "topo_sorted js out \<longleftrightarrow> (\<forall>i < length out. set (needs_of js (out ! i)) \<subseteq> set (take i out))"

lemma topo_sorted_acyclic:
  assumes "distinct (map pj_name js)" and "topo_sorted js out" and "set out = pj_name ` set js"
    and "distinct out"
  shows "acyclic (need_rel js)"
proof -
  define rank where "rank n = (THE i. i < length out \<and> out ! i = n)" for n
  have rank: "rank (out ! i) = i" if "i < length out" for i
    unfolding rank_def using that assms(4) by (auto simp: nth_eq_iff_index_eq)
  have "(need_rel js)\<inverse> \<subseteq> measure rank"
  proof
    fix e assume "e \<in> (need_rel js)\<inverse>"
    then obtain n m where e: "e = (m, n)" "n \<in> set out" "m \<in> set (needs_of js n)"
      using need_rel_iff [OF assms(1)] assms(3) by (cases e) auto
    then obtain i where i: "i < length out" "out ! i = n" by (auto simp: in_set_conv_nth)
    with e assms(2) have "m \<in> set (take i out)" by (auto simp: topo_sorted_def)
    then obtain k where "k < i" "out ! k = m" by (auto simp: in_set_conv_nth)
    with i e rank [of i] rank [of k] show "e \<in> measure rank" by simp
  qed
  then have "wf ((need_rel js)\<inverse>)" by (rule wf_subset [OF wf_measure])
  then show ?thesis using wf_acyclic acyclic_converse by blast
qed

lemma need_rel_Union: "need_rel js = (\<Union>j \<in> set js. Pair (pj_name j) ` set (pj_needs j))"
  by (auto simp: need_rel_def)

lemma finite_need_rel: "finite (need_rel js)"
  by (simp add: need_rel_Union)

text \<open>A job that is never emitted has a need that is never emitted, so an acyclic graph has none.\<close>

lemma kahn_final_complete:
  assumes g: "graph_ok js deps" and inv: "kahn_inv js indeg [] out" and ac: "acyclic (need_rel js)"
  shows "set out = pj_name ` set js"
proof (rule ccontr)
  assume "set out \<noteq> pj_name ` set js"
  with inv obtain n0 where n0: "n0 \<in> pj_name ` set js - set out" by (auto simp: kahn_inv_def)
  have d: "distinct (map pj_name js)" using g by (simp add: graph_ok_def)
  have "wf ((need_rel js)\<inverse>)"
    using ac finite_need_rel by (intro finite_acyclic_wf) (simp_all add: acyclic_converse)
  from wfE_min [OF this n0] obtain n where n: "n \<in> pj_name ` set js - set out"
    and min: "\<And>m. (m, n) \<in> (need_rel js)\<inverse> \<Longrightarrow> m \<notin> pj_name ` set js - set out" by blast
  from n inv have "unmet js out n \<noteq> []" by (auto simp: kahn_inv_def)
  then obtain m where m: "m \<in> set (needs_of js n)" "m \<notin> set out"
    by (auto simp: unmet_def filter_empty_conv)
  from n have N: "n \<in> pj_name ` set js" by simp
  from N m(1) have "(n, m) \<in> need_rel js" by (simp add: need_rel_iff [OF d])
  moreover from graph_needs(2) [OF g N] m(1) have "m \<in> pj_name ` set js" by (rule subsetD)
  ultimately show False using min [of m] m by simp
qed

lemma topo_cases:
  assumes g: "graph_ok (p_jobs p) (p_deps p)"
  shows "acyclic (need_rel (p_jobs p)) \<Longrightarrow>
      \<exists>out. topo p = Inr out \<and> distinct out \<and> set out = pj_name ` set (p_jobs p) \<and> topo_sorted (p_jobs p) out \<and>
        by_priority (p_jobs p) (topo_order (p_jobs p)) out"
    and "\<not> acyclic (need_rel (p_jobs p)) \<Longrightarrow> \<exists>stuck. topo p = Inl (DependencyCycle stuck)"
proof -
  let ?js = "p_jobs p"
  let ?ready = "map pj_name (filter (\<lambda>j. get_int (topo_indeg ?js) (pj_name j) = 0) ?js)"
  obtain indeg' out where loop: "topo_loop (topo_order ?js) (p_deps p) (topo_indeg ?js) ?ready [] = (indeg', out)"
    by (cases "topo_loop (topo_order ?js) (p_deps p) (topo_indeg ?js) ?ready []")
  have "by_priority ?js (topo_order ?js) []" by (simp add: by_priority_def)
  from topo_loop_inv [OF g kahn_inv_start [OF g] this loop]
  have inv: "kahn_inv ?js indeg' [] out" and prio: "by_priority ?js (topo_order ?js) out" by simp_all
  have d: "distinct (map pj_name ?js)" using g by (simp add: graph_ok_def)
  have out: "distinct out" "set out \<subseteq> pj_name ` set ?js" "topo_sorted ?js out"
    using inv by (auto simp: kahn_inv_def topo_sorted_def)
  have len: "length out = length ?js \<longleftrightarrow> set out = pj_name ` set ?js"
  proof -
    have "card (set out) = length out" and "card (pj_name ` set ?js) = length ?js"
      using out(1) d by (simp_all add: distinct_card [symmetric, of "map pj_name ?js", simplified] distinct_card)
    with out(2) show ?thesis by (metis card_subset_eq finite_imageI finite_set)
  qed
  have topo: "topo p = (if length out \<noteq> length ?js
      then Inl (DependencyCycle (map pj_name (filter (\<lambda>j. 0 < get_int indeg' (pj_name j)) ?js))) else Inr out)"
    using loop by (simp add: topo_def Let_def)
  show "\<exists>out. topo p = Inr out \<and> distinct out \<and> set out = pj_name ` set ?js \<and> topo_sorted ?js out \<and>
      by_priority ?js (topo_order ?js) out"
    if "acyclic (need_rel ?js)"
    using kahn_final_complete [OF g inv that] len topo out prio by auto
  show "\<exists>stuck. topo p = Inl (DependencyCycle stuck)" if "\<not> acyclic (need_rel ?js)"
    using topo_sorted_acyclic [OF d out(3) _ out(1)] len topo that by auto
qed

lemma topo_order_at: "distinct (map pj_name js) \<Longrightarrow> i < length js \<Longrightarrow> get_int (topo_order js) (pj_name (js ! i)) = int i"
proof (induction js rule: rev_induct)
  case (snoc j js)
  have snoc_eq: "topo_order (js @ [j]) = AList.update (pj_name j) (int (length js)) (topo_order js)"
    by (simp add: topo_order_def enumerate_append_eq)
  show ?case
  proof (cases "i = length js")
    case False
    then have i: "i < length js" using snoc.prems(2) by simp
    have "pj_name j \<notin> pj_name ` set js" using snoc.prems(1) by simp
    with imageI [OF nth_mem [OF i], of pj_name] have "pj_name (js ! i) \<noteq> pj_name j" by metis
    with snoc i show ?thesis by (simp add: snoc_eq nth_append)
  qed (simp add: snoc_eq)
qed simp

text \<open>
  The same with the positions of the declarations: whenever a job is emitted, no job declared
  before it was ready and still missing.
\<close>

definition by_declaration :: "PJob list \<Rightarrow> string list \<Rightarrow> bool" where
  "by_declaration js out \<longleftrightarrow>
     (\<forall>i < length out. \<forall>k < length js.
        pj_name (js ! k) \<notin> set (take i out) \<and> set (pj_needs (js ! k)) \<subseteq> set (take i out) \<longrightarrow>
        (\<exists>m \<le> k. out ! i = pj_name (js ! m)))"

lemma by_priority_declaration:
  assumes d: "distinct (map pj_name js)" and sub: "set out \<subseteq> pj_name ` set js"
    and prio: "by_priority js (topo_order js) out"
  shows "by_declaration js out"
  unfolding by_declaration_def
proof (intro allI impI)
  fix i k assume i: "i < length out" and k: "k < length js"
    and r: "pj_name (js ! k) \<notin> set (take i out) \<and> set (pj_needs (js ! k)) \<subseteq> set (take i out)"
  from k r needs_of_job [OF d, of "js ! k"] have "unmet js (take i out) (pj_name (js ! k)) = []"
    by (auto simp: unmet_def filter_empty_conv)
  with prio i k r have le: "get_int (topo_order js) (out ! i) \<le> get_int (topo_order js) (pj_name (js ! k))"
    by (simp add: by_priority_def)
  from sub nth_mem [OF i] have "out ! i \<in> pj_name ` set js" by (rule subsetD)
  then obtain m where m: "m < length js" "out ! i = pj_name (js ! m)" by (auto simp: in_set_conv_nth)
  with le k have "m \<le> k" by (simp add: topo_order_at [OF d])
  with m(2) show "\<exists>m \<le> k. out ! i = pj_name (js ! m)" by blast
qed


section \<open>What finalize accepts\<close>

lemma need_rel_apply_default [simp]: "need_rel (map apply_default js) = need_rel js"
  by (simp add: need_rel_Union)

lemma names_apply_default [simp]: "pj_name ` apply_default ` A = pj_name ` A"
  by (simp add: image_image)

lemma map_name_apply_default [simp]: "map pj_name (map apply_default js) = map pj_name js"
  by simp

lemma needs_ok_apply_default [simp]: "needs_ok N (apply_default j) = needs_ok N j"
  by (simp add: needs_ok_def)

abbreviation byName_of :: "PJob list \<Rightarrow> (string \<times> nat) list" where
  "byName_of js \<equiv> rev (zip (map pj_name js) [0..<length js])"

lemma check_edges_result:
  assumes "distinct (map pj_name js)"
  defines "r \<equiv> check_edges 0 (map apply_default js) (byName_of js) []"
  shows "fst r = [] \<longleftrightarrow> (\<forall>j \<in> set js. needs_ok (pj_name ` set js) j)"
    and "fst r = [] \<Longrightarrow> graph_ok (map apply_default js) (snd r)"
proof -
  have idx: "map_of (byName_of js) (pj_name (map apply_default js ! k)) = Some (0 + k)"
    if "k < length (map apply_default js)" for k
    using that byName_index [OF assms(1), of k] by simp
  show ok: "fst r = [] \<longleftrightarrow> (\<forall>j \<in> set js. needs_ok (pj_name ` set js) j)"
    using check_edges_ok [of "map apply_default js" "byName_of js" 0 "[]", OF idx] unfolding r_def
    by (simp only: byName_dom) simp
  show "graph_ok (map apply_default js) (snd r)" if "fst r = []"
    using ok that assms(1) check_edges_deps [OF idx that [unfolded r_def]]
    by (simp add: graph_ok_def r_def o_def image_image)
qed

lemma finalize_unfold:
  assumes "well_formed (p_jobs p)"
  defines "js \<equiv> map apply_default (p_jobs p)"
  defines "deps \<equiv> snd (check_edges 0 js (byName_of (p_jobs p)) [])"
  defines "p' \<equiv> p\<lparr>p_jobs := js, p_byName := byName_of (p_jobs p), p_deps := deps\<rparr>"
  shows "finalize p = (case topo p' of Inl e \<Rightarrow> Inl (ValidationError [e]) | Inr _ \<Rightarrow> Inr p')"
    and "graph_ok js deps"
proof -
  have d: "distinct (map pj_name (p_jobs p))" using assms(1) by (simp add: well_formed_def)
  have cj: "fst (check_jobs 0 (p_jobs p) []) = []"
    using assms(1) by (simp add: check_jobs_ok well_formed_def)
  have edges: "fst (check_edges 0 js (byName_of (p_jobs p)) []) = []"
    using assms(1) check_edges_result(1) [OF d] by (simp add: well_formed_def js_def)
  then have ce: "check_edges 0 js (byName_of (p_jobs p)) [] = ([], deps)"
    by (simp add: deps_def prod_eq_iff)
  show "graph_ok js deps"
    using check_edges_result(2) [OF d] edges by (simp add: js_def deps_def)
  show "finalize p = (case topo p' of Inl e \<Rightarrow> Inl (ValidationError [e]) | Inr _ \<Rightarrow> Inr p')"
    using check_jobs_result [OF cj] ce assms(1)
    by (simp add: finalize_def p'_def js_def well_formed_def split: sum.splits)
qed

lemma finalize_rejects_malformed:
  assumes "\<not> well_formed (p_jobs p)"
  shows "\<exists>ps. finalize p = Inl (ValidationError ps)"
proof -
  obtain ps1 b js where cj: "check_jobs 0 (p_jobs p) [] = (ps1, b, js)"
    by (cases "check_jobs 0 (p_jobs p) []")
  obtain ps2 deps where ce: "check_edges 0 js b [] = (ps2, deps)" by (cases "check_edges 0 js b []")
  have "p_jobs p = [] \<or> ps1 \<noteq> [] \<or> ps2 \<noteq> []"
  proof (rule ccontr)
    assume neg: "\<not> ?thesis"
    then have ok: "fst (check_jobs 0 (p_jobs p) []) = []" using cj by simp
    then have d: "distinct (map pj_name (p_jobs p))" by (simp add: check_jobs_ok)
    from neg ok check_jobs_result [OF ok] cj have "b = byName_of (p_jobs p)" "js = map apply_default (p_jobs p)"
      by simp_all
    with neg ce check_edges_result(1) [OF d] ok assms show False
      by (simp add: well_formed_def check_jobs_ok)
  qed
  with cj ce show ?thesis by (auto simp: finalize_def Let_def)
qed

lemma finalize_decides:
  "(\<exists>p'. finalize p = Inr p') \<longleftrightarrow> well_formed (p_jobs p) \<and> acyclic (need_rel (p_jobs p))"
proof (cases "well_formed (p_jobs p)")
  case False
  from finalize_rejects_malformed [OF this] False show ?thesis by auto
next
  case True
  let ?p' = "p\<lparr>p_jobs := map apply_default (p_jobs p), p_byName := byName_of (p_jobs p),
    p_deps := snd (check_edges 0 (map apply_default (p_jobs p)) (byName_of (p_jobs p)) [])\<rparr>"
  note u = finalize_unfold [OF True]
  from u(2) have g: "graph_ok (p_jobs ?p') (p_deps ?p')" by simp
  from topo_cases [OF g] have "(\<exists>out. topo ?p' = Inr out) \<longleftrightarrow> acyclic (need_rel (p_jobs p))"
    by (cases "acyclic (need_rel (p_jobs p))") auto
  with u(1) True show ?thesis by (auto split: sum.splits)
qed

lemma finalize_Inr_facts:
  assumes "finalize p = Inr p'"
  shows "well_formed (p_jobs p)" and "acyclic (need_rel (p_jobs p))"
    and "p_jobs p' = map apply_default (p_jobs p)" and "graph_ok (p_jobs p') (p_deps p')"
    and "p_byName p' = byName_of (p_jobs p)"
proof -
  from assms finalize_decides show wf: "well_formed (p_jobs p)" and "acyclic (need_rel (p_jobs p))"
    by blast+
  from finalize_unfold [OF wf] assms
  show "p_jobs p' = map apply_default (p_jobs p)" and "graph_ok (p_jobs p') (p_deps p')"
    and "p_byName p' = byName_of (p_jobs p)"
    by (auto split: sum.splits)
qed

lemma Job_named_find:
  assumes "distinct (map pj_name js)" and "p_byName p = byName_of js" and "p_jobs p = map apply_default js"
  shows "Job_named p n = find (\<lambda>j. pj_name j = n) (p_jobs p)"
proof (cases "n \<in> pj_name ` set js")
  case True
  then obtain k where k: "k < length js" "n = pj_name (js ! k)" by (auto simp: in_set_conv_nth)
  have d: "distinct (map pj_name (p_jobs p))" using assms(1,3) by (simp add: o_def)
  have "Job_named p n = Some (p_jobs p ! k)"
    using byName_index [OF assms(1) k(1)] k assms(2) by (simp add: Job_named_def)
  moreover have "find (\<lambda>j. pj_name j = n) (p_jobs p) = Some (p_jobs p ! k)"
    using find_keyed_Some [of pj_name "p_jobs p" "p_jobs p ! k"] d k assms(3) by simp
  ultimately show ?thesis by simp
next
  case False
  then have "n \<notin> fst ` set (byName_of js)" by (auto simp: set_zip)
  then have "map_of (byName_of js) n = None" by (simp add: map_of_eq_None_iff)
  moreover have "find (\<lambda>j. pj_name j = n) (p_jobs p) = None"
    using False assms(3) by (auto simp: find_None_iff)
  ultimately show ?thesis by (simp add: Job_named_def assms(2))
qed

lemma apply_default_timeout:
  "apply_default j = j\<lparr>pj_timeout := if pj_timeout j = 0 then 30 * 60 * 1000000000 else pj_timeout j\<rparr>"
  by (simp add: apply_default_def DefaultTimeout_def)

lemma finalize_keeps_name: "finalize p = Inr p' \<Longrightarrow> p_name p' = p_name p"
  by (auto simp: finalize_def Let_def split: prod.splits sum.splits if_splits)

lemma needs_of_apply_default: "needs_of (map apply_default js) n = needs_of js n"
  by (induction js) (simp_all add: needs_of_def)

text \<open>
  C1. \<open>finalize\<close> accepts a decoded document exactly when it has at least one job, every job
  is named, unique and complete, every need names another job of the document once, and the
  needs have no cycle. What it returns is the document with a timeout of thirty minutes where
  none was given; its index finds each job by its name, and its reverse edges list for a name
  the jobs that need it, in declaration order.
\<close>

theorem finalize_accepts_iff:
  "case finalize p of
     Inl e \<Rightarrow> \<not> (well_formed (p_jobs p) \<and> acyclic (need_rel (p_jobs p)))
   | Inr p' \<Rightarrow> well_formed (p_jobs p) \<and> acyclic (need_rel (p_jobs p)) \<and> p_name p' = p_name p \<and>
       p_jobs p' = map (\<lambda>j. j\<lparr>pj_timeout := if pj_timeout j = 0 then 30 * 60 * 1000000000 else pj_timeout j\<rparr>)
         (p_jobs p) \<and>
       (\<forall>n. Job_named p' n = find (\<lambda>j. pj_name j = n) (p_jobs p')) \<and>
       (\<forall>n. Dependents p' n = map pj_name (filter (\<lambda>j. n \<in> set (pj_needs j)) (p_jobs p)))"
proof (cases "finalize p")
  case (Inl e)
  then show ?thesis using finalize_decides [of p] by simp
next
  case (Inr p')
  note f = finalize_Inr_facts [OF Inr]
  have d: "distinct (map pj_name (p_jobs p))" using f(1) by (simp add: well_formed_def)
  have "get_list (p_deps p') n = map pj_name (filter (\<lambda>j. n \<in> set (pj_needs j)) (p_jobs p))" for n
    using f(4) by (simp add: graph_ok_def f(3) filter_map o_def)
  with Inr f(1,2) finalize_keeps_name [OF Inr] Job_named_find [OF d f(5,3)] show ?thesis
    by (simp add: Dependents_def f(3) apply_default_timeout)
qed


text \<open>A diamond of four jobs, two of them declared before what they need.\<close>

definition demo_job :: "string \<Rightarrow> string list \<Rightarrow> PJob" where
  "demo_job n ns = \<lparr>pj_name = n, pj_image = ''alpine'', pj_steps = [''make''], pj_needs = ns, pj_env = [],
     pj_labels = [], pj_artifacts = [], pj_timeout = 0, pj_resources = \<lparr>res_cpu = Fin 0, res_memory = []\<rparr>\<rparr>"

definition demo_pipeline :: Pipeline where
  "demo_pipeline = \<lparr>p_name = ''demo'',
     p_jobs = [demo_job ''ship'' [''test'', ''lint''], demo_job ''test'' [''build''],
               demo_job ''lint'' [''build''], demo_job ''build'' []],
     p_byName = [], p_deps = []\<rparr>"

definition demo_final :: Pipeline where
  "demo_final = (case finalize demo_pipeline of Inr p \<Rightarrow> p | Inl _ \<Rightarrow> demo_pipeline)"

lemma demo_finalize: "finalize demo_pipeline = Inr demo_final"
proof -
  have "\<not> isl (finalize demo_pipeline)" by code_simp
  then show ?thesis by (cases "finalize demo_pipeline") (simp_all add: demo_final_def)
qed

lemma demo_order: "TopoOrder demo_final = Some [''build'', ''test'', ''lint'', ''ship'']"
  by code_simp


end
