(* ===== verification/Store.thy ===== *)
theory Store
  imports Pipeline "HOL-Library.List_Lexorder" "HOL-Library.Char_ord" "HOL-Library.Product_Lexorder"
    "HOL-Library.Option_ord"
begin

text \<open>
  internal/store: the SQLite tables of the control plane as lists of rows, the injected clock,
  transactions with rollback, and every query and guarded mutation as one definition. A nullable
  column is an \<open>option\<close>; the zero value a scan gives for NULL is \<open>null_int\<close> and
  \<open>null_string\<close>. Timestamps are Unix milliseconds as unbounded integers (int64 in the code).
\<close>


section \<open>Types of types.go, logs.go and artifacts.go\<close>

datatype run_state = RunPending | RunRunning | RunSucceeded | RunFailed | RunCancelled

datatype job_state =
  JobPending | JobQueued | JobRunning | JobSucceeded | JobFailed | JobCancelled | JobSkipped

datatype failure_kind =
  FailureExitCode | FailureTimeout | FailureInfra | FailureLostRunner | FailureCancelled

datatype cancel_reason = CancelReasonUser | CancelReasonTimeout

datatype runner_state = RunnerOnline | RunnerOffline

text \<open>
  Rows. \<open>j_spec\<close> stands for the stored JSON by what decoding it gives: \<open>None\<close> for a text
  \<open>json.Unmarshal\<close> rejects.
\<close>

record Run =
  r_id :: string
  r_source_key :: string
  r_pipeline_yaml :: string
  r_commit_sha :: "string option"
  r_ref :: "string option"
  r_trigger :: string
  r_state :: run_state
  r_created_at :: int
  r_started_at :: "int option"
  r_finished_at :: "int option"

record Job =
  j_id :: string
  j_run_id :: string
  j_name :: string
  j_spec :: "PJob option"
  j_state :: job_state
  j_attempt :: int
  j_max_attempts :: int
  j_runner_id :: "string option"
  j_lease_expires_at :: "int option"
  j_failure_kind :: "failure_kind option"
  j_exit_code :: "int option"
  j_error :: "string option"
  j_queued_at :: int
  j_started_at :: "int option"
  j_finished_at :: "int option"
  j_cancel_requested_at :: "int option"
  j_cancel_reason :: "cancel_reason option"

record JobDep =
  d_job_id :: string
  d_needs_job_id :: string

record Runner =
  rn_id :: string
  rn_name :: string
  rn_labels :: "(string \<times> string) list"
  rn_capacity :: int
  rn_state :: runner_state
  rn_version :: string
  rn_last_seen_at :: int
  rn_registered_at :: int

text \<open>An event's detail is a JSON object: the members in the order the code lists them.\<close>

datatype json = JStr string | JInt int | JNull | JStrs "string list"

type_synonym detail = "(string \<times> json) list"

record Event =
  e_id :: int
  e_run_id :: string
  e_job_id :: "string option"
  e_type :: string
  e_detail :: detail
  e_created_at :: int

type_synonym bytes = "char list"

record LogChunk =
  lc_job_id :: string
  lc_attempt :: int
  lc_seq :: int
  lc_data :: bytes

record Artifact =
  a_job_id :: string
  a_attempt :: int
  a_path :: string
  a_size_bytes :: int
  a_sha256 :: string
  a_content_type :: string
  a_created_at :: int

text \<open>
  The database and the injected clock. The clock may be read several times in a transaction,
  so it is a sequence of readings with the number consumed so far.
\<close>

record store =
  t_runs :: "Run list"
  t_jobs :: "Job list"
  t_deps :: "JobDep list"
  t_runners :: "Runner list"
  t_events :: "Event list"
  t_chunks :: "LogChunk list"
  t_artifacts :: "Artifact list"
  clock :: "nat \<Rightarrow> int"
  reads :: nat

text \<open>
  The errors of the control plane: the store's and the scheduler's sentinel errors, one
  constructor per other message, and the database's constraint violations.
\<close>

datatype invalid_msg = InvalidFailureKind string | InvalidStatus string | BadLogSeq int

datatype err =
    ErrNotFound
  | ErrFenced
  | ErrRunFinished
  | InvalidResultError invalid_msg
  | RunnerIDRequired
  | SpecDecode string
  | LeftPending string
  | UnsupportedTarget string job_state
  | EventFieldsRequired
  | RunIDRequired
  | PipelineYAMLRequired string
  | JobNeedsIDAndName nat
  | DepOutsideRun string string string
  | UniqueViolation string
  | ForeignKeyViolation string
  | NoRows
  | EncodeJob string

type_synonym 'a stx = "(store, err, 'a) tx"


section \<open>store.go: clock and transactions\<close>

definition Now :: "int stx" where
  "Now s = (Inr (clock s (reads s)), s\<lparr>reads := Suc (reads s)\<rparr>)"

text \<open>
  \<open>Tx\<close> commits when the body returns nil and rolls every table back when it returns an
  error. The clock is outside the database: what was read stays read.
\<close>

definition Tx :: "'a stx \<Rightarrow> 'a stx" where
  "Tx fn s = (case fn s of (Inl e, s') \<Rightarrow> (Inl e, s\<lparr>reads := reads s'\<rparr>) | (Inr x, s') \<Rightarrow> (Inr x, s'))"

text \<open>Scanning a nullable column: NULL reads as the zero value.\<close>

definition null_int :: "int option \<Rightarrow> int" where
  "null_int v = (case v of None \<Rightarrow> 0 | Some n \<Rightarrow> n)"

definition null_string :: "string option \<Rightarrow> string" where
  "null_string v = (case v of None \<Rightarrow> [] | Some t \<Rightarrow> t)"

definition nullMillis :: "int \<Rightarrow> int option" where
  "nullMillis v = (if v = 0 then None else Some v)"

definition nullStr :: "string \<Rightarrow> string option" where
  "nullStr v = (if v = [] then None else Some v)"


section \<open>runs.go\<close>

text \<open>
  What a caller hands to \<open>CreateRun\<close>: the Go structs before they are stored, with zero
  values for what was not set (\<open>None\<close> is the empty state string).
\<close>

record RunInit =
  ri_id :: string
  ri_source_key :: string
  ri_pipeline_yaml :: string
  ri_commit_sha :: string
  ri_ref :: string
  ri_trigger :: string
  ri_state :: "run_state option"
  ri_created_at :: int
  ri_started_at :: int
  ri_finished_at :: int

record JobInit =
  ji_id :: string
  ji_name :: string
  ji_spec :: "PJob option"
  ji_state :: "job_state option"
  ji_attempt :: int
  ji_max_attempts :: int
  ji_runner_id :: string
  ji_lease_expires_at :: int
  ji_failure_kind :: "failure_kind option"
  ji_exit_code :: "int option"
  ji_error :: string
  ji_queued_at :: int
  ji_started_at :: int
  ji_finished_at :: int

definition run_row :: "int \<Rightarrow> RunInit \<Rightarrow> Run" where
  "run_row now r = \<lparr>r_id = ri_id r, r_source_key = ri_source_key r, r_pipeline_yaml = ri_pipeline_yaml r,
     r_commit_sha = nullStr (ri_commit_sha r), r_ref = nullStr (ri_ref r), r_trigger = ri_trigger r,
     r_state = (case ri_state r of None \<Rightarrow> RunPending | Some st \<Rightarrow> st),
     r_created_at = (if ri_created_at r = 0 then now else ri_created_at r),
     r_started_at = nullMillis (ri_started_at r), r_finished_at = nullMillis (ri_finished_at r)\<rparr>"

definition job_row :: "int \<Rightarrow> string \<Rightarrow> JobInit \<Rightarrow> Job" where
  "job_row now runID j = \<lparr>j_id = ji_id j, j_run_id = runID, j_name = ji_name j, j_spec = ji_spec j,
     j_state = (case ji_state j of None \<Rightarrow> JobPending | Some st \<Rightarrow> st),
     j_attempt = ji_attempt j,
     j_max_attempts = (if ji_max_attempts j \<le> 0 then 1 else ji_max_attempts j),
     j_runner_id = nullStr (ji_runner_id j), j_lease_expires_at = nullMillis (ji_lease_expires_at j),
     j_failure_kind = ji_failure_kind j, j_exit_code = ji_exit_code j, j_error = nullStr (ji_error j),
     j_queued_at = (if ji_queued_at j = 0 then now else ji_queued_at j),
     j_started_at = nullMillis (ji_started_at j), j_finished_at = nullMillis (ji_finished_at j),
     j_cancel_requested_at = None, j_cancel_reason = None\<rparr>"

text \<open>INSERT with the constraints of the schema: primary keys, UNIQUE (run_id, name), references.\<close>

definition insert_run :: "Run \<Rightarrow> unit stx" where
  "insert_run r s =
     (if r_id r \<in> r_id ` set (t_runs s) then (Inl (UniqueViolation ''runs''), s)
      else (Inr (), s\<lparr>t_runs := t_runs s @ [r]\<rparr>))"

definition insert_job :: "Job \<Rightarrow> unit stx" where
  "insert_job j s =
     (if j_id j \<in> j_id ` set (t_jobs s)
          \<or> (j_run_id j, j_name j) \<in> (\<lambda>q. (j_run_id q, j_name q)) ` set (t_jobs s)
      then (Inl (UniqueViolation ''jobs''), s)
      else if j_run_id j \<notin> r_id ` set (t_runs s) then (Inl (ForeignKeyViolation ''jobs''), s)
      else (Inr (), s\<lparr>t_jobs := t_jobs s @ [j]\<rparr>))"

definition insert_dep :: "JobDep \<Rightarrow> unit stx" where
  "insert_dep d s =
     (if d \<in> set (t_deps s) then (Inl (UniqueViolation ''job_deps''), s)
      else if d_job_id d \<notin> j_id ` set (t_jobs s) \<or> d_needs_job_id d \<notin> j_id ` set (t_jobs s)
      then (Inl (ForeignKeyViolation ''job_deps''), s)
      else (Inr (), s\<lparr>t_deps := t_deps s @ [d]\<rparr>))"

fun create_jobs :: "nat \<Rightarrow> int \<Rightarrow> string \<Rightarrow> JobInit list \<Rightarrow> unit stx" where
  "create_jobs i now runID [] = tx_return ()"
| "create_jobs i now runID (j # js) =
     (if ji_id j = [] \<or> ji_name j = [] then tx_raise (JobNeedsIDAndName i)
      else tx_bind (insert_job (job_row now runID j)) (\<lambda>_. create_jobs (i + 1) now runID js))"

fun create_deps :: "string \<Rightarrow> string set \<Rightarrow> JobDep list \<Rightarrow> unit stx" where
  "create_deps runID ids [] = tx_return ()"
| "create_deps runID ids (d # ds) =
     (if d_job_id d \<notin> ids \<or> d_needs_job_id d \<notin> ids
      then tx_raise (DepOutsideRun (d_job_id d) (d_needs_job_id d) runID)
      else tx_bind (insert_dep d) (\<lambda>_. create_deps runID ids ds))"

text \<open>The caller's structs are completed in place, so the rows are the result.\<close>

definition CreateRun :: "RunInit \<Rightarrow> JobInit list \<Rightarrow> JobDep list \<Rightarrow> (Run \<times> Job list) stx" where
  "CreateRun run js deps =
     (if ri_id run = [] then tx_raise RunIDRequired
      else if ri_pipeline_yaml run = [] then tx_raise (PipelineYAMLRequired (ri_id run))
      else tx_bind Now (\<lambda>now.
        tx_bind (insert_run (run_row now run)) (\<lambda>_.
        tx_bind (create_jobs 0 now (ri_id run) js) (\<lambda>_.
        tx_bind (create_deps (ri_id run) (ji_id ` set js) deps) (\<lambda>_.
        tx_return (run_row now run, map (job_row now (ri_id run)) js))))))"

definition GetRun :: "string \<Rightarrow> Run stx" where
  "GetRun runID s = (case find (\<lambda>r. r_id r = runID) (t_runs s) of
     None \<Rightarrow> (Inl ErrNotFound, s) | Some r \<Rightarrow> (Inr r, s))"

definition take_limit :: "int \<Rightarrow> 'a list \<Rightarrow> 'a list" where
  "take_limit limit xs = (if limit \<le> 0 then xs else take (nat limit) xs)"

definition ListRuns :: "int \<Rightarrow> Run list stx" where
  "ListRuns limit = tx_get (\<lambda>s. take_limit limit (rev (sort_key (\<lambda>r. (r_created_at r, r_id r)) (t_runs s))))"

definition GetJob :: "string \<Rightarrow> Job stx" where
  "GetJob jobID s = (case find (\<lambda>j. j_id j = jobID) (t_jobs s) of
     None \<Rightarrow> (Inl ErrNotFound, s) | Some j \<Rightarrow> (Inr j, s))"

definition ListJobs :: "string \<Rightarrow> Job list stx" where
  "ListJobs runID = tx_get (\<lambda>s. filter (\<lambda>j. j_run_id j = runID) (t_jobs s))"

definition ListJobDeps :: "string \<Rightarrow> JobDep list stx" where
  "ListJobDeps runID = tx_get (\<lambda>s.
     sort_key (\<lambda>d. (d_job_id d, d_needs_job_id d))
       (filter (\<lambda>d. \<exists>j \<in> set (t_jobs s). j_id j = d_job_id d \<and> j_run_id j = runID) (t_deps s)))"


section \<open>jobs.go\<close>

definition ListQueuedJobs :: "Job list stx" where
  "ListQueuedJobs = tx_get (\<lambda>s. sort_key j_queued_at (filter (\<lambda>j. j_state j = JobQueued) (t_jobs s)))"

text \<open>A guarded UPDATE of the jobs table; the result is whether exactly one row changed.\<close>

definition update_jobs :: "(Job \<Rightarrow> bool) \<Rightarrow> (Job \<Rightarrow> Job) \<Rightarrow> bool stx" where
  "update_jobs P f s = (Inr (sql_affected P (t_jobs s) = 1), s\<lparr>t_jobs := sql_update P f (t_jobs s)\<rparr>)"

definition claim_row :: "string \<Rightarrow> int \<Rightarrow> int \<Rightarrow> Job \<Rightarrow> Job" where
  "claim_row runnerID lease now j = j\<lparr>j_state := JobRunning, j_runner_id := Some runnerID,
     j_attempt := j_attempt j + 1, j_lease_expires_at := Some lease, j_started_at := Some now\<rparr>"

definition ClaimJob :: "string \<Rightarrow> string \<Rightarrow> int \<Rightarrow> (int \<times> bool) stx" where
  "ClaimJob jobID runnerID lease =
     tx_bind Now (\<lambda>now.
     tx_bind (update_jobs (\<lambda>j. j_id j = jobID \<and> j_state j = JobQueued) (claim_row runnerID lease now)) (\<lambda>ok.
     if \<not> ok then tx_return (0, False)
     else tx_bind (tx_get (\<lambda>s. find (\<lambda>j. j_id j = jobID) (t_jobs s))) (\<lambda>row.
       case row of None \<Rightarrow> tx_raise NoRows | Some j \<Rightarrow> tx_return (j_attempt j, True))))"

definition lease_row :: "int \<Rightarrow> Job \<Rightarrow> Job" where
  "lease_row lease j = j\<lparr>j_lease_expires_at := Some lease\<rparr>"

definition ExtendLease :: "string \<Rightarrow> int \<Rightarrow> string \<Rightarrow> int \<Rightarrow> bool stx" where
  "ExtendLease jobID attempt runnerID lease =
     update_jobs (\<lambda>j. j_id j = jobID \<and> j_state j = JobRunning \<and> j_attempt j = attempt
                      \<and> j_runner_id j = Some runnerID) (lease_row lease)"

definition finish_row ::
  "job_state \<Rightarrow> failure_kind option \<Rightarrow> int option \<Rightarrow> string \<Rightarrow> int \<Rightarrow> Job \<Rightarrow> Job" where
  "finish_row state kind exitCode msg now j = j\<lparr>j_state := state, j_failure_kind := kind,
     j_exit_code := exitCode, j_error := nullStr msg, j_lease_expires_at := None, j_finished_at := Some now\<rparr>"

definition FinishJob ::
  "string \<Rightarrow> int \<Rightarrow> job_state \<Rightarrow> failure_kind option \<Rightarrow> int option \<Rightarrow> string \<Rightarrow> bool stx" where
  "FinishJob jobID attempt state kind exitCode msg =
     tx_bind Now (\<lambda>now.
     update_jobs (\<lambda>j. j_id j = jobID \<and> j_state j = JobRunning \<and> j_attempt j = attempt)
       (finish_row state kind exitCode msg now))"

definition requeue_row :: "string \<Rightarrow> int \<Rightarrow> Job \<Rightarrow> Job" where
  "requeue_row msg now j = j\<lparr>j_state := JobQueued, j_runner_id := None, j_lease_expires_at := None,
     j_started_at := None, j_error := nullStr msg, j_queued_at := now\<rparr>"

definition RequeueJob :: "string \<Rightarrow> int \<Rightarrow> string \<Rightarrow> bool stx" where
  "RequeueJob jobID attempt msg =
     tx_bind Now (\<lambda>now.
     update_jobs (\<lambda>j. j_id j = jobID \<and> j_state j = JobRunning \<and> j_attempt j = attempt) (requeue_row msg now))"

definition queue_row :: "int \<Rightarrow> Job \<Rightarrow> Job" where
  "queue_row now j = j\<lparr>j_state := JobQueued, j_queued_at := now\<rparr>"

definition skip_row :: "int \<Rightarrow> Job \<Rightarrow> Job" where
  "skip_row now j = j\<lparr>j_state := JobSkipped, j_finished_at := Some now\<rparr>"

definition TransitionPendingJob :: "string \<Rightarrow> job_state \<Rightarrow> bool stx" where
  "TransitionPendingJob jobID to =
     tx_bind Now (\<lambda>now.
     case to of
       JobQueued \<Rightarrow> update_jobs (\<lambda>j. j_id j = jobID \<and> j_state j = JobPending) (queue_row now)
     | JobSkipped \<Rightarrow> update_jobs (\<lambda>j. j_id j = jobID \<and> j_state j = JobPending) (skip_row now)
     | _ \<Rightarrow> tx_raise (UnsupportedTarget jobID to))"

definition run_state_row :: "run_state \<Rightarrow> int \<Rightarrow> Run \<Rightarrow> Run" where
  "run_state_row to now r = r\<lparr>r_state := to,
     r_started_at := (if to = RunRunning then Some now else r_started_at r),
     r_finished_at := (if to \<noteq> RunRunning \<and> to \<noteq> RunPending then Some now else r_finished_at r)\<rparr>"

definition SetRunState :: "string \<Rightarrow> run_state \<Rightarrow> run_state \<Rightarrow> bool stx" where
  "SetRunState runID from to =
     tx_bind Now (\<lambda>now s.
       (Inr (sql_affected (\<lambda>r. r_id r = runID \<and> r_state r = from) (t_runs s) = 1),
        s\<lparr>t_runs := sql_update (\<lambda>r. r_id r = runID \<and> r_state r = from) (run_state_row to now) (t_runs s)\<rparr>))"

definition ListExpiredLeases :: "int \<Rightarrow> Job list stx" where
  "ListExpiredLeases now = tx_get (\<lambda>s.
     sort_key j_lease_expires_at
       (filter (\<lambda>j. j_state j = JobRunning \<and> j_lease_expires_at j \<noteq> None
                    \<and> null_int (j_lease_expires_at j) < now) (t_jobs s)))"

definition cancel_row :: "string \<Rightarrow> int \<Rightarrow> Job \<Rightarrow> Job" where
  "cancel_row msg now j = j\<lparr>j_state := JobCancelled, j_failure_kind := Some FailureCancelled,
     j_error := nullStr msg, j_finished_at := Some now\<rparr>"

definition CancelJob :: "string \<Rightarrow> string \<Rightarrow> bool stx" where
  "CancelJob jobID msg =
     tx_bind Now (\<lambda>now.
     update_jobs (\<lambda>j. j_id j = jobID \<and> (j_state j = JobPending \<or> j_state j = JobQueued)) (cancel_row msg now))"

definition request_cancel_row :: "cancel_reason \<Rightarrow> int \<Rightarrow> Job \<Rightarrow> Job" where
  "request_cancel_row reason now j = j\<lparr>j_cancel_requested_at := Some now, j_cancel_reason := Some reason\<rparr>"

definition RequestJobCancel :: "string \<Rightarrow> cancel_reason \<Rightarrow> bool stx" where
  "RequestJobCancel jobID reason =
     tx_bind Now (\<lambda>now.
     update_jobs (\<lambda>j. j_id j = jobID \<and> j_state j = JobRunning \<and> j_cancel_requested_at j = None)
       (request_cancel_row reason now))"

definition ListRunningJobs :: "Job list stx" where
  "ListRunningJobs = tx_get (\<lambda>s.
     sort_key j_started_at
       (filter (\<lambda>j. j_state j = JobRunning \<and> j_cancel_requested_at j = None) (t_jobs s)))"


section \<open>runners.go\<close>

text \<open>
  What \<open>UpsertRunner\<close> is given; \<open>None\<close> is the empty state. The upsert fails when another
  runner has the name (unique index of migration 0002).
\<close>

record RunnerInit =
  rr_id :: string
  rr_name :: string
  rr_labels :: "(string \<times> string) list"
  rr_capacity :: int
  rr_state :: "runner_state option"
  rr_version :: string

definition runner_row :: "int \<Rightarrow> RunnerInit \<Rightarrow> Runner" where
  "runner_row now r = \<lparr>rn_id = rr_id r, rn_name = rr_name r, rn_labels = rr_labels r,
     rn_capacity = (if rr_capacity r \<le> 0 then 1 else rr_capacity r),
     rn_state = (case rr_state r of None \<Rightarrow> RunnerOnline | Some st \<Rightarrow> st),
     rn_version = rr_version r, rn_last_seen_at = now, rn_registered_at = now\<rparr>"

definition UpsertRunner :: "RunnerInit \<Rightarrow> unit stx" where
  "UpsertRunner r =
     (if rr_id r = [] then tx_raise RunnerIDRequired
      else tx_bind Now (\<lambda>now s.
        let row = runner_row now r in
        if \<exists>q \<in> set (t_runners s). rn_id q \<noteq> rn_id row \<and> rn_name q = rn_name row
        then (Inl (UniqueViolation ''runners''), s)
        else if rn_id row \<in> rn_id ` set (t_runners s)
        then (Inr (), s\<lparr>t_runners := sql_update (\<lambda>q. rn_id q = rn_id row)
                 (\<lambda>q. row\<lparr>rn_registered_at := rn_registered_at q\<rparr>) (t_runners s)\<rparr>)
        else (Inr (), s\<lparr>t_runners := t_runners s @ [row]\<rparr>)))"

definition touch_row :: "int \<Rightarrow> Runner \<Rightarrow> Runner" where
  "touch_row now r = r\<lparr>rn_last_seen_at := now, rn_state := RunnerOnline\<rparr>"

definition TouchRunner :: "string \<Rightarrow> unit stx" where
  "TouchRunner runnerID =
     tx_bind Now (\<lambda>now s.
       if sql_affected (\<lambda>r. rn_id r = runnerID) (t_runners s) = 1
       then (Inr (), s\<lparr>t_runners := sql_update (\<lambda>r. rn_id r = runnerID) (touch_row now) (t_runners s)\<rparr>)
       else UpsertRunner \<lparr>rr_id = runnerID, rr_name = runnerID, rr_labels = [], rr_capacity = 0,
              rr_state = None, rr_version = []\<rparr>
              (s\<lparr>t_runners := sql_update (\<lambda>r. rn_id r = runnerID) (touch_row now) (t_runners s)\<rparr>))"

definition GetRunner :: "string \<Rightarrow> Runner stx" where
  "GetRunner runnerID s = (case find (\<lambda>r. rn_id r = runnerID) (t_runners s) of
     None \<Rightarrow> (Inl ErrNotFound, s) | Some r \<Rightarrow> (Inr r, s))"

definition GetRunnerByName :: "string \<Rightarrow> Runner stx" where
  "GetRunnerByName name s = (case find (\<lambda>r. rn_name r = name) (t_runners s) of
     None \<Rightarrow> (Inl ErrNotFound, s) | Some r \<Rightarrow> (Inr r, s))"

definition ListRunners :: "Runner list stx" where
  "ListRunners = tx_get (\<lambda>s. sort_key rn_id (t_runners s))"

definition MarkRunnersOffline :: "int \<Rightarrow> string list stx" where
  "MarkRunnersOffline before =
     tx_bind (tx_get (\<lambda>s. sort (map rn_id
       (filter (\<lambda>r. rn_state r = RunnerOnline \<and> rn_last_seen_at r < before) (t_runners s))))) (\<lambda>ids.
     tx_bind (tx_fold (\<lambda>rid _. tx_modify (\<lambda>s. s\<lparr>t_runners :=
         sql_update (\<lambda>r. rn_id r = rid \<and> rn_state r = RunnerOnline) (\<lambda>r. r\<lparr>rn_state := RunnerOffline\<rparr>)
           (t_runners s)\<rparr>)) ids ()) (\<lambda>_.
     tx_return ids))"


section \<open>events.go\<close>

definition next_event_id :: "Event list \<Rightarrow> int" where
  "next_event_id evs = (if evs = [] then 1 else e_id (last evs) + 1)"

definition AppendEvent :: "string \<Rightarrow> string \<Rightarrow> string \<Rightarrow> detail \<Rightarrow> unit stx" where
  "AppendEvent runID jobID typ detail =
     (if runID = [] \<or> typ = [] then tx_raise EventFieldsRequired
      else tx_bind Now (\<lambda>now.
        tx_modify (\<lambda>s. s\<lparr>t_events := t_events s @ [\<lparr>e_id = next_event_id (t_events s), e_run_id = runID,
          e_job_id = nullStr jobID, e_type = typ, e_detail = detail, e_created_at = now\<rparr>]\<rparr>)))"

definition ListEvents :: "string \<Rightarrow> int \<Rightarrow> int \<Rightarrow> Event list stx" where
  "ListEvents runID afterID limit = tx_get (\<lambda>s.
     take_limit limit (sort_key e_id (filter (\<lambda>e. e_run_id e = runID \<and> afterID < e_id e) (t_events s))))"

text \<open>Decoding \<open>attempt\<close> out of a detail: a missing member leaves the zero value, a member of another type is an error.\<close>

definition detail_attempt :: "detail \<Rightarrow> int option" where
  "detail_attempt d = (case map_of d ''attempt'' of
     None \<Rightarrow> Some 0 | Some (JInt n) \<Rightarrow> Some n | Some JNull \<Rightarrow> Some 0 | Some _ \<Rightarrow> None)"

definition HasJobEvent :: "string \<Rightarrow> string \<Rightarrow> string \<Rightarrow> int \<Rightarrow> bool stx" where
  "HasJobEvent runID jobID typ attempt = tx_get (\<lambda>s.
     \<exists>e \<in> set (t_events s). e_run_id e = runID \<and> e_job_id e = Some jobID \<and> e_type e = typ
        \<and> detail_attempt (e_detail e) = Some attempt)"


section \<open>logs.go and artifacts.go\<close>

definition InsertLogChunk :: "string \<Rightarrow> int \<Rightarrow> int \<Rightarrow> bytes \<Rightarrow> bool stx" where
  "InsertLogChunk jobID attempt seq data s =
     (if (jobID, attempt, seq) \<in> (\<lambda>c. (lc_job_id c, lc_attempt c, lc_seq c)) ` set (t_chunks s)
      then (Inr False, s)
      else if jobID \<notin> j_id ` set (t_jobs s) then (Inl (ForeignKeyViolation ''log_chunks''), s)
      else (Inr True, s\<lparr>t_chunks := t_chunks s @
              [\<lparr>lc_job_id = jobID, lc_attempt = attempt, lc_seq = seq, lc_data = data\<rparr>]\<rparr>))"

definition LogBytes :: "string \<Rightarrow> int \<Rightarrow> int stx" where
  "LogBytes jobID attempt = tx_get (\<lambda>s.
     sum_list (map (\<lambda>c. int (length (lc_data c)))
       (filter (\<lambda>c. lc_job_id c = jobID \<and> lc_attempt c = attempt) (t_chunks s))))"

definition ListLogChunks :: "string \<Rightarrow> int \<Rightarrow> int \<Rightarrow> LogChunk list stx" where
  "ListLogChunks jobID attempt afterSeq = tx_get (\<lambda>s.
     sort_key lc_seq (filter (\<lambda>c. lc_job_id c = jobID \<and> lc_attempt c = attempt \<and> afterSeq < lc_seq c)
       (t_chunks s)))"

definition UpsertArtifact :: "string \<Rightarrow> int \<Rightarrow> string \<Rightarrow> int \<Rightarrow> string \<Rightarrow> string \<Rightarrow> unit stx" where
  "UpsertArtifact jobID attempt path sz sha ctype =
     tx_bind Now (\<lambda>now s.
       let row = \<lparr>a_job_id = jobID, a_attempt = attempt, a_path = path, a_size_bytes = sz,
             a_sha256 = sha, a_content_type = ctype, a_created_at = now\<rparr>;
           same = (\<lambda>a. a_job_id a = jobID \<and> a_attempt a = attempt \<and> a_path a = path)
       in if \<exists>a \<in> set (t_artifacts s). same a
          then (Inr (), s\<lparr>t_artifacts := sql_update same (\<lambda>_. row) (t_artifacts s)\<rparr>)
          else if jobID \<notin> j_id ` set (t_jobs s) then (Inl (ForeignKeyViolation ''artifacts''), s)
          else (Inr (), s\<lparr>t_artifacts := t_artifacts s @ [row]\<rparr>))"

definition GetArtifact :: "string \<Rightarrow> int \<Rightarrow> string \<Rightarrow> Artifact stx" where
  "GetArtifact jobID attempt path s =
     (case find (\<lambda>a. a_job_id a = jobID \<and> a_attempt a = attempt \<and> a_path a = path) (t_artifacts s) of
        None \<Rightarrow> (Inl ErrNotFound, s) | Some a \<Rightarrow> (Inr a, s))"

definition ListArtifacts :: "string \<Rightarrow> int \<Rightarrow> Artifact list stx" where
  "ListArtifacts jobID attempt = tx_get (\<lambda>s.
     sort_key a_path (filter (\<lambda>a. a_job_id a = jobID \<and> a_attempt a = attempt) (t_artifacts s)))"

end
