(* ===== verification/Scheduler.thy ===== *)
theory Scheduler
  imports Store
begin

text \<open>
  internal/scheduler: claiming, heartbeating, completing, cancelling, the lease monitor's tick and
  log ingestion. Each handler is one store transaction followed, when it committed, by the
  update of the metrics; the definitions follow the code statement by statement.
\<close>


section \<open>Configuration, metrics and the scheduler's state\<close>

text \<open>Durations are nanoseconds, as \<open>time.Duration\<close>.\<close>

definition DefaultLeaseTTL :: int where "DefaultLeaseTTL = 30 * 1000000000"

definition DefaultLogCapBytes :: int where "DefaultLogCapBytes = 10 * 2 ^ 20"

definition DefaultMaxAttempts :: int where "DefaultMaxAttempts = 3"

definition DefaultMonitorInterval :: int where "DefaultMonitorInterval = 5 * 1000000000"

definition DefaultRunnerOfflineAfter :: int where "DefaultRunnerOfflineAfter = 30 * 1000000000"

definition DefaultTimeoutGrace :: int where "DefaultTimeoutGrace = 30 * 1000000000"

definition milliseconds :: "int \<Rightarrow> int" where
  "milliseconds ns = (if 0 \<le> ns then ns div 1000000 else - ((- ns) div 1000000))"

text \<open>
  The server's metric set (internal/metrics): counters by state entered, the observations of the
  two histograms, and the two plain counters.
\<close>

record metrics =
  m_jobs_total :: "job_state \<Rightarrow> nat"
  m_job_duration :: "rat list"
  m_claim_latency :: "rat list"
  m_lease_expirations :: nat
  m_log_bytes :: int

definition new_metrics :: metrics where
  "new_metrics = \<lparr>m_jobs_total = (\<lambda>_. 0), m_job_duration = [], m_claim_latency = [],
     m_lease_expirations = 0, m_log_bytes = 0\<rparr>"

record Config =
  c_lease_ttl :: int
  c_log_cap_bytes :: int
  c_max_attempts :: int
  c_monitor_interval :: int
  c_runner_offline_after :: int
  c_timeout_grace :: int

record Scheduler =
  st :: store
  mx :: metrics
  ttl :: int
  logCap :: int
  maxAttempts :: int
  monitorEach :: int
  offlineMS :: int
  graceMS :: int
  leaseGraceUntil :: int

definition or_default :: "int \<Rightarrow> int \<Rightarrow> int" where
  "or_default v d = (if v \<le> 0 then d else v)"

definition New :: "store \<Rightarrow> metrics \<Rightarrow> Config \<Rightarrow> Scheduler" where
  "New s m cfg =
     (let lease = milliseconds (or_default (c_lease_ttl cfg) DefaultLeaseTTL) in
      \<lparr>st = s\<lparr>reads := Suc (reads s)\<rparr>, mx = m, ttl = lease,
       logCap = or_default (c_log_cap_bytes cfg) DefaultLogCapBytes,
       maxAttempts = or_default (c_max_attempts cfg) DefaultMaxAttempts,
       monitorEach = or_default (c_monitor_interval cfg) DefaultMonitorInterval,
       offlineMS = milliseconds (or_default (c_runner_offline_after cfg) DefaultRunnerOfflineAfter),
       graceMS = milliseconds (or_default (c_timeout_grace cfg) DefaultTimeoutGrace),
       leaseGraceUntil = clock s (reads s) + lease\<rparr>)"

definition seconds :: "int \<Rightarrow> rat" where
  "seconds ms = of_int ms / 1000"

text \<open>\<open>transitions\<close>: what one transaction changed, applied to the metrics after the commit.\<close>

record transitions =
  entered :: "job_state \<Rightarrow> nat"
  durationMS :: "int list"

definition no_transitions :: transitions where
  "no_transitions = \<lparr>entered = (\<lambda>_. 0), durationMS = []\<rparr>"

definition tr_enter :: "job_state \<Rightarrow> transitions \<Rightarrow> transitions" where
  "tr_enter state t = t\<lparr>entered := (entered t)(state := entered t state + 1)\<rparr>"

definition tr_finished :: "job_state \<Rightarrow> int \<Rightarrow> int \<Rightarrow> transitions \<Rightarrow> transitions" where
  "tr_finished state startedAt finishedAt t =
     (let t' = tr_enter state t in
      if 0 < startedAt \<and> startedAt \<le> finishedAt
      then t'\<lparr>durationMS := durationMS t' @ [finishedAt - startedAt]\<rparr> else t')"

definition tr_apply :: "transitions \<Rightarrow> metrics \<Rightarrow> metrics" where
  "tr_apply t m = m\<lparr>m_jobs_total := (\<lambda>state. m_jobs_total m state + entered t state),
     m_job_duration := m_job_duration m @ map seconds (durationMS t)\<rparr>"

definition retryable :: "failure_kind \<Rightarrow> bool" where
  "retryable kind \<longleftrightarrow> kind = FailureInfra \<or> kind = FailureLostRunner"

definition isTerminal :: "job_state \<Rightarrow> bool" where
  "isTerminal state = (case state of
     JobSucceeded \<Rightarrow> True | JobFailed \<Rightarrow> True | JobCancelled \<Rightarrow> True | JobSkipped \<Rightarrow> True | _ \<Rightarrow> False)"

text \<open>A missing label of the runner reads as the empty string.\<close>

definition labelsSubset :: "(string \<times> string) list \<Rightarrow> (string \<times> string) list \<Rightarrow> bool" where
  "labelsSubset need have_labels = (\<forall>(k, v) \<in> set need. get_str have_labels k = v)"

definition jobSpec :: "Job \<Rightarrow> PJob stx" where
  "jobSpec j = (case j_spec j of None \<Rightarrow> tx_raise (SpecDecode (j_id j)) | Some spec \<Rightarrow> tx_return spec)"

definition specLabels :: "Job \<Rightarrow> (string \<times> string) list stx" where
  "specLabels j = tx_bind (jobSpec j) (\<lambda>spec. tx_return (pj_labels spec))"

definition event :: "string \<Rightarrow> string \<Rightarrow> string \<Rightarrow> detail \<Rightarrow> unit stx" where
  "event runID jobID typ detail = AppendEvent runID jobID typ detail"


section \<open>Claim\<close>

record RunnerInfo =
  ru_id :: string
  ru_name :: string
  ru_labels :: "(string \<times> string) list"
  ru_capacity :: int
  ru_version :: string

fun claim_loop :: "int \<Rightarrow> RunnerInfo \<Rightarrow> Job list \<Rightarrow> Job option stx" where
  "claim_loop lease r [] = tx_return None"
| "claim_loop lease r (job # rest) =
     tx_bind (specLabels job) (\<lambda>need.
     if \<not> labelsSubset need (ru_labels r) then claim_loop lease r rest
     else
       tx_bind Now (\<lambda>now.
       tx_bind (ClaimJob (j_id job) (ru_id r) (now + lease)) (\<lambda>(attempt, ok).
       if \<not> ok then claim_loop lease r rest
       else
         tx_bind (SetRunState (j_run_id job) RunPending RunRunning) (\<lambda>started.
         tx_bind (if started then event (j_run_id job) [] ''run.started'' [] else tx_return ()) (\<lambda>_.
         tx_bind (event (j_run_id job) (j_id job) ''job.claimed''
                    [(''runner_id'', JStr (ru_id r)), (''attempt'', JInt attempt)]) (\<lambda>_.
         tx_bind (GetJob (j_id job)) (\<lambda>claimed. tx_return (Some claimed))))))))"

definition claim_tx :: "int \<Rightarrow> RunnerInfo \<Rightarrow> Job option stx" where
  "claim_tx lease r =
     tx_bind (UpsertRunner \<lparr>rr_id = ru_id r, rr_name = ru_name r, rr_labels = ru_labels r,
        rr_capacity = ru_capacity r, rr_state = None, rr_version = ru_version r\<rparr>) (\<lambda>_.
     tx_bind ListQueuedJobs (\<lambda>queued. claim_loop lease r queued))"

definition Claim :: "Scheduler \<Rightarrow> RunnerInfo \<Rightarrow> (err + Job option) \<times> Scheduler" where
  "Claim sc r =
     (if ru_id r = [] then (Inl RunnerIDRequired, sc)
      else
        let r' = (if ru_name r = [] then r\<lparr>ru_name := ru_id r\<rparr> else r) in
        case Tx (claim_tx (ttl sc) r') (st sc) of
          (Inl e, s') \<Rightarrow> (Inl e, sc\<lparr>st := s'\<rparr>)
        | (Inr None, s') \<Rightarrow> (Inr None, sc\<lparr>st := s'\<rparr>)
        | (Inr (Some j), s') \<Rightarrow>
            (Inr (Some j), sc\<lparr>st := s',
               mx := (mx sc)\<lparr>m_jobs_total := (m_jobs_total (mx sc))(JobRunning := m_jobs_total (mx sc) JobRunning + 1),
                 m_claim_latency := m_claim_latency (mx sc) @ [seconds (null_int (j_started_at j) - j_queued_at j)]\<rparr>\<rparr>))"


section \<open>Heartbeat\<close>

datatype directive = DirectiveContinue | DirectiveCancel | DirectiveAbort

definition heartbeat_job :: "int \<Rightarrow> string \<Rightarrow> string \<times> int \<Rightarrow> (string \<times> int \<times> directive) list
    \<Rightarrow> (string \<times> int \<times> directive) list stx" where
  "heartbeat_job lease runnerID ref out =
     (case ref of (jobID, attempt) \<Rightarrow>
        tx_bind Now (\<lambda>now.
        tx_bind (ExtendLease jobID attempt runnerID (now + lease)) (\<lambda>ok.
        if \<not> ok then tx_return (out @ [(jobID, attempt, DirectiveAbort)])
        else tx_bind (GetJob jobID) (\<lambda>job.
          tx_return (out @ [(jobID, attempt,
            if null_int (j_cancel_requested_at job) \<noteq> 0 then DirectiveCancel else DirectiveContinue)])))))"

definition heartbeat_tx :: "int \<Rightarrow> string \<Rightarrow> (string \<times> int) list \<Rightarrow> (string \<times> int \<times> directive) list stx" where
  "heartbeat_tx lease runnerID refs =
     tx_bind (TouchRunner runnerID) (\<lambda>_. tx_fold (heartbeat_job lease runnerID) refs [])"

definition Heartbeat :: "Scheduler \<Rightarrow> string \<Rightarrow> (string \<times> int) list
    \<Rightarrow> (err + (string \<times> int \<times> directive) list) \<times> Scheduler" where
  "Heartbeat sc runnerID refs =
     (if runnerID = [] then (Inl RunnerIDRequired, sc)
      else case Tx (heartbeat_tx (ttl sc) runnerID refs) (st sc) of (r, s') \<Rightarrow> (r, sc\<lparr>st := s'\<rparr>))"


section \<open>advance\<close>

text \<open>\<open>blocked\<close> and \<open>waiting\<close> of one job: a missing state reads as the empty string, which waits.\<close>

fun need_flags :: "(string \<rightharpoonup> job_state) \<Rightarrow> string list \<Rightarrow> bool \<times> bool \<Rightarrow> bool \<times> bool" where
  "need_flags state [] flags = flags"
| "need_flags state (n # ns) (blocked, waiting) =
     need_flags state ns
       (case state n of
          Some JobSucceeded \<Rightarrow> (blocked, waiting)
        | Some JobFailed \<Rightarrow> (True, waiting)
        | Some JobCancelled \<Rightarrow> (True, waiting)
        | Some JobSkipped \<Rightarrow> (True, waiting)
        | _ \<Rightarrow> (blocked, True))"

type_synonym adv = "(string \<rightharpoonup> job_state) \<times> bool \<times> transitions"

definition advance_to :: "string \<Rightarrow> string \<Rightarrow> job_state \<Rightarrow> adv \<Rightarrow> adv stx" where
  "advance_to runID jobID to a =
     (case a of (state, changed, tr) \<Rightarrow>
        tx_bind (TransitionPendingJob jobID to) (\<lambda>ok.
        if \<not> ok then tx_raise (LeftPending jobID)
        else tx_bind (event runID jobID (if to = JobSkipped then ''job.skipped'' else ''job.queued'') []) (\<lambda>_.
          tx_return (state(jobID \<mapsto> to), True, tr_enter to tr))))"

definition advance_job :: "string \<Rightarrow> (string \<times> string list) list \<Rightarrow> Job \<Rightarrow> adv \<Rightarrow> adv stx" where
  "advance_job runID needs j a =
     (case a of (state, changed, tr) \<Rightarrow>
        if state (j_id j) \<noteq> Some JobPending then tx_return a
        else case need_flags state (get_list needs (j_id j)) (False, False) of (blocked, waiting) \<Rightarrow>
          if blocked then advance_to runID (j_id j) JobSkipped a
          else if waiting then tx_return a
          else advance_to runID (j_id j) JobQueued a)"

definition advance_pass :: "string \<Rightarrow> (string \<times> string list) list \<Rightarrow> Job list
    \<Rightarrow> (string \<rightharpoonup> job_state) \<Rightarrow> transitions \<Rightarrow> adv stx" where
  "advance_pass runID needs js state tr = tx_fold (advance_job runID needs) js (state, False, tr)"

text \<open>The measure of the outer loop: how many jobs are still pending in the local map.\<close>

definition pending_count :: "Job list \<Rightarrow> (string \<rightharpoonup> job_state) \<Rightarrow> nat" where
  "pending_count js state = length (filter (\<lambda>j. state (j_id j) = Some JobPending) js)"

lemma advance_to_state:
  assumes "advance_to runID jobID to (state, changed, tr) s = (Inr (state', changed', tr'), s')"
  shows "state' = state(jobID \<mapsto> to) \<and> changed'"
  using assms by (auto simp: advance_to_def tx_bind_eq_Inr split: if_splits)

lemma advance_job_state:
  assumes "advance_job runID needs j (state, changed, tr) s = (Inr (state', changed', tr'), s')"
  shows "(state', changed') = (state, changed) \<or>
    (changed' \<and> state (j_id j) = Some JobPending \<and> (\<exists>to. to \<noteq> JobPending \<and> state' = state(j_id j \<mapsto> to)))"
  using assms by (auto simp: advance_job_def split: if_splits prod.splits dest!: advance_to_state)

lemma pending_count_simps [simp]:
  "pending_count [] state = 0"
  "pending_count (j # js) state = (if state (j_id j) = Some JobPending then 1 else 0) + pending_count js state"
  by (simp_all add: pending_count_def)

lemma pending_count_upd:
  assumes "to \<noteq> JobPending"
  shows "pending_count js (state(k \<mapsto> to)) \<le> pending_count js state"
  using assms by (induction js) auto

lemma pending_count_upd_less:
  assumes "to \<noteq> JobPending" and "state (j_id j) = Some JobPending" and "j \<in> set js"
  shows "pending_count js (state(j_id j \<mapsto> to)) < pending_count js state"
proof -
  define new where "new = state(j_id j \<mapsto> to)"
  have at: "new (j_id j) \<noteq> Some JobPending" using assms(1) by (simp add: new_def)
  have le: "pending_count ks new \<le> pending_count ks state" for ks
    unfolding new_def by (rule pending_count_upd [OF assms(1)])
  have step: "new (j_id k) = Some JobPending \<Longrightarrow> state (j_id k) = Some JobPending" for k
    using at assms(2) by (auto simp: new_def split: if_splits)
  from assms(3) have "pending_count js new < pending_count js state"
  proof (induction js)
    case (Cons k js)
    with at assms(2) le [of js] step [of k] show ?case by auto
  qed simp
  then show ?thesis by (simp only: new_def)
qed

lemma advance_fold_count:
  assumes "tx_fold (advance_job runID needs) ks (state, changed, tr) s = (Inr (state', changed', tr'), s')"
    and "set ks \<subseteq> set js"
  shows "pending_count js state' \<le> pending_count js state \<and>
    (changed' \<longrightarrow> changed \<or> pending_count js state' < pending_count js state)"
  using assms
proof (induction ks arbitrary: state changed tr s)
  case Nil
  then show ?case by simp
next
  case (Cons k ks)
  from Cons.prems(1) obtain state1 changed1 tr1 s1
    where k: "advance_job runID needs k (state, changed, tr) s = (Inr (state1, changed1, tr1), s1)"
      and ks: "tx_fold (advance_job runID needs) ks (state1, changed1, tr1) s1 = (Inr (state', changed', tr'), s')"
    by (auto simp: tx_bind_eq_Inr)
  from Cons.prems(2) have kin: "k \<in> set js" by simp
  from advance_job_state [OF k] show ?case
  proof
    assume "(state1, changed1) = (state, changed)"
    with Cons.IH [OF ks] Cons.prems(2) show ?thesis by simp
  next
    assume "changed1 \<and> state (j_id k) = Some JobPending \<and> (\<exists>to. to \<noteq> JobPending \<and> state1 = state(j_id k \<mapsto> to))"
    then have "pending_count js state1 < pending_count js state"
      using pending_count_upd_less [OF _ _ kin] by auto
    with Cons.IH [OF ks] Cons.prems(2) show ?thesis by auto
  qed
qed

function advance_loop :: "string \<Rightarrow> (string \<times> string list) list \<Rightarrow> Job list
    \<Rightarrow> (string \<rightharpoonup> job_state) \<Rightarrow> transitions \<Rightarrow> ((string \<rightharpoonup> job_state) \<times> transitions) stx" where
  "advance_loop runID needs js state tr s =
     (case advance_pass runID needs js state tr s of
        (Inl e, s') \<Rightarrow> (Inl e, s')
      | (Inr (state', changed, tr'), s') \<Rightarrow>
          if changed then advance_loop runID needs js state' tr' s' else (Inr (state', tr'), s'))"
  by pat_completeness auto
termination advance_loop
proof (relation "measure (\<lambda>(runID, needs, js, state, tr, s). pending_count js state)", goal_cases)
  case 1
  then show ?case by simp
next
  case (2 runID needs js state tr s r s' v state' w changed tr')
  then have "advance_pass runID needs js state tr s = (Inr (state', True, tr'), s')" by auto
  from advance_fold_count [OF this [unfolded advance_pass_def], of js] show ?case by simp
qed

declare advance_loop.simps [simp del]

text \<open>The finalization loop over the values of the local map (in any order, see below).\<close>

fun final_loop :: "job_state list \<Rightarrow> run_state \<Rightarrow> run_state option" where
  "final_loop [] final = Some final"
| "final_loop (js # rest) final =
     (if js = JobPending \<or> js = JobQueued \<or> js = JobRunning then None
      else final_loop rest
        (if js = JobFailed then RunFailed
         else if js = JobCancelled \<and> final \<noteq> RunFailed then RunCancelled else final))"

definition needs_map :: "JobDep list \<Rightarrow> (string \<times> string list) list" where
  "needs_map deps = foldl (\<lambda>m d. AList.update (d_job_id d) (get_list m (d_job_id d) @ [d_needs_job_id d]) m) [] deps"

definition state_map :: "Job list \<Rightarrow> (string \<rightharpoonup> job_state)" where
  "state_map js = foldl (\<lambda>m j. m(j_id j \<mapsto> j_state j)) Map.empty js"

definition run_state_string :: "run_state \<Rightarrow> string" where
  "run_state_string r = (case r of RunPending \<Rightarrow> ''pending'' | RunRunning \<Rightarrow> ''running''
     | RunSucceeded \<Rightarrow> ''succeeded'' | RunFailed \<Rightarrow> ''failed'' | RunCancelled \<Rightarrow> ''cancelled'')"

definition finalize_run :: "string \<Rightarrow> job_state list \<Rightarrow> unit stx" where
  "finalize_run runID states =
     (case final_loop states RunSucceeded of
        None \<Rightarrow> tx_return ()
      | Some final \<Rightarrow>
          tx_bind (GetRun runID) (\<lambda>run.
          if r_state run \<noteq> RunPending \<and> r_state run \<noteq> RunRunning then tx_return ()
          else tx_bind (SetRunState runID (r_state run) final) (\<lambda>_.
            event runID [] ''run.finished'' [(''state'', JStr (run_state_string final))])))"

definition advance :: "string \<Rightarrow> transitions \<Rightarrow> transitions stx" where
  "advance runID tr =
     tx_bind (ListJobs runID) (\<lambda>js.
     tx_bind (ListJobDeps runID) (\<lambda>deps.
     tx_bind (advance_loop runID (needs_map deps) js (state_map js) tr) (\<lambda>(state, tr').
     tx_bind (finalize_run runID (List.map_filter (\<lambda>j. state (j_id j)) js)) (\<lambda>_.
     tx_return tr'))))"


section \<open>Complete\<close>

text \<open>The runner's report, as it arrives: status and failure kind are free strings.\<close>

record Result =
  res_status :: string
  res_failure_kind :: string
  res_exit_code :: "int option"
  res_error :: string

definition check_result :: "Result \<Rightarrow> err + failure_kind option" where
  "check_result res =
     (if res_status res = ''succeeded'' then Inr None
      else if res_status res = ''failed'' then
        (if res_failure_kind res = ''exit_code'' then Inr (Some FailureExitCode)
         else if res_failure_kind res = ''timeout'' then Inr (Some FailureTimeout)
         else if res_failure_kind res = ''infra'' then Inr (Some FailureInfra)
         else if res_failure_kind res = ''cancelled'' then Inr (Some FailureCancelled)
         else Inl (InvalidResultError (InvalidFailureKind (res_failure_kind res))))
      else Inl (InvalidResultError (InvalidStatus (res_status res))))"

definition kind_string :: "failure_kind \<Rightarrow> string" where
  "kind_string k = (case k of FailureExitCode \<Rightarrow> ''exit_code'' | FailureTimeout \<Rightarrow> ''timeout''
     | FailureInfra \<Rightarrow> ''infra'' | FailureLostRunner \<Rightarrow> ''lost_runner'' | FailureCancelled \<Rightarrow> ''cancelled'')"

definition json_exit :: "int option \<Rightarrow> json" where
  "json_exit c = (case c of None \<Rightarrow> JNull | Some n \<Rightarrow> JInt n)"

text \<open>Finishing a running attempt: the row, the duration, the event.\<close>

definition finish_attempt :: "Job \<Rightarrow> int \<Rightarrow> job_state \<Rightarrow> failure_kind option \<Rightarrow> int option \<Rightarrow> string
    \<Rightarrow> string \<Rightarrow> detail \<Rightarrow> transitions \<Rightarrow> transitions stx" where
  "finish_attempt job attempt state kind exitCode msg typ detail tr =
     tx_bind (FinishJob (j_id job) attempt state kind exitCode msg) (\<lambda>_.
     tx_bind Now (\<lambda>now.
     tx_bind (event (j_run_id job) (j_id job) typ detail) (\<lambda>_.
     tx_return (tr_finished state (null_int (j_started_at job)) now tr))))"

definition complete_write :: "Job \<Rightarrow> int \<Rightarrow> failure_kind option \<Rightarrow> Result \<Rightarrow> transitions \<Rightarrow> transitions stx" where
  "complete_write job attempt verdict res tr =
     (case verdict of
        None \<Rightarrow>
          finish_attempt job attempt JobSucceeded None (res_exit_code res) [] ''job.succeeded''
            [(''attempt'', JInt attempt)] tr
      | Some kind \<Rightarrow>
          if kind = FailureCancelled then
            (if j_cancel_reason job = Some CancelReasonTimeout
             then finish_attempt job attempt JobFailed (Some FailureTimeout) (res_exit_code res)
                    ''job timed out (server backstop)'' ''job.failed''
                    [(''attempt'', JInt attempt), (''failure_kind'', JStr ''timeout''),
                     (''error'', JStr ''job timed out (server backstop)'')] tr
             else finish_attempt job attempt JobCancelled (Some FailureCancelled) (res_exit_code res)
                    (res_error res) ''job.cancelled''
                    [(''attempt'', JInt attempt), (''failure_kind'', JStr ''cancelled''),
                     (''error'', JStr (res_error res))] tr)
          else if retryable kind \<and> attempt < j_max_attempts job \<and> null_int (j_cancel_requested_at job) = 0 then
            tx_bind (RequeueJob (j_id job) attempt (res_error res)) (\<lambda>_.
            tx_bind (event (j_run_id job) (j_id job) ''job.requeued''
              [(''attempt'', JInt attempt), (''failure_kind'', JStr (kind_string kind)),
               (''error'', JStr (res_error res))]) (\<lambda>_.
            tx_return (tr_enter JobQueued tr)))
          else
            finish_attempt job attempt JobFailed (Some kind) (res_exit_code res) (res_error res) ''job.failed''
              [(''attempt'', JInt attempt), (''failure_kind'', JStr (kind_string kind)),
               (''exit_code'', json_exit (res_exit_code res)), (''error'', JStr (res_error res))] tr)"

definition complete_tx :: "string \<Rightarrow> int \<Rightarrow> failure_kind option \<Rightarrow> Result \<Rightarrow> (Job \<times> transitions) stx" where
  "complete_tx jobID attempt verdict res =
     tx_bind (GetJob jobID) (\<lambda>job.
     if j_state job \<noteq> JobRunning \<or> j_attempt job \<noteq> attempt then
       (if j_attempt job = attempt \<and> isTerminal (j_state job) then tx_return (job, no_transitions)
        else tx_raise ErrFenced)
     else
       tx_bind (complete_write job attempt verdict res no_transitions) (\<lambda>tr.
       tx_bind (advance (j_run_id job) tr) (\<lambda>tr'.
       tx_bind (GetJob jobID) (\<lambda>out. tx_return (out, tr')))))"

definition Complete :: "Scheduler \<Rightarrow> string \<Rightarrow> int \<Rightarrow> Result \<Rightarrow> (err + Job) \<times> Scheduler" where
  "Complete sc jobID attempt res =
     (case check_result res of
        Inl e \<Rightarrow> (Inl e, sc)
      | Inr verdict \<Rightarrow>
          (case Tx (complete_tx jobID attempt verdict res) (st sc) of
             (Inl e, s') \<Rightarrow> (Inl e, sc\<lparr>st := s'\<rparr>)
           | (Inr (out, tr), s') \<Rightarrow> (Inr out, sc\<lparr>st := s', mx := tr_apply tr (mx sc)\<rparr>)))"


section \<open>CancelRun\<close>

definition cancel_one :: "string \<Rightarrow> Job \<Rightarrow> transitions \<Rightarrow> transitions stx" where
  "cancel_one runID job tr =
     (if j_state job = JobPending \<or> j_state job = JobQueued then
        tx_bind (CancelJob (j_id job) ''cancelled by user'') (\<lambda>ok.
        if \<not> ok then tx_return tr
        else tx_bind (event runID (j_id job) ''job.cancelled''
               [(''attempt'', JInt (j_attempt job)), (''failure_kind'', JStr ''cancelled'')]) (\<lambda>_.
          tx_return (tr_enter JobCancelled tr)))
      else if j_state job = JobRunning then
        tx_bind (RequestJobCancel (j_id job) CancelReasonUser) (\<lambda>ok.
        if \<not> ok then tx_return tr
        else tx_bind (event runID (j_id job) ''job.cancel_requested''
               [(''attempt'', JInt (j_attempt job)), (''runner_id'', JStr (null_string (j_runner_id job))),
                (''reason'', JStr ''user'')]) (\<lambda>_.
          tx_return tr))
      else tx_return tr)"

definition cancel_tx :: "string \<Rightarrow> (Run \<times> transitions) stx" where
  "cancel_tx runID =
     tx_bind (GetRun runID) (\<lambda>run.
     if r_state run \<noteq> RunPending \<and> r_state run \<noteq> RunRunning then tx_raise ErrRunFinished
     else
       tx_bind (ListEvents runID 0 0) (\<lambda>evs.
       if \<exists>e \<in> set evs. e_type e = ''run.cancel_requested'' then tx_return (run, no_transitions)
       else
         tx_bind (ListJobs runID) (\<lambda>js.
         tx_bind (tx_fold (cancel_one runID) js no_transitions) (\<lambda>tr.
         tx_bind (event runID [] ''run.cancel_requested'' []) (\<lambda>_.
         tx_bind (advance runID tr) (\<lambda>tr'.
         tx_bind (GetRun runID) (\<lambda>out. tx_return (out, tr'))))))))"

definition CancelRun :: "Scheduler \<Rightarrow> string \<Rightarrow> (err + Run) \<times> Scheduler" where
  "CancelRun sc runID =
     (case Tx (cancel_tx runID) (st sc) of
        (Inl e, s') \<Rightarrow> (Inl e, sc\<lparr>st := s'\<rparr>)
      | (Inr (out, tr), s') \<Rightarrow> (Inr out, sc\<lparr>st := s', mx := tr_apply tr (mx sc)\<rparr>))"


section \<open>Tick (monitor.go)\<close>

record TickReport =
  tk_requeued :: "string list"
  tk_failed :: "string list"
  tk_timed_out :: "string list"
  tk_runners_offline :: "string list"

definition empty_report :: TickReport where
  "empty_report = \<lparr>tk_requeued = [], tk_failed = [], tk_timed_out = [], tk_runners_offline = []\<rparr>"

definition lease_message :: "Job \<Rightarrow> string" where
  "lease_message job =
     (if null_string (j_runner_id job) \<noteq> []
      then ''lease expired (runner '' @ null_string (j_runner_id job) @ '')'' else ''lease expired'')"

definition lost_detail :: "Job \<Rightarrow> detail" where
  "lost_detail job = [(''attempt'', JInt (j_attempt job)), (''failure_kind'', JStr ''lost_runner''),
     (''runner_id'', JStr (null_string (j_runner_id job))),
     (''lease_expires_at'', JInt (null_int (j_lease_expires_at job)))]"

definition expire_one :: "int \<Rightarrow> Job \<Rightarrow> TickReport \<times> transitions \<Rightarrow> (TickReport \<times> transitions) stx" where
  "expire_one now job a =
     (case a of (rep, tr) \<Rightarrow>
        if retryable FailureLostRunner \<and> j_attempt job < j_max_attempts job
            \<and> null_int (j_cancel_requested_at job) = 0 then
          tx_bind (RequeueJob (j_id job) (j_attempt job) (lease_message job)) (\<lambda>_.
          tx_bind (event (j_run_id job) (j_id job) ''job.requeued'' (lost_detail job)) (\<lambda>_.
          tx_return (rep\<lparr>tk_requeued := tk_requeued rep @ [j_id job]\<rparr>, tr_enter JobQueued tr)))
        else
          tx_bind (FinishJob (j_id job) (j_attempt job) JobFailed (Some FailureLostRunner) None (lease_message job)) (\<lambda>_.
          tx_bind (event (j_run_id job) (j_id job) ''job.failed'' (lost_detail job)) (\<lambda>_.
          tx_bind (advance (j_run_id job) (tr_finished JobFailed (null_int (j_started_at job)) now tr)) (\<lambda>tr'.
          tx_return (rep\<lparr>tk_failed := tk_failed rep @ [j_id job]\<rparr>, tr')))))"

definition backstop_one :: "int \<Rightarrow> int \<Rightarrow> Job \<Rightarrow> TickReport \<Rightarrow> TickReport stx" where
  "backstop_one grace now job rep =
     tx_bind (jobSpec job) (\<lambda>spec.
     if pj_timeout spec \<le> 0 \<or> null_int (j_started_at job) = 0
         \<or> now \<le> null_int (j_started_at job) + milliseconds (pj_timeout spec) + grace
     then tx_return rep
     else
       tx_bind (RequestJobCancel (j_id job) CancelReasonTimeout) (\<lambda>ok.
       if \<not> ok then tx_return rep
       else
         tx_bind (event (j_run_id job) (j_id job) ''job.cancel_requested''
           [(''attempt'', JInt (j_attempt job)), (''runner_id'', JStr (null_string (j_runner_id job))),
            (''reason'', JStr ''timeout''), (''timeout_ms'', JInt (milliseconds (pj_timeout spec))),
            (''started_at'', JInt (null_int (j_started_at job)))]) (\<lambda>_.
         tx_return (rep\<lparr>tk_timed_out := tk_timed_out rep @ [j_id job]\<rparr>))))"

definition tick_tx :: "int \<Rightarrow> int \<Rightarrow> int \<Rightarrow> (TickReport \<times> transitions \<times> nat) stx" where
  "tick_tx graceUntil grace offline =
     tx_bind Now (\<lambda>now.
     tx_bind (if graceUntil \<le> now then ListExpiredLeases now else tx_return []) (\<lambda>expired.
     tx_bind (tx_fold (expire_one now) expired (empty_report, no_transitions)) (\<lambda>(rep, tr).
     tx_bind ListRunningJobs (\<lambda>running.
     tx_bind (tx_fold (backstop_one grace now) running rep) (\<lambda>rep'.
     tx_bind (MarkRunnersOffline (now - offline)) (\<lambda>offlineIDs.
     tx_return (rep'\<lparr>tk_runners_offline := offlineIDs\<rparr>, tr, length expired)))))))"

definition Tick :: "Scheduler \<Rightarrow> (err + TickReport) \<times> Scheduler" where
  "Tick sc =
     (case Tx (tick_tx (leaseGraceUntil sc) (graceMS sc) (offlineMS sc)) (st sc) of
        (Inl e, s') \<Rightarrow> (Inl e, sc\<lparr>st := s'\<rparr>)
      | (Inr (rep, tr, expiredN), s') \<Rightarrow>
          (Inr rep, sc\<lparr>st := s', mx := (tr_apply tr (mx sc))
             \<lparr>m_lease_expirations := m_lease_expirations (mx sc) + expiredN\<rparr>\<rparr>))"


section \<open>AppendLogs (logs.go)\<close>

definition EventLogsTruncated :: string where
  "EventLogsTruncated = ''job.logs_truncated''"

definition cap_data :: "int \<Rightarrow> int \<Rightarrow> bytes \<Rightarrow> bytes" where
  "cap_data cap tot data =
     (let room = cap - tot in
      if room < int (length data) then take (nat (if room < 0 then 0 else room)) data else data)"

definition append_chunk :: "int \<Rightarrow> string \<Rightarrow> int \<Rightarrow> int \<times> bytes \<Rightarrow> int \<times> int \<times> bool \<Rightarrow> (int \<times> int \<times> bool) stx" where
  "append_chunk cap jobID attempt c a =
     (case c of (seq, full) \<Rightarrow> case a of (tot, stored, lost) \<Rightarrow>
        let data = cap_data cap tot full in
        tx_bind (InsertLogChunk jobID attempt seq data) (\<lambda>inserted.
        if \<not> inserted then tx_return (tot, stored, lost)
        else tx_return (tot + int (length data), stored + int (length data),
               lost \<or> length data < length full)))"

definition append_tx :: "int \<Rightarrow> string \<Rightarrow> int \<Rightarrow> (int \<times> bytes) list \<Rightarrow> int stx" where
  "append_tx cap jobID attempt chunks =
     tx_bind (GetJob jobID) (\<lambda>job.
     if j_state job \<noteq> JobRunning \<or> j_attempt job \<noteq> attempt then tx_raise ErrFenced
     else
       tx_bind (LogBytes jobID attempt) (\<lambda>tot.
       tx_bind (tx_fold (append_chunk cap jobID attempt) chunks (tot, 0, False)) (\<lambda>(tot', stored, lost).
       if \<not> lost then tx_return stored
       else
         tx_bind (HasJobEvent (j_run_id job) jobID EventLogsTruncated attempt) (\<lambda>has.
         if has then tx_return stored
         else tx_bind (event (j_run_id job) jobID EventLogsTruncated
                [(''attempt'', JInt attempt), (''cap_bytes'', JInt cap)]) (\<lambda>_. tx_return stored)))))"

definition AppendLogs :: "Scheduler \<Rightarrow> string \<Rightarrow> int \<Rightarrow> (int \<times> bytes) list \<Rightarrow> (err + unit) \<times> Scheduler" where
  "AppendLogs sc jobID attempt chunks =
     (case find (\<lambda>c. fst c < 1) chunks of
        Some c \<Rightarrow> (Inl (InvalidResultError (BadLogSeq (fst c))), sc)
      | None \<Rightarrow>
          (case Tx (append_tx (logCap sc) jobID attempt chunks) (st sc) of
             (Inl e, s') \<Rightarrow> (Inl e, sc\<lparr>st := s'\<rparr>)
           | (Inr stored, s') \<Rightarrow>
               (Inr (), sc\<lparr>st := s', mx := (mx sc)\<lparr>m_log_bytes := m_log_bytes (mx sc) + stored\<rparr>\<rparr>)))"

end
