(* ===== verification/Lifecycle.thy ===== *)
theory Lifecycle
  imports Scheduler "HOL-Library.Sublist"
begin

text \<open>
  The life of a job row and of a run row as step relations, the claim that the guarded UPDATEs of
  the store move rows along these steps only, and the order \<open>evolves\<close> they induce on whole
  stores: audit events and log chunks are append-only, the dependency edges never change, and
  every row is reached from its former self by legal steps. The scheduler's transactions are shown
  to respect this order, whatever they end in.
\<close>


section \<open>Row updates keep the key\<close>

lemma claim_row_fields [row_simps]:
  "j_id (claim_row r l n j) = j_id j" "j_run_id (claim_row r l n j) = j_run_id j"
  "j_name (claim_row r l n j) = j_name j" "j_max_attempts (claim_row r l n j) = j_max_attempts j"
  "j_state (claim_row r l n j) = JobRunning" "j_attempt (claim_row r l n j) = j_attempt j + 1"
  "j_spec (claim_row r l n j) = j_spec j"
  "j_cancel_requested_at (claim_row r l n j) = j_cancel_requested_at j"
  by (simp_all add: claim_row_def)

lemma lease_row_fields [row_simps]:
  "j_id (lease_row l j) = j_id j" "j_run_id (lease_row l j) = j_run_id j"
  "j_name (lease_row l j) = j_name j" "j_max_attempts (lease_row l j) = j_max_attempts j"
  "j_state (lease_row l j) = j_state j" "j_attempt (lease_row l j) = j_attempt j"
  "j_spec (lease_row l j) = j_spec j" "j_runner_id (lease_row l j) = j_runner_id j"
  "j_cancel_requested_at (lease_row l j) = j_cancel_requested_at j"
  by (simp_all add: lease_row_def)

lemma finish_row_fields [row_simps]:
  "j_id (finish_row fs k c m n j) = j_id j" "j_run_id (finish_row fs k c m n j) = j_run_id j"
  "j_name (finish_row fs k c m n j) = j_name j"
  "j_max_attempts (finish_row fs k c m n j) = j_max_attempts j"
  "j_state (finish_row fs k c m n j) = fs" "j_attempt (finish_row fs k c m n j) = j_attempt j"
  "j_spec (finish_row fs k c m n j) = j_spec j"
  by (simp_all add: finish_row_def)

lemma requeue_row_fields [row_simps]:
  "j_id (requeue_row m n j) = j_id j" "j_run_id (requeue_row m n j) = j_run_id j"
  "j_name (requeue_row m n j) = j_name j" "j_max_attempts (requeue_row m n j) = j_max_attempts j"
  "j_state (requeue_row m n j) = JobQueued" "j_attempt (requeue_row m n j) = j_attempt j"
  "j_spec (requeue_row m n j) = j_spec j"
  by (simp_all add: requeue_row_def)

lemma queue_row_fields [row_simps]:
  "j_id (queue_row n j) = j_id j" "j_run_id (queue_row n j) = j_run_id j"
  "j_name (queue_row n j) = j_name j" "j_max_attempts (queue_row n j) = j_max_attempts j"
  "j_state (queue_row n j) = JobQueued" "j_attempt (queue_row n j) = j_attempt j"
  "j_spec (queue_row n j) = j_spec j"
  by (simp_all add: queue_row_def)

lemma skip_row_fields [row_simps]:
  "j_id (skip_row n j) = j_id j" "j_run_id (skip_row n j) = j_run_id j"
  "j_name (skip_row n j) = j_name j" "j_max_attempts (skip_row n j) = j_max_attempts j"
  "j_state (skip_row n j) = JobSkipped" "j_attempt (skip_row n j) = j_attempt j"
  "j_spec (skip_row n j) = j_spec j"
  by (simp_all add: skip_row_def)

lemma cancel_row_fields [row_simps]:
  "j_id (cancel_row m n j) = j_id j" "j_run_id (cancel_row m n j) = j_run_id j"
  "j_name (cancel_row m n j) = j_name j" "j_max_attempts (cancel_row m n j) = j_max_attempts j"
  "j_state (cancel_row m n j) = JobCancelled" "j_attempt (cancel_row m n j) = j_attempt j"
  "j_spec (cancel_row m n j) = j_spec j"
  by (simp_all add: cancel_row_def)

lemma request_cancel_row_fields [row_simps]:
  "j_id (request_cancel_row c n j) = j_id j" "j_run_id (request_cancel_row c n j) = j_run_id j"
  "j_name (request_cancel_row c n j) = j_name j"
  "j_max_attempts (request_cancel_row c n j) = j_max_attempts j"
  "j_state (request_cancel_row c n j) = j_state j"
  "j_attempt (request_cancel_row c n j) = j_attempt j"
  "j_spec (request_cancel_row c n j) = j_spec j"
  by (simp_all add: request_cancel_row_def)

lemma run_state_row_fields [row_simps]:
  "r_id (run_state_row to n r) = r_id r" "r_state (run_state_row to n r) = to"
  by (simp_all add: run_state_row_def)

lemma touch_row_fields [row_simps]:
  "rn_id (touch_row n r) = rn_id r" "rn_name (touch_row n r) = rn_name r"
  by (simp_all add: touch_row_def)

interpretation claim_upd: keyed_update j_id "claim_row r l n"
  by unfold_locales (simp add: row_simps)

interpretation lease_upd: keyed_update j_id "lease_row l"
  by unfold_locales (simp add: row_simps)

interpretation finish_upd: keyed_update j_id "finish_row fs k c m n"
  by unfold_locales (simp add: row_simps)

interpretation requeue_upd: keyed_update j_id "requeue_row m n"
  by unfold_locales (simp add: row_simps)

interpretation queue_upd: keyed_update j_id "queue_row n"
  by unfold_locales (simp add: row_simps)

interpretation skip_upd: keyed_update j_id "skip_row n"
  by unfold_locales (simp add: row_simps)

interpretation cancel_upd: keyed_update j_id "cancel_row m n"
  by unfold_locales (simp add: row_simps)

interpretation request_upd: keyed_update j_id "request_cancel_row c n"
  by unfold_locales (simp add: row_simps)

interpretation run_upd: keyed_update r_id "run_state_row to n"
  by unfold_locales (simp add: row_simps)

interpretation touch_upd: keyed_update rn_id "touch_row n"
  by unfold_locales (simp add: row_simps)


section \<open>The life of a job and of a run\<close>

text \<open>
  The legal changes of one job row. A finish needs a running attempt and a terminal state that
  says why; a requeue needs an attempt below the cap and no cancel request.
\<close>

definition verdict_ok :: "job_state \<Rightarrow> failure_kind option \<Rightarrow> bool" where
  "verdict_ok fs k \<longleftrightarrow>
     fs = JobSucceeded \<and> k = None \<or> fs = JobCancelled \<and> k = Some FailureCancelled \<or>
     fs = JobFailed \<and> k \<noteq> None \<and> k \<noteq> Some FailureCancelled"

inductive job_step :: "Job \<Rightarrow> Job \<Rightarrow> bool" where
  step_claim: "j_state j = JobQueued \<Longrightarrow> job_step j (claim_row r l n j)"
| step_lease: "j_state j = JobRunning \<Longrightarrow> job_step j (lease_row l j)"
| step_finish: "j_state j = JobRunning \<Longrightarrow> verdict_ok fs k \<Longrightarrow> job_step j (finish_row fs k c m n j)"
| step_requeue: "j_state j = JobRunning \<Longrightarrow> j_attempt j < j_max_attempts j \<Longrightarrow>
    null_int (j_cancel_requested_at j) = 0 \<Longrightarrow> job_step j (requeue_row m n j)"
| step_queue: "j_state j = JobPending \<Longrightarrow> job_step j (queue_row n j)"
| step_skip: "j_state j = JobPending \<Longrightarrow> job_step j (skip_row n j)"
| step_cancel: "j_state j = JobPending \<or> j_state j = JobQueued \<Longrightarrow> job_step j (cancel_row m n j)"
| step_request: "j_state j = JobRunning \<Longrightarrow> j_cancel_requested_at j = None \<Longrightarrow>
    job_step j (request_cancel_row c n j)"

definition run_over :: "run_state \<Rightarrow> bool" where
  "run_over fs \<longleftrightarrow> fs \<noteq> RunPending \<and> fs \<noteq> RunRunning"

inductive run_step :: "Run \<Rightarrow> Run \<Rightarrow> bool" where
  step_start: "r_state r = RunPending \<Longrightarrow> run_step r (run_state_row RunRunning n r)"
| step_over: "\<not> run_over (r_state r) \<Longrightarrow> run_over to \<Longrightarrow> run_step r (run_state_row to n r)"

lemma isTerminal_simps [simp]:
  "isTerminal JobSucceeded" "isTerminal JobFailed" "isTerminal JobCancelled" "isTerminal JobSkipped"
  "\<not> isTerminal JobPending" "\<not> isTerminal JobQueued" "\<not> isTerminal JobRunning"
  by (simp_all add: isTerminal_def)

lemma isTerminal_cases:
  "isTerminal fs \<longleftrightarrow> fs = JobSucceeded \<or> fs = JobFailed \<or> fs = JobCancelled \<or> fs = JobSkipped"
  by (cases fs) simp_all

lemma run_over_simps [simp]:
  "run_over RunSucceeded" "run_over RunFailed" "run_over RunCancelled"
  "\<not> run_over RunPending" "\<not> run_over RunRunning"
  by (simp_all add: run_over_def)

lemma job_step_not_terminal: "job_step j j' \<Longrightarrow> \<not> isTerminal (j_state j)"
  by (auto elim: job_step.cases)

lemma terminal_stuck: "job_step\<^sup>*\<^sup>* j j' \<Longrightarrow> isTerminal (j_state j) \<Longrightarrow> j' = j"
  by (induction rule: converse_rtranclp_induct) (auto dest: job_step_not_terminal)

lemma job_step_static:
  "job_step j j' \<Longrightarrow> j_id j' = j_id j \<and> j_run_id j' = j_run_id j \<and> j_name j' = j_name j \<and>
     j_spec j' = j_spec j \<and> j_max_attempts j' = j_max_attempts j \<and> j_attempt j \<le> j_attempt j'"
  by (induction rule: job_step.induct) (simp_all add: row_simps)

lemma job_steps_static:
  "job_step\<^sup>*\<^sup>* j j' \<Longrightarrow> j_id j' = j_id j \<and> j_run_id j' = j_run_id j \<and> j_name j' = j_name j \<and>
     j_spec j' = j_spec j \<and> j_max_attempts j' = j_max_attempts j \<and> j_attempt j \<le> j_attempt j'"
  by (induction rule: rtranclp_induct) (auto dest!: job_step_static)

lemma run_step_not_over: "run_step r r' \<Longrightarrow> \<not> run_over (r_state r)"
  by (auto elim: run_step.cases)

lemma run_stuck: "run_step\<^sup>*\<^sup>* r r' \<Longrightarrow> run_over (r_state r) \<Longrightarrow> r' = r"
  by (induction rule: converse_rtranclp_induct) (auto dest: run_step_not_over)

lemma run_steps_static: "run_step\<^sup>*\<^sup>* r r' \<Longrightarrow> r_id r' = r_id r"
  by (induction rule: rtranclp_induct) (auto elim!: run_step.cases simp: row_simps)

text \<open>What a well-formed row looks like, and that the steps keep it so.\<close>

definition job_wf :: "Job \<Rightarrow> bool" where
  "job_wf j \<longleftrightarrow> 0 \<le> j_attempt j \<and> j_attempt j \<le> j_max_attempts j \<and>
     (j_state j = JobRunning \<longleftrightarrow> j_lease_expires_at j \<noteq> None) \<and>
     (j_state j = JobRunning \<longrightarrow> j_runner_id j \<noteq> None \<and> j_started_at j \<noteq> None \<and> 1 \<le> j_attempt j) \<and>
     (j_state j = JobPending \<longrightarrow> j_attempt j = 0) \<and>
     (j_state j = JobQueued \<longrightarrow> j_attempt j < j_max_attempts j \<and> j_runner_id j = None) \<and>
     (isTerminal (j_state j) \<longleftrightarrow> j_finished_at j \<noteq> None) \<and>
     (j_state j = JobFailed \<longrightarrow> j_failure_kind j \<noteq> None \<and> j_failure_kind j \<noteq> Some FailureCancelled) \<and>
     (j_state j = JobCancelled \<longleftrightarrow> j_failure_kind j = Some FailureCancelled) \<and>
     (\<not> isTerminal (j_state j) \<longrightarrow> j_failure_kind j = None) \<and>
     0 < j_max_attempts j \<and> (j_state j = JobPending \<longrightarrow> j_runner_id j = None)"

lemma job_step_wf: "job_step j j' \<Longrightarrow> job_wf j \<Longrightarrow> job_wf j'"
proof (induction rule: job_step.induct)
  case (step_finish j fs k c m n)
  then show ?case by (auto simp: job_wf_def finish_row_def verdict_ok_def)
qed (auto simp: job_wf_def claim_row_def lease_row_def requeue_row_def queue_row_def skip_row_def
    cancel_row_def request_cancel_row_def)

lemma job_steps_wf: "job_step\<^sup>*\<^sup>* j j' \<Longrightarrow> job_wf j \<Longrightarrow> job_wf j'"
  by (induction rule: rtranclp_induct) (auto dest: job_step_wf)

end
