(* ===== verification/Evolve.thy ===== *)
theory Evolve
  imports Lifecycle
begin

text \<open>
  The order \<open>evolves\<close> on stores and the transactions of the scheduler within it: job and run
  rows move along the steps of their life only, edges are fixed, events and log chunks are
  append-only, the clock is not the database's to change.
\<close>


definition evolves :: "store \<Rightarrow> store \<Rightarrow> bool" where
  "evolves s s' \<longleftrightarrow>
     list_all2 job_step\<^sup>*\<^sup>* (t_jobs s) (t_jobs s') \<and> list_all2 run_step\<^sup>*\<^sup>* (t_runs s) (t_runs s') \<and>
     t_deps s' = t_deps s \<and> prefix (t_events s) (t_events s') \<and> prefix (t_chunks s) (t_chunks s') \<and>
     clock s' = clock s"

lemma list_all2_rtranclp_trans:
  "list_all2 R\<^sup>*\<^sup>* xs ys \<Longrightarrow> list_all2 R\<^sup>*\<^sup>* ys zs \<Longrightarrow> list_all2 R\<^sup>*\<^sup>* xs zs"
  by (rule list_all2_trans [of "R\<^sup>*\<^sup>*" "R\<^sup>*\<^sup>*" "R\<^sup>*\<^sup>*"]) (auto intro: rtranclp_trans)

lemma list_all2_rtranclp_refl [simp]: "list_all2 R\<^sup>*\<^sup>* xs xs"
  by (simp add: list_all2_refl)

lemma evolves_refl [simp]: "evolves s s"
  by (simp add: evolves_def)

lemma evolves_trans: "evolves s t \<Longrightarrow> evolves t u \<Longrightarrow> evolves s u"
  by (auto simp: evolves_def intro: list_all2_rtranclp_trans prefix_order.trans)

abbreviation keeps :: "'a stx \<Rightarrow> bool" where
  "keeps \<equiv> tx_within evolves"

interpretation evolution: state_order evolves
  by unfold_locales (simp, rule evolves_trans)

lemmas keeps_def = tx_within_def [of evolves]
lemmas keepsI = evolution.withinI
lemmas keepsD = evolution.withinD
lemmas keeps_return [intro, simp] = evolution.within_return
lemmas keeps_raise [intro, simp] = evolution.within_raise
lemmas keeps_get [intro, simp] = evolution.within_get
lemmas keeps_if [intro] = evolution.within_if
lemmas keeps_bind [intro] = evolution.within_bind
lemmas keeps_fold [intro] = evolution.within_fold
lemmas evolves_bind = evolution.within_bind_at

lemma evolves_reads [simp]: "evolves s (s\<lparr>reads := n\<rparr>)"
  by (simp add: evolves_def)

lemma keeps_Tx:
  assumes "keeps m"
  shows "keeps (Tx m)"
proof (rule keepsI)
  fix s
  show "evolves s (snd (Tx m s))"
    using keepsD [OF assms, of s] by (cases "m s"; cases "fst (m s)") (auto simp: Tx_def)
qed


section \<open>The store's primitives\<close>

lemma sql_update_steps:
  assumes "\<And>r. r \<in> set rows \<Longrightarrow> P r \<Longrightarrow> R r (f r)"
  shows "list_all2 R\<^sup>*\<^sup>* rows (sql_update P f rows)"
  using assms by (induction rows) auto

lemma update_jobs_evolves:
  assumes "\<And>j. j \<in> set (t_jobs s) \<Longrightarrow> P j \<Longrightarrow> job_step j (f j)"
  shows "evolves s (snd (update_jobs P f s))"
  using assms by (simp add: update_jobs_def evolves_def sql_update_steps)

lemma keeps_update_jobs: "(\<And>j. P j \<Longrightarrow> job_step j (f j)) \<Longrightarrow> keeps (update_jobs P f)"
  by (simp add: keeps_def update_jobs_evolves)

lemma keeps_Now [intro, simp]: "keeps Now"
  by (simp add: keeps_def Now_def evolves_def)

lemma keeps_GetJob [intro, simp]: "keeps (GetJob i)"
  by (simp add: keeps_def GetJob_def split: option.splits)

lemma keeps_GetRun [intro, simp]: "keeps (GetRun i)"
  by (simp add: keeps_def GetRun_def split: option.splits)

lemma keeps_lists [intro, simp]:
  "keeps ListQueuedJobs" "keeps (ListJobs r)" "keeps (ListJobDeps r)" "keeps (ListExpiredLeases n)"
  "keeps ListRunningJobs" "keeps (ListEvents r a l)" "keeps (HasJobEvent r i t a)" "keeps (LogBytes i a)"
  by (simp_all add: ListQueuedJobs_def ListJobs_def ListJobDeps_def ListExpiredLeases_def
      ListRunningJobs_def ListEvents_def HasJobEvent_def LogBytes_def)

lemma keeps_event [intro, simp]: "keeps (event r i t d)"
  unfolding event_def AppendEvent_def
  by (intro keeps_if keeps_bind keeps_raise keeps_Now) (simp add: keeps_def evolves_def)

lemma keeps_UpsertRunner [intro, simp]: "keeps (UpsertRunner r)"
  by (simp add: keeps_def UpsertRunner_def Now_def tx_bind_run evolves_def Let_def)

lemma keeps_TouchRunner [intro, simp]: "keeps (TouchRunner r)"
proof (rule keepsI)
  fix s :: store
  define s1 where "s1 = s\<lparr>reads := Suc (reads s),
    t_runners := sql_update (\<lambda>q. rn_id q = r) (touch_row (clock s (reads s))) (t_runners s)\<rparr>"
  have first: "evolves s s1" by (simp add: s1_def evolves_def)
  have second: "evolves s1 (snd (UpsertRunner u s1))" for u
    using keeps_UpsertRunner by (simp add: keeps_def)
  show "evolves s (snd (TouchRunner r s))"
    using first evolves_trans [OF first second]
    by (simp add: TouchRunner_def Now_def tx_bind_run s1_def [symmetric])
qed

lemma keeps_MarkRunnersOffline [intro, simp]: "keeps (MarkRunnersOffline b)"
  unfolding MarkRunnersOffline_def
  by (intro keeps_bind keeps_fold keeps_get keeps_return) (simp add: keeps_def evolves_def)

lemma keeps_InsertLogChunk [intro, simp]: "keeps (InsertLogChunk i a q d)"
  by (simp add: keeps_def InsertLogChunk_def evolves_def)

lemma keeps_jobSpec [intro, simp]: "keeps (jobSpec j)" "keeps (specLabels j)"
proof -
  show "keeps (jobSpec j)" by (cases "j_spec j") (simp_all only: jobSpec_def option.case keeps_raise keeps_return)
  then show "keeps (specLabels j)" unfolding specLabels_def by (rule keeps_bind) (rule keeps_return)
qed

lemma keeps_ClaimJob [intro, simp]: "keeps (ClaimJob i r l)"
  unfolding ClaimJob_def
  by (intro keeps_bind keeps_if keeps_update_jobs keeps_Now keeps_return keeps_get)
    (auto intro: job_step.intros split: option.splits)

lemma keeps_ExtendLease [intro, simp]: "keeps (ExtendLease i a r l)"
  unfolding ExtendLease_def by (rule keeps_update_jobs) (auto intro: job_step.intros)

lemma keeps_FinishJob [intro]: "verdict_ok fs k \<Longrightarrow> keeps (FinishJob i a fs k c m)"
  unfolding FinishJob_def by (intro keeps_bind keeps_Now keeps_update_jobs) (auto intro: job_step.intros)

lemma keeps_TransitionPendingJob [intro, simp]: "keeps (TransitionPendingJob i to)"
  unfolding TransitionPendingJob_def
  by (intro keeps_bind keeps_Now) (auto intro!: keeps_update_jobs job_step.intros split: job_state.splits)

lemma keeps_CancelJob [intro, simp]: "keeps (CancelJob i m)"
  unfolding CancelJob_def by (intro keeps_bind keeps_Now keeps_update_jobs) (auto intro: job_step.intros)

lemma keeps_RequestJobCancel [intro, simp]: "keeps (RequestJobCancel i c)"
  unfolding RequestJobCancel_def
  by (intro keeps_bind keeps_Now keeps_update_jobs) (auto intro: job_step.intros)

text \<open>A requeue is legal when the row it finds may run again.\<close>

lemma RequeueJob_evolves:
  assumes "\<And>j. j \<in> set (t_jobs s) \<Longrightarrow> j_id j = i \<Longrightarrow> j_state j = JobRunning \<Longrightarrow> j_attempt j = a \<Longrightarrow>
    a < j_max_attempts j \<and> null_int (j_cancel_requested_at j) = 0"
  shows "evolves s (snd (RequeueJob i a m s))"
proof -
  define s1 where "s1 = s\<lparr>reads := Suc (reads s)\<rparr>"
  have jobs: "t_jobs s1 = t_jobs s" and "evolves s s1" by (simp_all add: s1_def)
  have "evolves s1 (snd (update_jobs (\<lambda>j. j_id j = i \<and> j_state j = JobRunning \<and> j_attempt j = a)
      (requeue_row m (clock s (reads s))) s1))"
    by (rule update_jobs_evolves) (use assms in \<open>auto simp: jobs intro!: step_requeue\<close>)
  then show ?thesis using evolves_trans [OF \<open>evolves s s1\<close>]
    by (simp add: RequeueJob_def tx_bind_run Now_def s1_def [symmetric])
qed

lemma keeps_SetRunState [intro]:
  assumes "from = RunPending \<and> to = RunRunning \<or> \<not> run_over from \<and> run_over to"
  shows "keeps (SetRunState i from to)"
proof -
  have "r_state r = from \<Longrightarrow> run_step r (run_state_row to now r)" for r now
    using assms by (auto intro: run_step.intros)
  then show ?thesis unfolding SetRunState_def
    by (intro keeps_bind keeps_Now) (auto simp: keeps_def evolves_def intro!: sql_update_steps)
qed


section \<open>The transactions\<close>

lemma keeps_advance_to [intro, simp]: "keeps (advance_to r i to a)"
  unfolding advance_to_def
  by (cases a) (auto simp only: prod.case intro!: keeps_bind keeps_if keeps_raise keeps_return keeps_event
      keeps_TransitionPendingJob)

lemma keeps_advance_job [intro, simp]: "keeps (advance_job r ns j a)"
  unfolding advance_job_def
  by (auto simp only: split: prod.splits intro!: keeps_if keeps_return keeps_advance_to)

lemma keeps_advance_pass [intro, simp]: "keeps (advance_pass r ns js state tr)"
  unfolding advance_pass_def by (intro keeps_fold keeps_advance_job)

lemma advance_loop_evolves: "evolves s (snd (advance_loop r ns js state tr s))"
proof (induction r ns js state tr s rule: advance_loop.induct)
  case (1 r ns js state tr s)
  obtain res s' where pass: "advance_pass r ns js state tr s = (res, s')" by fastforce
  have first: "evolves s s'" using keepsD [OF keeps_advance_pass pass] .
  show ?case
  proof (cases res)
    case (Inl e)
    with pass first show ?thesis by (simp add: advance_loop.simps)
  next
    case (Inr y)
    obtain state' changed tr' where y: "y = (state', changed, tr')" by (cases y)
    show ?thesis
    proof (cases changed)
      case True
      with 1 pass Inr y have "evolves s' (snd (advance_loop r ns js state' tr' s'))" by simp
      with True pass Inr y evolves_trans [OF first] show ?thesis
        by (simp add: advance_loop.simps [of r ns js state tr s])
    next
      case False
      with pass first Inr y show ?thesis by (simp add: advance_loop.simps)
    qed
  qed
qed

lemma final_loop_over: "final_loop sts acc = Some final \<Longrightarrow> run_over acc \<Longrightarrow> run_over final"
  by (induction sts acc rule: final_loop.induct) (auto split: if_splits)

lemma keeps_finalize_run [intro, simp]: "keeps (finalize_run r sts)"
proof (cases "final_loop sts RunSucceeded")
  case None
  then show ?thesis by (simp only: finalize_run_def option.case keeps_return)
next
  case (Some final)
  then have "run_over final" by (rule final_loop_over) simp
  then show ?thesis unfolding finalize_run_def Some option.case
    by (intro keeps_bind keeps_if keeps_return keeps_SetRunState keeps_event keeps_GetRun) (simp add: run_over_def)
qed

lemma keeps_advance [intro, simp]: "keeps (advance r tr)"
  unfolding advance_def
  by (intro keeps_bind keeps_lists)
    (auto simp only: split: prod.splits
      intro!: keepsI [of "advance_loop r ns js st tr" for ns js st tr, OF advance_loop_evolves]
        keeps_bind keeps_finalize_run keeps_return)

lemma keeps_claim_loop [intro, simp]: "keeps (claim_loop lease r q)"
  by (induction q)
    (auto simp only: claim_loop.simps split: prod.splits
      intro!: keeps_bind keeps_if keeps_return keeps_jobSpec keeps_Now keeps_ClaimJob keeps_SetRunState
        keeps_event keeps_GetJob)

lemma keeps_claim_tx: "keeps (claim_tx lease r)"
  unfolding claim_tx_def by (intro keeps_bind keeps_UpsertRunner keeps_lists keeps_claim_loop)

lemma keeps_heartbeat_tx: "keeps (heartbeat_tx lease r refs)"
  unfolding heartbeat_tx_def heartbeat_job_def
  by (auto simp only: split: prod.splits intro!: keeps_bind keeps_TouchRunner keeps_fold keeps_Now
      keeps_ExtendLease keeps_if keeps_return keeps_GetJob)

lemma keeps_append_tx: "keeps (append_tx cap i a cs)"
  unfolding append_tx_def append_chunk_def Let_def
  by (auto simp only: split: prod.splits intro!: keeps_bind keeps_GetJob keeps_if keeps_raise keeps_lists
      keeps_fold keeps_InsertLogChunk keeps_return keeps_event)

lemma keeps_cancel_one: "keeps (cancel_one r j tr)"
  unfolding cancel_one_def
  by (intro keeps_if keeps_bind keeps_CancelJob keeps_RequestJobCancel keeps_event keeps_return)

lemma keeps_cancel_tx: "keeps (cancel_tx r)"
  unfolding cancel_tx_def
  by (intro keeps_bind keeps_if keeps_GetRun keeps_raise keeps_lists keeps_return keeps_fold keeps_cancel_one
      keeps_event keeps_advance)

lemma keeps_finish_attempt: "verdict_ok fs k \<Longrightarrow> keeps (finish_attempt j a fs k c m t d tr)"
  unfolding finish_attempt_def by (intro keeps_bind keeps_FinishJob keeps_Now keeps_event keeps_return)

lemma complete_write_evolves:
  assumes "distinct (map j_id (t_jobs s))" and "job \<in> set (t_jobs s)" and "j_state job = JobRunning"
    and "j_attempt job = a"
  shows "evolves s (snd (complete_write job a v res tr s))"
proof -
  have "j = job" if "j \<in> set (t_jobs s)" and "j_id j = j_id job" for j
    using distinct_keys_eq [OF assms(1) that(1) assms(2) that(2)] .
  then have requeue: "evolves s (snd (RequeueJob (j_id job) a m s))"
    if "a < j_max_attempts job" and "null_int (j_cancel_requested_at job) = 0" for m
    using that assms(4) by (intro RequeueJob_evolves) auto
  have fin: "evolves s (snd (finish_attempt job a fs k c m t d tr s))" if "verdict_ok fs k" for fs k c m t d
    using keeps_finish_attempt [OF that] by (simp add: keeps_def)
  show ?thesis
  proof (cases v)
    case None
    then show ?thesis by (simp add: complete_write_def fin verdict_ok_def)
  next
    case (Some kind)
    then show ?thesis
      by (auto simp: complete_write_def verdict_ok_def intro!: fin evolves_bind requeue keeps_bind keeps_event
          keeps_return)
  qed
qed

lemma complete_tx_evolves:
  assumes "distinct (map j_id (t_jobs s))"
  shows "evolves s (snd (complete_tx i a v res s))"
proof (cases "find (\<lambda>j. j_id j = i) (t_jobs s)")
  case None
  then show ?thesis by (simp add: complete_tx_def GetJob_def tx_bind_run)
next
  case (Some job)
  then have job: "job \<in> set (t_jobs s)" by (auto simp: find_Some_iff)
  have "evolves s (snd (tx_bind (complete_write job a v res no_transitions) (\<lambda>tr.
      tx_bind (advance (j_run_id job) tr) (\<lambda>tr'. tx_bind (GetJob i) (\<lambda>out. tx_return (out, tr')))) s))"
    if "j_state job = JobRunning" and "j_attempt job = a"
    using complete_write_evolves [OF assms job that]
    by (intro evolves_bind keeps_bind keeps_advance keeps_GetJob keeps_return)
  then show ?thesis using Some by (simp add: complete_tx_def GetJob_def tx_bind_run [of "GetJob i"] )
qed


subsection \<open>The monitor's loop\<close>

text \<open>
  The tick works on rows it listed beforehand; the row of a running job stays as listed until the
  loop reaches it, because \<open>advance\<close> touches pending rows only.
\<close>

abbreviation stays :: "Job \<Rightarrow> store \<Rightarrow> bool" where
  "stays j s \<equiv> j \<in> set (t_jobs s)"

lemma stays_update_jobs: "\<not> P j \<Longrightarrow> tx_always (stays j) (update_jobs P f)"
  by (auto simp: tx_always_def update_jobs_def in_sql_update)

lemma stays_prims [intro, simp]:
  "tx_always (stays j) Now" "tx_always (stays j) (event r i t d)" "tx_always (stays j) (GetRun r)"
  "tx_always (stays j) (ListJobs r)" "tx_always (stays j) (ListJobDeps r)" "tx_always (stays j) (SetRunState r f t')"
  by (auto simp: tx_always_def Now_def event_def AppendEvent_def tx_bind_run GetRun_def ListJobs_def
      ListJobDeps_def SetRunState_def split: option.splits)

lemma stays_other [intro]:
  "j_id j \<noteq> i \<Longrightarrow> tx_always (stays j) (RequeueJob i a m)"
  "j_id j \<noteq> i \<Longrightarrow> tx_always (stays j) (FinishJob i a fs k c m)"
  unfolding RequeueJob_def FinishJob_def
  by (intro tx_always_bind stays_prims stays_update_jobs; simp)+

lemma stays_advance_pass:
  assumes "j_state j \<noteq> JobPending"
  shows "tx_always (stays j) (advance_pass r ns js state tr)"
proof -
  have "tx_always (stays j) (TransitionPendingJob i to)" for i to
    unfolding TransitionPendingJob_def using assms
    by (intro tx_always_bind stays_prims) (auto intro!: stays_update_jobs split: job_state.splits)
  then have to: "tx_always (stays j) (advance_to r i to a)" for i to a
    unfolding advance_to_def
    by (cases a) (auto simp only: prod.case intro!: tx_always_bind tx_always_if tx_always_raise tx_always_return
        stays_prims)
  show ?thesis unfolding advance_pass_def advance_job_def
    by (intro tx_always_fold) (auto simp only: split: prod.splits intro!: tx_always_if tx_always_return to)
qed

lemma stays_advance_loop:
  assumes "j_state j \<noteq> JobPending"
  shows "stays j s \<Longrightarrow> stays j (snd (advance_loop r ns js state tr s))"
proof (induction r ns js state tr s rule: advance_loop.induct)
  case (1 r ns js state tr s)
  obtain res s' where pass: "advance_pass r ns js state tr s = (res, s')" by fastforce
  have "stays j s'" using tx_alwaysD [OF stays_advance_pass [OF assms] 1(2) pass] .
  with 1(1) pass show ?case
    by (auto simp: advance_loop.simps [of r ns js state tr s] split: sum.splits)
qed

lemma stays_advance:
  assumes "j_state j \<noteq> JobPending"
  shows "tx_always (stays j) (advance r tr)"
proof -
  have "tx_always (stays j) (advance_loop r ns js state tr')" for ns js state tr'
    by (rule tx_alwaysI) (rule stays_advance_loop [OF assms])
  moreover have "tx_always (stays j) (finalize_run r sts)" for sts
    unfolding finalize_run_def
    by (cases "final_loop sts RunSucceeded")
      (simp_all only: option.case tx_always_return, intro tx_always_bind tx_always_if stays_prims tx_always_return)
  ultimately show ?thesis unfolding advance_def
    by (intro tx_always_bind stays_prims) (auto simp only: split: prod.splits intro!: tx_always_bind tx_always_return)
qed

lemma stays_expire_one:
  assumes "j_id j \<noteq> j_id job" and "j_state j = JobRunning"
  shows "tx_always (stays j) (expire_one now job a)"
  unfolding expire_one_def using assms
  by (auto simp only: split: prod.splits intro!: tx_always_if tx_always_bind stays_other stays_prims tx_always_return
      stays_advance)

lemma expire_one_evolves:
  assumes "distinct (map j_id (t_jobs s))" and "job \<in> set (t_jobs s)"
  shows "evolves s (snd (expire_one now job a s))"
proof -
  have "j = job" if "j \<in> set (t_jobs s)" and "j_id j = j_id job" for j
    using distinct_keys_eq [OF assms(1) that(1) assms(2) that(2)] .
  then have requeue: "evolves s (snd (RequeueJob (j_id job) (j_attempt job) m s))"
    if "j_attempt job < j_max_attempts job" and "null_int (j_cancel_requested_at job) = 0" for m
    using that by (intro RequeueJob_evolves) auto
  have "keeps (FinishJob (j_id job) (j_attempt job) JobFailed (Some FailureLostRunner) None m)" for m
    by (rule keeps_FinishJob) (simp add: verdict_ok_def)
  then have fin: "evolves s (snd (FinishJob (j_id job) (j_attempt job) JobFailed (Some FailureLostRunner) None m s))" for m
    by (simp add: keeps_def)
  show ?thesis
    by (cases a) (auto simp: expire_one_def intro!: evolves_bind requeue fin keeps_bind keeps_event keeps_return
        keeps_advance)
qed

lemma evolves_ids: "evolves s s' \<Longrightarrow> map j_id (t_jobs s') = map j_id (t_jobs s)"
proof -
  assume "evolves s s'"
  then have "list_all2 job_step\<^sup>*\<^sup>* (t_jobs s) (t_jobs s')" by (simp add: evolves_def)
  then show ?thesis by induction (auto dest: job_steps_static)
qed

lemma expire_fold_evolves:
  assumes "distinct (map j_id (t_jobs s))" and "set js \<subseteq> set (t_jobs s)" and "distinct (map j_id js)"
    and "\<forall>j \<in> set js. j_state j = JobRunning"
  shows "evolves s (snd (tx_fold (expire_one now) js a s))"
  using assms
proof (induction js arbitrary: a s)
  case Nil
  then show ?case by simp
next
  case (Cons job js)
  obtain r s' where one: "expire_one now job a s = (r, s')" by fastforce
  have first: "evolves s s'" using expire_one_evolves [OF Cons.prems(1), of job now a] Cons.prems(2) one by simp
  have "stays j s'" if "j \<in> set js" for j
  proof -
    from that Cons.prems have "j_id j \<noteq> j_id job" and "j_state j = JobRunning" and "stays j s" by (auto simp: image_iff)
    then show ?thesis using tx_alwaysD [OF stays_expire_one _ one] by blast
  qed
  then have "set js \<subseteq> set (t_jobs s')" by blast
  with Cons.IH [of s'] Cons.prems evolves_ids [OF first]
  have "evolves s' (snd (tx_fold (expire_one now) js a' s'))" for a' by simp
  then show ?case using one first by (cases r) (auto intro: evolves_trans)
qed

lemma tick_tx_evolves:
  assumes "distinct (map j_id (t_jobs s))"
  shows "evolves s (snd (tick_tx g gr off s))"
proof -
  define s1 where "s1 = s\<lparr>reads := Suc (reads s)\<rparr>"
  define now where "now = clock s (reads s)"
  define expired where "expired = (if g \<le> now then
    sort_key j_lease_expires_at (filter (\<lambda>j. j_state j = JobRunning \<and> j_lease_expires_at j \<noteq> None
      \<and> null_int (j_lease_expires_at j) < now) (t_jobs s)) else [])"
  have "distinct (map j_id expired)" using assms
    by (auto simp: expired_def distinct_map inj_on_def)
  then have fold: "evolves s1 (snd (tx_fold (expire_one now) expired a s1))" for a
    using assms by (intro expire_fold_evolves) (auto simp: expired_def s1_def)
  have rest: "keeps (tx_fold (backstop_one gr now) running rep)" for running rep
    unfolding backstop_one_def
    by (intro keeps_fold keeps_bind keeps_jobSpec keeps_if keeps_return keeps_RequestJobCancel keeps_event)
  have "evolves s1 (snd (tx_bind (tx_fold (expire_one now) expired (empty_report, no_transitions)) (\<lambda>(rep, tr).
     tx_bind ListRunningJobs (\<lambda>running.
     tx_bind (tx_fold (backstop_one gr now) running rep) (\<lambda>rep'.
     tx_bind (MarkRunnersOffline (now - off)) (\<lambda>offlineIDs.
     tx_return (rep'\<lparr>tk_runners_offline := offlineIDs\<rparr>, tr, length expired))))) s1))"
    using fold by (intro evolves_bind)
      (auto simp only: split: prod.splits intro!: keeps_bind keeps_lists rest keeps_MarkRunnersOffline keeps_return)
  moreover have "evolves s s1" and [simp]: "t_jobs s1 = t_jobs s" by (simp_all add: s1_def)
  ultimately show ?thesis
    by (auto simp: tick_tx_def tx_bind_run [of Now] Now_def ListExpiredLeases_def s1_def [symmetric]
        now_def [symmetric] expired_def tx_bind_run [of "tx_get g" for g] intro: evolves_trans)
qed

end
