(* ===== verification/Advance.thy ===== *)
theory Advance
  imports Evolve
begin

text \<open>
  The DAG step of the scheduler. \<open>advance\<close> works on a private copy of the run's states and
  iterates to a fixpoint; the lemmas show that on a well-linked store it never fails, that the
  copy and the table agree at every step, and that the result is the one solution of the
  equations \<open>next_state\<close>: a pending job is skipped when a need ended badly, queued when all
  needs succeeded and left pending otherwise, with the run closed once nothing can move.
\<close>


section \<open>The specification\<close>

definition bad :: "job_state option \<Rightarrow> bool" where
  "bad fs \<longleftrightarrow> fs = Some JobFailed \<or> fs = Some JobCancelled \<or> fs = Some JobSkipped"

definition next_state :: "(string \<rightharpoonup> job_state) \<Rightarrow> string set \<Rightarrow> job_state \<Rightarrow> job_state" where
  "next_state \<sigma> N fs =
     (if fs \<noteq> JobPending then fs
      else if \<exists>n \<in> N. bad (\<sigma> n) then JobSkipped
      else if \<forall>n \<in> N. \<sigma> n = Some JobSucceeded then JobQueued
      else JobPending)"

definition job_states :: "store \<Rightarrow> string \<rightharpoonup> job_state" where
  "job_states s = map_of (map (\<lambda>j. (j_id j, j_state j)) (t_jobs s))"

definition job_needs :: "store \<Rightarrow> string \<Rightarrow> string set" where
  "job_needs s i = d_needs_job_id ` {d \<in> set (t_deps s). d_job_id d = i}"

definition run_verdict :: "job_state set \<Rightarrow> run_state" where
  "run_verdict S = (if JobFailed \<in> S then RunFailed else if JobCancelled \<in> S then RunCancelled else RunSucceeded)"

text \<open>The links of the tables: unique keys, jobs of known runs, edges within one run.\<close>

definition linked :: "store \<Rightarrow> bool" where
  "linked s \<longleftrightarrow> distinct (map j_id (t_jobs s)) \<and> distinct (map r_id (t_runs s)) \<and>
     (\<forall>r \<in> set (t_runs s). r_id r \<noteq> []) \<and> (\<forall>j \<in> set (t_jobs s). j_run_id j \<in> r_id ` set (t_runs s)) \<and>
     (\<forall>d \<in> set (t_deps s). \<exists>j \<in> set (t_jobs s). \<exists>n \<in> set (t_jobs s).
        j_id j = d_job_id d \<and> j_id n = d_needs_job_id d \<and> j_run_id n = j_run_id j)"

lemma job_states_iff:
  "distinct (map j_id (t_jobs s)) \<Longrightarrow> job_states s i = Some fs \<longleftrightarrow> (\<exists>j \<in> set (t_jobs s). j_id j = i \<and> j_state j = fs)"
  unfolding job_states_def by (subst map_of_eq_Some_iff) (auto simp: comp_def)

lemma job_states_at: "distinct (map j_id (t_jobs s)) \<Longrightarrow> j \<in> set (t_jobs s) \<Longrightarrow> job_states s (j_id j) = Some (j_state j)"
  by (auto simp: job_states_iff)


section \<open>The private copy\<close>

lemma need_flags_spec:
  "need_flags state ns (b, w) =
     (b \<or> (\<exists>n \<in> set ns. bad (state n)),
      w \<or> (\<exists>n \<in> set ns. \<not> bad (state n) \<and> state n \<noteq> Some JobSucceeded))"
proof (induction ns arbitrary: b w)
  case (Cons n ns)
  show ?case
  proof (cases "state n")
    case (Some x)
    with Cons.IH show ?thesis by (cases x) (auto simp: bad_def)
  qed (use Cons.IH in \<open>auto simp: bad_def\<close>)
qed simp

lemma needs_map_set: "set (get_list (needs_map ds) i) = d_needs_job_id ` {d \<in> set ds. d_job_id d = i}"
  by (induction ds rule: rev_induct) (auto simp: needs_map_def)

lemma state_map_at:
  assumes "distinct (map j_id js)"
  shows "state_map js i = map_of (map (\<lambda>j. (j_id j, j_state j)) js) i"
  using assms
proof (induction js rule: rev_induct)
  case (snoc j js)
  have "map_of (map (\<lambda>j. (j_id j, j_state j)) js) (j_id j) = None"
    using snoc.prems by (auto simp: map_of_eq_None_iff)
  moreover from snoc have "state_map js i = map_of (map (\<lambda>j. (j_id j, j_state j)) js) i" by simp
  ultimately show ?case by (auto simp: state_map_def map_add_def split: option.splits)
qed (simp add: state_map_def)

lemma final_loop_spec:
  "final_loop sts acc =
     (if \<exists>fs \<in> set sts. \<not> isTerminal fs then None
      else Some (if JobFailed \<in> set sts \<or> acc = RunFailed then RunFailed
        else if JobCancelled \<in> set sts \<or> acc = RunCancelled then RunCancelled else acc))"
proof (induction sts acc rule: final_loop.induct)
  case (2 fs rest final)
  then show ?case by (cases fs) auto
qed auto

text \<open>Every departure from the starting states has its reason in the current ones.\<close>

definition explained :: "(string \<Rightarrow> string set) \<Rightarrow> (string \<rightharpoonup> job_state) \<Rightarrow> (string \<rightharpoonup> job_state) \<Rightarrow> bool" where
  "explained N \<sigma>0 \<sigma> \<longleftrightarrow> (\<forall>i. \<sigma> i = \<sigma>0 i \<or> \<sigma>0 i = Some JobPending \<and>
     (\<sigma> i = Some JobSkipped \<and> (\<exists>n \<in> N i. bad (\<sigma> n)) \<or>
      \<sigma> i = Some JobQueued \<and> (\<forall>n \<in> N i. \<sigma> n = Some JobSucceeded)))"

lemma explained_start: "explained N \<sigma>0 \<sigma> \<Longrightarrow> \<sigma> i = \<sigma>0 i \<or> \<sigma>0 i = Some JobPending"
  unfolding explained_def by blast

lemma explained_upd:
  assumes "explained N \<sigma>0 \<sigma>" and "\<sigma> i = Some JobPending"
    and "to = JobSkipped \<and> (\<exists>n \<in> N i. bad (\<sigma> n)) \<or> to = JobQueued \<and> (\<forall>n \<in> N i. \<sigma> n = Some JobSucceeded)"
  shows "explained N \<sigma>0 (\<sigma>(i \<mapsto> to))"
proof -
  define \<sigma>' where "\<sigma>' = \<sigma>(i \<mapsto> to)"
  have b: "bad (\<sigma> n) \<Longrightarrow> bad (\<sigma>' n)" for n using assms(2) by (auto simp: \<sigma>'_def bad_def)
  have g: "\<sigma> n = Some JobSucceeded \<Longrightarrow> \<sigma>' n = Some JobSucceeded" for n using assms(2) by (auto simp: \<sigma>'_def)
  have at: "\<sigma>' i = Some to" and other: "k \<noteq> i \<Longrightarrow> \<sigma>' k = \<sigma> k" for k by (simp_all add: \<sigma>'_def)
  have start: "\<sigma>0 i = Some JobPending"
    using explained_start [OF assms(1), of i] assms(2) by (elim disjE) simp_all
  have "\<sigma>' k = \<sigma>0 k \<or> \<sigma>0 k = Some JobPending \<and>
      (\<sigma>' k = Some JobSkipped \<and> (\<exists>n \<in> N k. bad (\<sigma>' n)) \<or>
       \<sigma>' k = Some JobQueued \<and> (\<forall>n \<in> N k. \<sigma>' n = Some JobSucceeded))" for k
  proof (cases "k = i")
    case True
    from assms(3) b g at start show ?thesis unfolding True by blast
  next
    case False
    from assms(1) have "\<sigma> k = \<sigma>0 k \<or> \<sigma>0 k = Some JobPending \<and>
      (\<sigma> k = Some JobSkipped \<and> (\<exists>n \<in> N k. bad (\<sigma> n)) \<or>
       \<sigma> k = Some JobQueued \<and> (\<forall>n \<in> N k. \<sigma> n = Some JobSucceeded))" unfolding explained_def by blast
    with b g show ?thesis unfolding other [OF False] by blast
  qed
  then show ?thesis unfolding explained_def \<sigma>'_def [symmetric] by blast
qed

lemma explained_fixpoint:
  assumes "explained N \<sigma>0 \<sigma>" and "\<sigma>0 i = Some fs"
    and "\<sigma> i = Some JobPending \<Longrightarrow> \<not> (\<exists>n \<in> N i. bad (\<sigma> n)) \<and> (\<exists>n \<in> N i. \<not> bad (\<sigma> n) \<and> \<sigma> n \<noteq> Some JobSucceeded)"
  shows "\<sigma> i = Some (next_state \<sigma> (N i) fs)"
proof -
  from assms(1) have ex: "\<sigma> i = \<sigma>0 i \<or> \<sigma>0 i = Some JobPending \<and>
    (\<sigma> i = Some JobSkipped \<and> (\<exists>n \<in> N i. bad (\<sigma> n)) \<or>
     \<sigma> i = Some JobQueued \<and> (\<forall>n \<in> N i. \<sigma> n = Some JobSucceeded))" unfolding explained_def by blast
  have nb: "\<forall>n \<in> N i. \<sigma> n = Some JobSucceeded \<Longrightarrow> \<not> (\<exists>n \<in> N i. bad (\<sigma> n))" by (auto simp: bad_def)
  show ?thesis
  proof (cases "fs = JobPending")
    case False
    with ex assms(2) show ?thesis by (auto simp: next_state_def)
  next
    case True
    with ex assms(2,3) nb show ?thesis by (auto simp: next_state_def)
  qed
qed


section \<open>One pass over the jobs\<close>

text \<open>Only pending rows of the run may differ from the start.\<close>

definition rows_kept :: "string \<Rightarrow> store \<Rightarrow> store \<Rightarrow> bool" where
  "rows_kept R s0 s \<longleftrightarrow>
     list_all2 (\<lambda>j j'. j_run_id j = R \<and> j_state j = JobPending \<or> j' = j) (t_jobs s0) (t_jobs s)"

definition adv_inv :: "string \<Rightarrow> (string \<Rightarrow> string set) \<Rightarrow> store \<Rightarrow> (string \<rightharpoonup> job_state) \<Rightarrow>
    (string \<rightharpoonup> job_state) \<Rightarrow> store \<Rightarrow> bool" where
  "adv_inv R N s0 \<sigma>0 \<sigma> s \<longleftrightarrow> evolves s0 s \<and> t_runs s = t_runs s0 \<and> rows_kept R s0 s \<and> explained N \<sigma>0 \<sigma> \<and>
     (\<forall>j \<in> set (t_jobs s). j_run_id j = R \<longrightarrow> \<sigma> (j_id j) = Some (j_state j))"

lemma rows_kept_refl [simp]: "rows_kept R s s"
  by (simp add: rows_kept_def list_all2_refl)

lemma rows_kept_upd:
  assumes "rows_kept R s0 s" and "\<And>q. q \<in> set (t_jobs s) \<Longrightarrow> P q \<Longrightarrow> j_run_id q = R \<and> j_state q = JobPending"
    and "t_jobs s' = sql_update P f (t_jobs s)"
  shows "rows_kept R s0 s'"
proof -
  have "list_all2 (\<lambda>j j'. j_run_id j = R \<and> j_state j = JobPending \<or> j' = j) js (sql_update P f ks)"
    if "list_all2 (\<lambda>j j'. j_run_id j = R \<and> j_state j = JobPending \<or> j' = j) js ks"
      and "\<forall>q \<in> set ks. P q \<longrightarrow> j_run_id q = R \<and> j_state q = JobPending" for js ks
    using that by induction auto
  with assms show ?thesis unfolding rows_kept_def by simp
qed

lemma list_all2_in_left: "list_all2 Q xs ys \<Longrightarrow> x \<in> set xs \<Longrightarrow> \<exists>y \<in> set ys. Q x y"
  by (induction rule: list_all2_induct) auto

lemma list_all2_in_right: "list_all2 Q xs ys \<Longrightarrow> y \<in> set ys \<Longrightarrow> \<exists>x \<in> set xs. Q x y"
  by (induction rule: list_all2_induct) auto

lemma evolves_row:
  assumes "evolves s s'" and "j \<in> set (t_jobs s)"
  obtains j' where "j' \<in> set (t_jobs s')" and "job_step\<^sup>*\<^sup>* j j'"
  using assms list_all2_in_left unfolding evolves_def by metis

lemma evolves_row_back:
  assumes "evolves s s'" and "j' \<in> set (t_jobs s')"
  obtains j where "j \<in> set (t_jobs s)" and "job_step\<^sup>*\<^sup>* j j'"
  using assms list_all2_in_right unfolding evolves_def by metis

text \<open>The store after one more audit record.\<close>

definition logged :: "string \<Rightarrow> string \<Rightarrow> string \<Rightarrow> detail \<Rightarrow> store \<Rightarrow> store" where
  "logged r i t d s = s\<lparr>reads := Suc (reads s), t_events := t_events s @
     [\<lparr>e_id = next_event_id (t_events s), e_run_id = r, e_job_id = nullStr i, e_type = t, e_detail = d,
       e_created_at = clock s (reads s)\<rparr>]\<rparr>"

lemma logged_fields [simp]:
  "t_jobs (logged r i t d s) = t_jobs s" "t_runs (logged r i t d s) = t_runs s"
  "t_deps (logged r i t d s) = t_deps s" "clock (logged r i t d s) = clock s"
  "t_runners (logged r i t d s) = t_runners s" "t_chunks (logged r i t d s) = t_chunks s"
  "t_artifacts (logged r i t d s) = t_artifacts s" "reads (logged r i t d s) = Suc (reads s)"
  by (simp_all add: logged_def)

lemma event_run: "r \<noteq> [] \<Longrightarrow> t \<noteq> [] \<Longrightarrow> event r i t d s = (Inr (), logged r i t d s)"
  by (simp add: event_def AppendEvent_def tx_bind_run Now_def logged_def)

definition pend_row :: "job_state \<Rightarrow> int \<Rightarrow> Job \<Rightarrow> Job" where
  "pend_row to n = (if to = JobQueued then queue_row n else skip_row n)"

lemma Transition_run:
  assumes "distinct (map j_id (t_jobs s))" and "q \<in> set (t_jobs s)" and "j_state q = JobPending"
    and "to = JobQueued \<or> to = JobSkipped"
  shows "\<exists>s'. TransitionPendingJob (j_id q) to s = (Inr True, s') \<and> t_runs s' = t_runs s \<and>
    t_jobs s' = sql_update (\<lambda>j. j_id j = j_id q \<and> j_state j = JobPending) (pend_row to (clock s (reads s))) (t_jobs s)"
  using assms(4) sql_affected_keyed [OF assms(1,2), of "j_id q" "\<lambda>j. j_state j = JobPending"] assms(3)
  by (auto simp: TransitionPendingJob_def tx_bind_run Now_def update_jobs_def pend_row_def)

lemma advance_to_run:
  assumes "distinct (map j_id (t_jobs s0))" and inv: "adv_inv R N s0 \<sigma>0 \<sigma> s"
    and "j \<in> set (t_jobs s0)" and "j_run_id j = R" and pend: "\<sigma> (j_id j) = Some JobPending" and "R \<noteq> []"
    and why: "to = JobSkipped \<and> (\<exists>n \<in> N (j_id j). bad (\<sigma> n)) \<or>
        to = JobQueued \<and> (\<forall>n \<in> N (j_id j). \<sigma> n = Some JobSucceeded)"
  shows "\<exists>s'. advance_to R (j_id j) to (\<sigma>, ch, tr) s = (Inr (\<sigma>(j_id j \<mapsto> to), True, tr_enter to tr), s') \<and>
    adv_inv R N s0 \<sigma>0 (\<sigma>(j_id j \<mapsto> to)) s'"
proof -
  from inv have ev: "evolves s0 s" and sync: "\<forall>j \<in> set (t_jobs s). j_run_id j = R \<longrightarrow> \<sigma> (j_id j) = Some (j_state j)"
    by (simp_all add: adv_inv_def)
  from evolves_ids [OF ev] assms(1) have dist: "distinct (map j_id (t_jobs s))" by simp
  from evolves_row [OF ev assms(3)] obtain q where q: "q \<in> set (t_jobs s)" and "job_step\<^sup>*\<^sup>* j q" .
  from job_steps_static [OF this(2)] assms(4) have qid: "j_id q = j_id j" and "j_run_id q = R" by simp_all
  with sync q pend have qst: "j_state q = JobPending" by auto
  from why have to: "to = JobQueued \<or> to = JobSkipped" by auto
  define f where "f = pend_row to (clock s (reads s))"
  have f: "\<forall>k. j_id (f k) = j_id k \<and> j_run_id (f k) = j_run_id k \<and> j_state (f k) = to"
    using to by (auto simp: f_def pend_row_def row_simps)
  from Transition_run [OF dist q qst to] obtain s1 where t1: "TransitionPendingJob (j_id j) to s = (Inr True, s1)"
    and r1: "t_runs s1 = t_runs s"
    and j1: "t_jobs s1 = sql_update (\<lambda>k. j_id k = j_id q \<and> j_state k = JobPending) f (t_jobs s)"
    by (auto simp: qid f_def)
  define s2 where "s2 = logged R (j_id j) (if to = JobSkipped then ''job.skipped'' else ''job.queued'') [] s1"
  have t2: "event R (j_id j) (if to = JobSkipped then ''job.skipped'' else ''job.queued'') [] s1 = (Inr (), s2)"
    unfolding s2_def by (rule event_run) (use \<open>R \<noteq> []\<close> in simp_all)
  have j2: "t_jobs s2 = t_jobs s1" and r2: "t_runs s2 = t_runs s1" by (simp_all add: s2_def)
  have run: "advance_to R (j_id j) to (\<sigma>, ch, tr) s = (Inr (\<sigma>(j_id j \<mapsto> to), True, tr_enter to tr), s2)"
    using t1 t2 by (simp add: advance_to_def)
  have only: "k = q" if "k \<in> set (t_jobs s)" and "j_id k = j_id q" for k
    using distinct_keys_eq [OF dist that(1) q that(2)] .
  have "evolves s s2" using keepsD [OF keeps_advance_to run] .
  with ev have "evolves s0 s2" by (rule evolves_trans)
  moreover have "rows_kept R s0 s2"
  proof (rule rows_kept_upd)
    show "rows_kept R s0 s" using inv by (simp add: adv_inv_def)
    show "t_jobs s2 = sql_update (\<lambda>k. j_id k = j_id q \<and> j_state k = JobPending) f (t_jobs s)"
      using j1 j2 by simp
  qed (use only qst \<open>j_run_id q = R\<close> in auto)
  moreover have "\<forall>k \<in> set (t_jobs s2). j_run_id k = R \<longrightarrow> (\<sigma>(j_id j \<mapsto> to)) (j_id k) = Some (j_state k)"
    using sync f only qid qst by (auto simp: j2 j1 in_sql_update)
  ultimately have "adv_inv R N s0 \<sigma>0 (\<sigma>(j_id j \<mapsto> to)) s2"
    using inv explained_upd [of N \<sigma>0 \<sigma>, OF _ pend why] r1 r2 by (simp add: adv_inv_def)
  with run show ?thesis by blast
qed


definition at_rest :: "(string \<Rightarrow> string set) \<Rightarrow> (string \<rightharpoonup> job_state) \<Rightarrow> string \<Rightarrow> bool" where
  "at_rest N \<sigma> i \<longleftrightarrow> (\<sigma> i = Some JobPending \<longrightarrow> \<not> (\<exists>n \<in> N i. bad (\<sigma> n)) \<and>
     (\<exists>n \<in> N i. \<not> bad (\<sigma> n) \<and> \<sigma> n \<noteq> Some JobSucceeded))"

lemma advance_job_run:
  assumes dist: "distinct (map j_id (t_jobs s0))" and inv: "adv_inv R N s0 \<sigma>0 \<sigma> s"
    and j: "j \<in> set (t_jobs s0)" "j_run_id j = R" and R: "R \<noteq> []"
    and N: "N = (\<lambda>i. set (get_list needs i))"
  shows "\<exists>\<sigma>' ch' tr' s'. advance_job R needs j (\<sigma>, ch, tr) s = (Inr (\<sigma>', ch', tr'), s') \<and>
    adv_inv R N s0 \<sigma>0 \<sigma>' s' \<and> (ch \<longrightarrow> ch') \<and> (\<not> ch' \<longrightarrow> \<sigma>' = \<sigma> \<and> at_rest N \<sigma> (j_id j))"
proof (cases "\<sigma> (j_id j) = Some JobPending")
  case False
  then have "advance_job R needs j (\<sigma>, ch, tr) s = (Inr (\<sigma>, ch, tr), s)" by (simp add: advance_job_def)
  with inv False show ?thesis by (simp add: at_rest_def)
next
  case True
  define blocked where "blocked \<longleftrightarrow> (\<exists>n \<in> N (j_id j). bad (\<sigma> n))"
  define waiting where "waiting \<longleftrightarrow> (\<exists>n \<in> N (j_id j). \<not> bad (\<sigma> n) \<and> \<sigma> n \<noteq> Some JobSucceeded)"
  have flags: "need_flags \<sigma> (get_list needs (j_id j)) (False, False) = (blocked, waiting)"
    by (simp add: need_flags_spec blocked_def waiting_def N)
  show ?thesis
  proof (cases "\<not> blocked \<and> waiting")
    case rest: True
    then have "advance_job R needs j (\<sigma>, ch, tr) s = (Inr (\<sigma>, ch, tr), s)"
      using True flags by (simp add: advance_job_def)
    with inv rest show ?thesis by (auto simp: at_rest_def blocked_def waiting_def)
  next
    case False
    define to where "to = (if blocked then JobSkipped else JobQueued)"
    have "to = JobSkipped \<and> (\<exists>n \<in> N (j_id j). bad (\<sigma> n)) \<or>
        to = JobQueued \<and> (\<forall>n \<in> N (j_id j). \<sigma> n = Some JobSucceeded)"
      using False by (auto simp: to_def blocked_def waiting_def)
    from advance_to_run [OF dist inv j True R this, of ch tr]
    obtain s' where s': "advance_to R (j_id j) to (\<sigma>, ch, tr) s = (Inr (\<sigma>(j_id j \<mapsto> to), True, tr_enter to tr), s')"
      and inv': "adv_inv R N s0 \<sigma>0 (\<sigma>(j_id j \<mapsto> to)) s'" by blast
    have "advance_job R needs j (\<sigma>, ch, tr) s = advance_to R (j_id j) to (\<sigma>, ch, tr) s"
      using True False flags by (auto simp: advance_job_def to_def)
    with s' inv' show ?thesis by auto
  qed
qed

lemma advance_fold_run:
  assumes dist: "distinct (map j_id (t_jobs s0))" and R: "R \<noteq> []"
    and N: "N = (\<lambda>i. set (get_list needs i))"
  shows "(\<forall>j \<in> set ks. j \<in> set (t_jobs s0) \<and> j_run_id j = R) \<Longrightarrow> adv_inv R N s0 \<sigma>0 \<sigma> s \<Longrightarrow>
    \<exists>\<sigma>' ch' tr' s'. tx_fold (advance_job R needs) ks (\<sigma>, ch, tr) s = (Inr (\<sigma>', ch', tr'), s') \<and>
      adv_inv R N s0 \<sigma>0 \<sigma>' s' \<and> (ch \<longrightarrow> ch') \<and> (\<not> ch' \<longrightarrow> \<sigma>' = \<sigma> \<and> (\<forall>j \<in> set ks. at_rest N \<sigma> (j_id j)))"
proof (induction ks arbitrary: \<sigma> ch tr s)
  case (Cons j ks)
  from Cons.prems(1) have j: "j \<in> set (t_jobs s0)" "j_run_id j = R" by simp_all
  from advance_job_run [OF dist Cons.prems(2) j R N, of ch tr] obtain \<sigma>1 ch1 tr1 s1
    where one: "advance_job R needs j (\<sigma>, ch, tr) s = (Inr (\<sigma>1, ch1, tr1), s1)" and inv1: "adv_inv R N s0 \<sigma>0 \<sigma>1 s1"
      and ch1: "ch \<longrightarrow> ch1" and r1: "\<not> ch1 \<longrightarrow> \<sigma>1 = \<sigma> \<and> at_rest N \<sigma> (j_id j)" by blast
  from Cons.prems(1) have "\<forall>k \<in> set ks. k \<in> set (t_jobs s0) \<and> j_run_id k = R" by simp
  from Cons.IH [OF this inv1, of ch1 tr1] obtain \<sigma>2 ch2 tr2 s2
    where two: "tx_fold (advance_job R needs) ks (\<sigma>1, ch1, tr1) s1 = (Inr (\<sigma>2, ch2, tr2), s2)"
      and inv2: "adv_inv R N s0 \<sigma>0 \<sigma>2 s2" and ch2: "ch1 \<longrightarrow> ch2"
      and r2: "\<not> ch2 \<longrightarrow> \<sigma>2 = \<sigma>1 \<and> (\<forall>j \<in> set ks. at_rest N \<sigma>1 (j_id j))" by blast
  have "tx_fold (advance_job R needs) (j # ks) (\<sigma>, ch, tr) s = (Inr (\<sigma>2, ch2, tr2), s2)"
    using one two by simp
  moreover have "\<not> ch2 \<longrightarrow> \<sigma>2 = \<sigma> \<and> (\<forall>j \<in> set (j # ks). at_rest N \<sigma> (j_id j))" using r1 r2 ch2 by auto
  ultimately show ?case using inv2 ch1 ch2 by blast
qed simp

lemma advance_loop_run:
  assumes dist: "distinct (map j_id (t_jobs s0))" and R: "R \<noteq> []"
    and N: "N = (\<lambda>i. set (get_list needs i))"
  shows "(\<forall>j \<in> set js. j \<in> set (t_jobs s0) \<and> j_run_id j = R) \<Longrightarrow> adv_inv R N s0 \<sigma>0 \<sigma> s \<Longrightarrow>
    \<exists>\<sigma>' tr' s'. advance_loop R needs js \<sigma> tr s = (Inr (\<sigma>', tr'), s') \<and> adv_inv R N s0 \<sigma>0 \<sigma>' s' \<and>
      (\<forall>j \<in> set js. at_rest N \<sigma>' (j_id j))"
  using N R
proof (induction R needs js \<sigma> tr s rule: advance_loop.induct)
  case (1 R needs js \<sigma> tr s)
  from advance_fold_run [OF dist 1(5) 1(4) 1(2,3), of False tr] obtain \<sigma>1 ch1 tr1 s1
    where pass: "advance_pass R needs js \<sigma> tr s = (Inr (\<sigma>1, ch1, tr1), s1)" and inv1: "adv_inv R N s0 \<sigma>0 \<sigma>1 s1"
      and r1: "\<not> ch1 \<longrightarrow> \<sigma>1 = \<sigma> \<and> (\<forall>j \<in> set js. at_rest N \<sigma> (j_id j))" unfolding advance_pass_def by blast
  show ?case
  proof (cases ch1)
    case True
    then show ?thesis
      using 1(1) [OF pass [symmetric] refl refl refl _ 1(2) inv1 1(4,5)] pass
      by (simp add: advance_loop.simps [of R needs js \<sigma> tr s])
  next
    case False
    then show ?thesis using pass inv1 r1 by (simp add: advance_loop.simps [of R needs js \<sigma> tr s])
  qed
qed


section \<open>The whole step\<close>

definition over_rows :: "string \<Rightarrow> run_state \<Rightarrow> int \<Rightarrow> Run list \<Rightarrow> Run list" where
  "over_rows R to n rs = sql_update (\<lambda>r. r_id r = R \<and> \<not> run_over (r_state r)) (run_state_row to n) rs"

lemma GetRun_run:
  assumes "distinct (map r_id (t_runs s))" and "run \<in> set (t_runs s)"
  shows "GetRun (r_id run) s = (Inr run, s)"
  using find_keyed_Some [OF assms] by (simp add: GetRun_def)

lemma finalize_run_run:
  assumes dist: "distinct (map r_id (t_runs s))" and "R \<in> r_id ` set (t_runs s)" and "R \<noteq> []"
  shows "\<exists>s'. finalize_run R sts s = (Inr (), s') \<and> t_jobs s' = t_jobs s \<and>
    t_runs s' = (if \<forall>fs \<in> set sts. isTerminal fs
      then over_rows R (run_verdict (set sts)) (clock s (reads s)) (t_runs s) else t_runs s)"
proof (cases "\<forall>fs \<in> set sts. isTerminal fs")
  case False
  then have "finalize_run R sts s = (Inr (), s)" by (auto simp: finalize_run_def final_loop_spec)
  with False show ?thesis by auto
next
  case True
  then have final: "final_loop sts RunSucceeded = Some (run_verdict (set sts))"
    by (auto simp: final_loop_spec run_verdict_def)
  from assms(2) obtain run where run: "run \<in> set (t_runs s)" and R: "R = r_id run" by blast
  have only: "r = run" if "r \<in> set (t_runs s)" and "r_id r = R" for r
    using distinct_keys_eq [OF dist that(1) run] that(2) R by simp
  show ?thesis
  proof (cases "run_over (r_state run)")
    case over: True
    then have "finalize_run R sts s = (Inr (), s)"
      using final GetRun_run [OF dist run] by (simp add: finalize_run_def R run_over_def)
    moreover have "over_rows R (run_verdict (set sts)) n (t_runs s) = t_runs s" for n
      unfolding over_rows_def by (rule sql_update_none) (use only over in auto)
    ultimately show ?thesis using True by auto
  next
    case open_run: False
    define s1 where "s1 = s\<lparr>reads := Suc (reads s),
      t_runs := over_rows R (run_verdict (set sts)) (clock s (reads s)) (t_runs s)\<rparr>"
    have "r_id r = R \<and> r_state r = r_state run \<longleftrightarrow> r_id r = R \<and> \<not> run_over (r_state r)"
      if "r \<in> set (t_runs s)" for r
      using only [OF that] open_run by blast
    then have "sql_update (\<lambda>r. r_id r = R \<and> r_state r = r_state run) f (t_runs s)
        = sql_update (\<lambda>r. r_id r = R \<and> \<not> run_over (r_state r)) f (t_runs s)" for f
      unfolding sql_update_def by (intro map_cong) simp_all
    then have set: "\<exists>ok. SetRunState R (r_state run) (run_verdict (set sts)) s = (Inr ok, s1)"
      by (simp add: SetRunState_def tx_bind_run Now_def s1_def over_rows_def)
    define s2 where "s2 = logged R [] ''run.finished'' [(''state'', JStr (run_state_string (run_verdict (set sts))))] s1"
    have "finalize_run R sts s = (Inr (), s2)"
      using final GetRun_run [OF dist run] open_run set event_run [OF \<open>R \<noteq> []\<close> list.distinct(2)]
      by (auto simp: finalize_run_def R run_over_def s2_def)
    then show ?thesis using True by (simp add: s1_def s2_def)
  qed
qed

lemma map_filter_known: "(\<And>x. x \<in> set xs \<Longrightarrow> f x = Some (g x)) \<Longrightarrow> List.map_filter f xs = map g xs"
  by (induction xs) (simp_all add: List.map_filter_simps)

lemma next_state_cong: "(\<And>n. n \<in> N \<Longrightarrow> \<sigma> n = \<tau> n) \<Longrightarrow> next_state \<sigma> N fs = next_state \<tau> N fs"
  by (simp add: next_state_def)

lemma linked_needs:
  assumes "linked s" and "j \<in> set (t_jobs s)" and "n \<in> job_needs s (j_id j)"
  obtains k where "k \<in> set (t_jobs s)" and "j_id k = n" and "j_run_id k = j_run_id j"
proof -
  from assms(3) obtain d where d: "d \<in> set (t_deps s)" "d_job_id d = j_id j" "d_needs_job_id d = n"
    by (auto simp: job_needs_def)
  with assms(1) obtain j' k where "j' \<in> set (t_jobs s)" "k \<in> set (t_jobs s)" "j_id j' = j_id j" "j_id k = n"
      "j_run_id k = j_run_id j'" unfolding linked_def by metis
  moreover from this(1,3) assms(1,2) have "j' = j"
    using distinct_keys_eq [of j_id "t_jobs s"] by (simp add: linked_def)
  ultimately show ?thesis using that by blast
qed

lemma evolves_static:
  assumes "evolves s s'"
  shows "map (\<lambda>j. (j_id j, j_run_id j, j_name j, j_spec j, j_max_attempts j)) (t_jobs s') =
    map (\<lambda>j. (j_id j, j_run_id j, j_name j, j_spec j, j_max_attempts j)) (t_jobs s)"
proof -
  from assms have "list_all2 job_step\<^sup>*\<^sup>* (t_jobs s) (t_jobs s')" by (simp add: evolves_def)
  then show ?thesis by induction (auto dest: job_steps_static)
qed

text \<open>The result of \<open>advance\<close> on run \<open>R\<close>, as a relation between the stores.\<close>

definition advanced :: "string \<Rightarrow> store \<Rightarrow> store \<Rightarrow> bool" where
  "advanced R s s' \<longleftrightarrow> evolves s s' \<and> rows_kept R s s' \<and>
     (\<forall>j \<in> set (t_jobs s). j_run_id j = R \<longrightarrow>
        job_states s' (j_id j) = Some (next_state (job_states s') (job_needs s (j_id j)) (j_state j))) \<and>
     (\<exists>n. t_runs s' = (if \<forall>j \<in> set (t_jobs s'). j_run_id j = R \<longrightarrow> isTerminal (j_state j)
        then over_rows R (run_verdict (j_state ` {j \<in> set (t_jobs s'). j_run_id j = R})) n (t_runs s)
        else t_runs s))"


text \<open>The rows \<open>advance\<close> reads: the run's jobs and the edges among them.\<close>

definition run_jobs :: "string \<Rightarrow> store \<Rightarrow> Job list" where
  "run_jobs R s = filter (\<lambda>j. j_run_id j = R) (t_jobs s)"

definition run_deps :: "string \<Rightarrow> store \<Rightarrow> JobDep list" where
  "run_deps R s = sort_key (\<lambda>d. (d_job_id d, d_needs_job_id d))
     (filter (\<lambda>d. \<exists>j \<in> set (t_jobs s). j_id j = d_job_id d \<and> j_run_id j = R) (t_deps s))"

lemma in_run_jobs: "j \<in> set (run_jobs R s) \<longleftrightarrow> j \<in> set (t_jobs s) \<and> j_run_id j = R"
  by (simp add: run_jobs_def)

lemma evolves_run_row:
  assumes "evolves s s'" and "j \<in> set (run_jobs R s)"
  obtains q where "q \<in> set (run_jobs R s')" and "j_id q = j_id j" and "job_step\<^sup>*\<^sup>* j q"
proof -
  from assms(2) have "j \<in> set (t_jobs s)" by (simp add: in_run_jobs)
  with assms(1) obtain q where "q \<in> set (t_jobs s')" and q: "job_step\<^sup>*\<^sup>* j q" by (rule evolves_row)
  with job_steps_static [OF q] assms(2) that [of q] show ?thesis by (simp add: in_run_jobs)
qed

lemma evolves_run_row_back:
  assumes "evolves s s'" and "q \<in> set (run_jobs R s')"
  obtains j where "j \<in> set (run_jobs R s)" and "j_id q = j_id j" and "job_step\<^sup>*\<^sup>* j q"
proof -
  from assms(2) have "q \<in> set (t_jobs s')" by (simp add: in_run_jobs)
  with assms(1) obtain j where "j \<in> set (t_jobs s)" and j: "job_step\<^sup>*\<^sup>* j q" by (rule evolves_row_back)
  with job_steps_static [OF j] assms(2) that [of j] show ?thesis by (simp add: in_run_jobs)
qed

lemma run_deps_needs:
  "j \<in> set (run_jobs R s) \<Longrightarrow> set (get_list (needs_map (run_deps R s)) (j_id j)) = job_needs s (j_id j)"
  by (auto simp: needs_map_set job_needs_def run_deps_def in_run_jobs intro!: imageI)

lemma run_jobs_states:
  assumes "distinct (map j_id (t_jobs s))" and "j \<in> set (run_jobs R s)"
  shows "state_map (run_jobs R s) (j_id j) = Some (j_state j)"
proof -
  have "distinct (map j_id (run_jobs R s))" using assms(1) by (simp add: run_jobs_def distinct_map inj_on_def)
  with assms(2) show ?thesis by (simp add: state_map_at comp_def)
qed

text \<open>The loop from the states in the table: the private copy ends equal to the table and solves the equations.\<close>

lemma advance_loop_solves:
  assumes lk: "linked s" and Rne: "R \<noteq> []"
  shows "\<exists>\<sigma> tr' s'. advance_loop R (needs_map (run_deps R s)) (run_jobs R s) (state_map (run_jobs R s)) tr s
      = (Inr (\<sigma>, tr'), s') \<and> evolves s s' \<and> rows_kept R s s' \<and> t_runs s' = t_runs s \<and>
    (\<forall>j \<in> set (run_jobs R s). \<sigma> (j_id j) = job_states s' (j_id j) \<and>
      job_states s' (j_id j) = Some (next_state (job_states s') (job_needs s (j_id j)) (j_state j)))"
proof -
  define N where "N = (\<lambda>i. set (get_list (needs_map (run_deps R s)) i))"
  from lk have dist: "distinct (map j_id (t_jobs s))" by (simp add: linked_def)
  have jsR: "\<forall>j \<in> set (run_jobs R s). j \<in> set (t_jobs s) \<and> j_run_id j = R" by (simp add: in_run_jobs)
  note sm = run_jobs_states [OF dist]
  have N_needs: "j \<in> set (run_jobs R s) \<Longrightarrow> N (j_id j) = job_needs s (j_id j)" for j
    by (simp add: N_def run_deps_needs)
  have "adv_inv R N s (state_map (run_jobs R s)) (state_map (run_jobs R s)) s"
    using sm by (auto simp: adv_inv_def explained_def in_run_jobs)
  from advance_loop_run [OF dist Rne N_def jsR this, of tr] obtain \<sigma> tr' s'
    where loop: "advance_loop R (needs_map (run_deps R s)) (run_jobs R s) (state_map (run_jobs R s)) tr s = (Inr (\<sigma>, tr'), s')"
      and inv: "adv_inv R N s (state_map (run_jobs R s)) \<sigma> s'"
      and rest: "\<forall>j \<in> set (run_jobs R s). at_rest N \<sigma> (j_id j)" by blast
  from inv have ev: "evolves s s'" and expl: "explained N (state_map (run_jobs R s)) \<sigma>"
    and sync: "\<And>j. j \<in> set (run_jobs R s') \<Longrightarrow> \<sigma> (j_id j) = Some (j_state j)"
    by (simp_all add: adv_inv_def in_run_jobs)
  have dist': "distinct (map j_id (t_jobs s'))" using evolves_ids [OF ev] dist by simp
  have at: "\<sigma> (j_id j) = job_states s' (j_id j)" if j: "j \<in> set (run_jobs R s)" for j
  proof -
    from evolves_run_row [OF ev j] obtain q where q: "q \<in> set (run_jobs R s')" "j_id q = j_id j" .
    with sync [OF q(1)] job_states_at [OF dist', of q] show ?thesis by (simp add: in_run_jobs)
  qed
  have "job_states s' (j_id j) = Some (next_state (job_states s') (job_needs s (j_id j)) (j_state j))"
    if j: "j \<in> set (run_jobs R s)" for j
  proof -
    have "\<sigma> (j_id j) = Some (next_state \<sigma> (N (j_id j)) (j_state j))"
      by (rule explained_fixpoint [OF expl sm [OF j]]) (use rest j in \<open>auto simp: at_rest_def\<close>)
    moreover have "next_state \<sigma> (N (j_id j)) (j_state j) = next_state (job_states s') (N (j_id j)) (j_state j)"
    proof (rule next_state_cong)
      fix n assume "n \<in> N (j_id j)"
      with j N_needs have "n \<in> job_needs s (j_id j)" by simp
      then obtain k where "k \<in> set (t_jobs s)" "j_id k = n" "j_run_id k = j_run_id j"
        using linked_needs [OF lk] j by (metis in_run_jobs)
      with j at [of k] show "\<sigma> n = job_states s' n" by (auto simp: in_run_jobs)
    qed
    ultimately show ?thesis using at [OF j] N_needs [OF j] by simp
  qed
  with loop ev inv at show ?thesis by (auto simp: adv_inv_def)
qed

lemma advance_advanced:
  assumes lk: "linked s" and R: "R \<in> r_id ` set (t_runs s)"
  shows "\<exists>tr' s'. advance R tr s = (Inr tr', s') \<and> advanced R s s'"
proof -
  from lk R have Rne: "R \<noteq> []" and rdist: "distinct (map r_id (t_runs s))" by (auto simp: linked_def)
  from advance_loop_solves [OF lk Rne, of tr] obtain \<sigma> tr1 s1
    where loop: "advance_loop R (needs_map (run_deps R s)) (run_jobs R s) (state_map (run_jobs R s)) tr s = (Inr (\<sigma>, tr1), s1)"
      and ev: "evolves s s1" and kept: "rows_kept R s s1" and runs: "t_runs s1 = t_runs s"
      and at: "\<And>j. j \<in> set (run_jobs R s) \<Longrightarrow> \<sigma> (j_id j) = job_states s1 (j_id j)"
      and solves: "\<And>j. j \<in> set (run_jobs R s) \<Longrightarrow>
        job_states s1 (j_id j) = Some (next_state (job_states s1) (job_needs s (j_id j)) (j_state j))" by blast
  have dist1: "distinct (map j_id (t_jobs s1))" using evolves_ids [OF ev] lk by (simp add: linked_def)
  define sts where "sts = List.map_filter (\<lambda>j. \<sigma> (j_id j)) (run_jobs R s)"
  have "sts = map (\<lambda>j. the (job_states s1 (j_id j))) (run_jobs R s)"
    unfolding sts_def by (rule map_filter_known) (simp add: at solves)
  then have "x \<in> set sts \<longleftrightarrow> (\<exists>j \<in> set (run_jobs R s). job_states s1 (j_id j) = Some x)" for x
    using solves by (force simp: image_iff)
  moreover have "(\<exists>j \<in> set (run_jobs R s). job_states s1 (j_id j) = Some x) \<longleftrightarrow> (\<exists>q \<in> set (run_jobs R s1). j_state q = x)" for x
    using evolves_run_row [OF ev] evolves_run_row_back [OF ev] job_states_at [OF dist1]
    by (metis in_run_jobs option.inject)
  ultimately have "x \<in> set sts \<longleftrightarrow> (\<exists>q \<in> set (run_jobs R s1). j_state q = x)" for x by simp
  then have sts: "set sts = j_state ` {q \<in> set (t_jobs s1). j_run_id q = R}"
    unfolding in_run_jobs set_eq_iff image_iff by (metis (mono_tags, lifting) in_run_jobs mem_Collect_eq)
  have "R \<in> r_id ` set (t_runs s1)" using R runs by simp
  from finalize_run_run [OF _ this Rne, of sts] rdist runs obtain s2
    where fin: "finalize_run R sts s1 = (Inr (), s2)" and jobs2: "t_jobs s2 = t_jobs s1"
      and runs2: "t_runs s2 = (if \<forall>fs \<in> set sts. isTerminal fs
        then over_rows R (run_verdict (set sts)) (clock s1 (reads s1)) (t_runs s) else t_runs s)" by auto
  have "advance R tr s = (Inr tr1, s2)"
    using loop fin by (simp add: advance_def ListJobs_def ListJobDeps_def tx_bind_run run_jobs_def run_deps_def sts_def)
  moreover have "evolves s s2" using evolves_trans [OF ev keepsD [OF keeps_finalize_run fin]] .
  moreover have "job_states s2 = job_states s1" by (simp add: job_states_def jobs2)
  moreover have "(\<forall>fs \<in> set sts. isTerminal fs) \<longleftrightarrow> (\<forall>j \<in> set (t_jobs s2). j_run_id j = R \<longrightarrow> isTerminal (j_state j))"
    unfolding sts jobs2 by auto
  ultimately show ?thesis
    using kept solves runs2 sts unfolding advanced_def by (auto simp: rows_kept_def jobs2 in_run_jobs)
qed

end
