(* ===== verification/Invariant.thy ===== *)
theory Invariant
  imports Advance
begin

text \<open>
  The invariant of the control plane. A run is seen through its \<open>view\<close>: the jobs in order
  with their phase, where queued and running are one phase. \<open>ok_view\<close> says what holds between
  transactions: a run is over exactly when all its jobs are, its final state is the verdict over
  the jobs, and every pending job waits for a need that may still succeed. The two transfer lemmas
  at the end carry the invariant over the transactions that keep every view and over those that
  end with \<open>advance\<close>.
\<close>

definition phase :: "job_state \<Rightarrow> job_state" where
  "phase fs = (if fs = JobQueued then JobRunning else fs)"

definition view :: "string \<Rightarrow> store \<Rightarrow> (string \<times> job_state) list" where
  "view R s = map (\<lambda>j. (j_id j, phase (j_state j))) (run_jobs R s)"

definition ok_view :: "(string \<times> job_state) list \<Rightarrow> (string \<Rightarrow> string set) \<Rightarrow> run_state \<Rightarrow> bool" where
  "ok_view V N rs \<longleftrightarrow>
     (run_over rs \<longleftrightarrow> (\<forall>v \<in> set V. isTerminal (snd v))) \<and>
     (run_over rs \<longrightarrow> rs = run_verdict (snd ` set V)) \<and>
     (\<forall>v \<in> set V. snd v = JobPending \<longrightarrow>
        (\<forall>n \<in> N (fst v). \<not> bad (map_of V n)) \<and> (\<exists>n \<in> N (fst v). map_of V n \<noteq> Some JobSucceeded))"

definition dep_rel :: "store \<Rightarrow> (string \<times> string) set" where
  "dep_rel s = {(n, i). n \<in> job_needs s i}"

text \<open>What every primitive keeps, and the whole invariant.\<close>

definition base :: "store \<Rightarrow> bool" where
  "base s \<longleftrightarrow> linked s \<and> (\<forall>j \<in> set (t_jobs s). job_wf j) \<and> acyclic (dep_rel s) \<and>
     distinct (map (\<lambda>j. (j_run_id j, j_name j)) (t_jobs s))"

text \<open>
  The order of the DAG: a job that was released has only succeeded needs, and a skipped one has
  a need that ended badly.
\<close>

definition released :: "job_state \<Rightarrow> bool" where
  "released fs \<longleftrightarrow> fs = JobQueued \<or> fs = JobRunning \<or> fs = JobSucceeded \<or> fs = JobFailed"

definition ready :: "store \<Rightarrow> bool" where
  "ready s \<longleftrightarrow> (\<forall>j \<in> set (t_jobs s).
     (released (j_state j) \<longrightarrow> (\<forall>n \<in> job_needs s (j_id j). job_states s n = Some JobSucceeded)) \<and>
     (j_state j = JobSkipped \<longrightarrow> (\<exists>n \<in> job_needs s (j_id j). bad (job_states s n))))"

definition store_inv :: "store \<Rightarrow> bool" where
  "store_inv s \<longleftrightarrow> base s \<and> ready s \<and> (\<forall>r \<in> set (t_runs s). ok_view (view (r_id r) s) (job_needs s) (r_state r))"

lemma phase_simps [simp]:
  "phase JobQueued = JobRunning" "phase JobRunning = JobRunning" "isTerminal (phase fs) = isTerminal fs"
  "phase fs = JobPending \<longleftrightarrow> fs = JobPending" "phase fs = JobSucceeded \<longleftrightarrow> fs = JobSucceeded"
  "phase fs = JobFailed \<longleftrightarrow> fs = JobFailed" "phase fs = JobCancelled \<longleftrightarrow> fs = JobCancelled"
  "phase fs = JobSkipped \<longleftrightarrow> fs = JobSkipped"
  "phase fs = JobRunning \<longleftrightarrow> fs = JobQueued \<or> fs = JobRunning"
  by (simp_all add: phase_def)

lemma bad_phase [simp]: "bad (map_option phase x) = bad x"
  by (cases x) (auto simp: bad_def)

lemma ok_view_open: "\<not> run_over rs \<Longrightarrow> \<not> run_over rs' \<Longrightarrow> ok_view V N rs = ok_view V N rs'"
  by (simp add: ok_view_def)

lemma view_map: "map_of (view R s) n = map_option phase (map_of (map (\<lambda>j. (j_id j, j_state j)) (run_jobs R s)) n)"
proof -
  have "map_of (map (\<lambda>j. (j_id j, phase (j_state j))) js) n =
      map_option phase (map_of (map (\<lambda>j. (j_id j, j_state j)) js) n)" for js
    by (induction js) auto
  then show ?thesis by (simp add: view_def)
qed

lemma view_at:
  assumes "distinct (map j_id (t_jobs s))" and "j \<in> set (run_jobs R s)"
  shows "map_of (view R s) (j_id j) = Some (phase (j_state j))"
  using run_jobs_states [OF assms] state_map_at [of "run_jobs R s" "j_id j"] assms(1)
  by (simp add: view_map run_jobs_def distinct_map inj_on_def)

lemma view_needs:
  assumes "linked s" and "j \<in> set (run_jobs R s)" and "n \<in> job_needs s (j_id j)"
  shows "map_of (view R s) n = map_option phase (job_states s n)"
proof -
  from assms(2) have j: "j \<in> set (t_jobs s)" "j_run_id j = R" by (simp_all add: in_run_jobs)
  from linked_needs [OF assms(1) j(1) assms(3)] obtain k
    where k: "k \<in> set (t_jobs s)" "j_id k = n" "j_run_id k = j_run_id j" .
  then have "k \<in> set (run_jobs R s)" using j by (simp add: in_run_jobs)
  moreover have "distinct (map j_id (t_jobs s))" using assms(1) by (simp add: linked_def)
  ultimately show ?thesis using view_at [of s k R] job_states_at [of s k] k by simp
qed


section \<open>What evolution keeps\<close>

lemma evolves_runs:
  assumes "evolves s s'"
  shows "map r_id (t_runs s') = map r_id (t_runs s)"
proof -
  from assms have "list_all2 run_step\<^sup>*\<^sup>* (t_runs s) (t_runs s')" by (simp add: evolves_def)
  then show ?thesis by induction (auto dest: run_steps_static)
qed

lemma evolves_needs: "evolves s s' \<Longrightarrow> job_needs s' = job_needs s"
  by (auto simp: evolves_def job_needs_def fun_eq_iff)

lemma linked_static:
  "linked s \<longleftrightarrow> distinct (map j_id (t_jobs s)) \<and> distinct (map r_id (t_runs s)) \<and>
     [] \<notin> set (map r_id (t_runs s)) \<and> set (map j_run_id (t_jobs s)) \<subseteq> set (map r_id (t_runs s)) \<and>
     (\<forall>d \<in> set (t_deps s). \<exists>R. (d_job_id d, R) \<in> set (map (\<lambda>j. (j_id j, j_run_id j)) (t_jobs s)) \<and>
        (d_needs_job_id d, R) \<in> set (map (\<lambda>j. (j_id j, j_run_id j)) (t_jobs s)))"
proof -
  have "(\<exists>j \<in> set (t_jobs s). \<exists>n \<in> set (t_jobs s).
        j_id j = d_job_id d \<and> j_id n = d_needs_job_id d \<and> j_run_id n = j_run_id j) \<longleftrightarrow>
      (\<exists>R. (d_job_id d, R) \<in> set (map (\<lambda>j. (j_id j, j_run_id j)) (t_jobs s)) \<and>
        (d_needs_job_id d, R) \<in> set (map (\<lambda>j. (j_id j, j_run_id j)) (t_jobs s)))" for d
    by (auto simp: image_iff) metis+
  then have "(\<forall>d \<in> set (t_deps s). \<exists>j \<in> set (t_jobs s). \<exists>n \<in> set (t_jobs s).
        j_id j = d_job_id d \<and> j_id n = d_needs_job_id d \<and> j_run_id n = j_run_id j) \<longleftrightarrow>
      (\<forall>d \<in> set (t_deps s). \<exists>R. (d_job_id d, R) \<in> set (map (\<lambda>j. (j_id j, j_run_id j)) (t_jobs s)) \<and>
        (d_needs_job_id d, R) \<in> set (map (\<lambda>j. (j_id j, j_run_id j)) (t_jobs s)))" by blast
  moreover have "(\<forall>r \<in> set (t_runs s). r_id r \<noteq> []) \<longleftrightarrow> [] \<notin> set (map r_id (t_runs s))" by force
  moreover have "(\<forall>j \<in> set (t_jobs s). j_run_id j \<in> r_id ` set (t_runs s)) \<longleftrightarrow>
      set (map j_run_id (t_jobs s)) \<subseteq> set (map r_id (t_runs s))" by auto
  ultimately show ?thesis unfolding linked_def by (simp only:)
qed

lemma evolves_map:
  assumes "evolves s s'" and "\<And>j j'. job_step\<^sup>*\<^sup>* j j' \<Longrightarrow> f j' = f j"
  shows "map f (t_jobs s') = map f (t_jobs s)"
proof -
  from assms(1) have "list_all2 job_step\<^sup>*\<^sup>* (t_jobs s) (t_jobs s')" by (simp add: evolves_def)
  then show ?thesis by induction (auto dest: assms(2))
qed

lemma evolves_linked:
  assumes "evolves s s'" and "linked s"
  shows "linked s'"
proof -
  have "map j_id (t_jobs s') = map j_id (t_jobs s)" "map j_run_id (t_jobs s') = map j_run_id (t_jobs s)"
    "map (\<lambda>j. (j_id j, j_run_id j)) (t_jobs s') = map (\<lambda>j. (j_id j, j_run_id j)) (t_jobs s)"
    by (rule evolves_map [OF assms(1)], simp add: job_steps_static)+
  moreover have "t_deps s' = t_deps s" using assms(1) by (simp add: evolves_def)
  ultimately show ?thesis using assms(2) evolves_runs [OF assms(1)] unfolding linked_static by simp
qed

lemma evolves_base:
  assumes "evolves s s'" and "base s"
  shows "base s'"
proof -
  have "job_wf j'" if "j' \<in> set (t_jobs s')" for j'
    using evolves_row_back [OF assms(1) that] job_steps_wf assms(2) by (metis base_def)
  moreover have "map (\<lambda>j. (j_run_id j, j_name j)) (t_jobs s') = map (\<lambda>j. (j_run_id j, j_name j)) (t_jobs s)"
    by (rule evolves_map [OF assms(1)]) (simp add: job_steps_static)
  moreover have "dep_rel s' = dep_rel s" by (simp add: dep_rel_def evolves_needs [OF assms(1)])
  ultimately show ?thesis using assms(2) evolves_linked [OF assms(1)] by (simp add: base_def)
qed


section \<open>The two transfer lemmas\<close>

text \<open>A transaction that keeps every view and closes no run keeps the invariant.\<close>

lemma evolves_over:
  assumes "evolves s s'" and "linked s" and "job_states s n = Some fs" and "isTerminal fs"
  shows "job_states s' n = Some fs"
proof -
  have dist: "distinct (map j_id (t_jobs s))" using assms(2) by (simp add: linked_def)
  then have dist': "distinct (map j_id (t_jobs s'))" using evolves_ids [OF assms(1)] by simp
  from assms(3) obtain j where j: "j \<in> set (t_jobs s)" "j_id j = n" "j_state j = fs"
    using job_states_iff [OF dist] by blast
  from evolves_row [OF assms(1) j(1)] obtain q where "q \<in> set (t_jobs s')" "job_step\<^sup>*\<^sup>* j q" .
  moreover from this(2) have "q = j" using terminal_stuck assms(4) j(3) by blast
  ultimately show ?thesis using j job_states_iff [OF dist'] by blast
qed

text \<open>No step that only settles jobs, or moves them within their phase, touches the order.\<close>

lemma ready_kept:
  assumes "ready s" and "linked s" and ev: "evolves s s'"
    and rows: "\<And>j'. j' \<in> set (t_jobs s') \<Longrightarrow> \<exists>j \<in> set (t_jobs s). j_id j = j_id j' \<and>
      (released (j_state j') \<longrightarrow> released (j_state j)) \<and> (j_state j' = JobSkipped \<longrightarrow> j_state j = JobSkipped)"
  shows "ready s'"
  unfolding ready_def
proof (intro ballI conjI impI)
  fix j' assume "j' \<in> set (t_jobs s')"
  from rows [OF this] obtain j where j: "j \<in> set (t_jobs s)" "j_id j = j_id j'"
    and imp: "released (j_state j') \<longrightarrow> released (j_state j)" "j_state j' = JobSkipped \<longrightarrow> j_state j = JobSkipped" by blast
  note needs = evolves_needs [OF ev] and over = evolves_over [OF ev assms(2)]
  { fix n assume "released (j_state j')" "n \<in> job_needs s' (j_id j')"
    with j imp(1) assms(1) needs have "job_states s n = Some JobSucceeded" unfolding ready_def by metis
    then show "job_states s' n = Some JobSucceeded" by (rule over) simp }
  { assume "j_state j' = JobSkipped"
    with j imp(2) assms(1) needs obtain n where "n \<in> job_needs s' (j_id j')" "bad (job_states s n)"
      unfolding ready_def by metis
    moreover from this(2) have "bad (job_states s' n)" unfolding bad_def by (elim disjE) (simp_all add: over)
    ultimately show "\<exists>n \<in> job_needs s' (j_id j'). bad (job_states s' n)" by blast }
qed

lemma ready_same_views:
  assumes "ready s" and "linked s" and "evolves s s'" and views: "\<And>R. view R s' = view R s"
  shows "ready s'"
proof (rule ready_kept [OF assms(1-3)])
  fix j' assume "j' \<in> set (t_jobs s')"
  then have "(j_id j', phase (j_state j')) \<in> set (view (j_run_id j') s)"
    unfolding views [symmetric] by (auto simp: view_def in_run_jobs)
  then obtain j where "j \<in> set (t_jobs s)" "j_id j = j_id j'" "phase (j_state j') = phase (j_state j)"
    by (auto simp: view_def in_run_jobs)
  then show "\<exists>j \<in> set (t_jobs s). j_id j = j_id j' \<and> (released (j_state j') \<longrightarrow> released (j_state j)) \<and>
      (j_state j' = JobSkipped \<longrightarrow> j_state j = JobSkipped)"
    by (intro bexI [of _ j]) (auto simp: phase_def released_def split: if_splits)
qed

lemma ready_advanced:
  assumes rd: "ready s" and lk: "linked s" and adv: "advanced R s s'"
  shows "ready s'"
  unfolding ready_def
proof
  fix j' assume j': "j' \<in> set (t_jobs s')"
  from adv have ev: "evolves s s'" and kept: "rows_kept R s s'" by (simp_all add: advanced_def)
  have dist': "distinct (map j_id (t_jobs s'))" using evolves_ids [OF ev] lk by (simp add: linked_def)
  have "list_all2 (\<lambda>j j'. j_id j' = j_id j \<and> (j_run_id j = R \<and> j_state j = JobPending \<or> j' = j)) (t_jobs s) (t_jobs s')"
    using ev kept job_steps_static unfolding evolves_def rows_kept_def by (simp add: list_all2_conv_all_nth)
  from list_all2_in_right [OF this j'] obtain j where j: "j \<in> set (t_jobs s)" "j_id j' = j_id j"
    and row: "j_run_id j = R \<and> j_state j = JobPending \<or> j' = j" by blast
  note needs = evolves_needs [OF ev] and over = evolves_over [OF ev lk]
  from row show "(released (j_state j') \<longrightarrow> (\<forall>n \<in> job_needs s' (j_id j'). job_states s' n = Some JobSucceeded)) \<and>
    (j_state j' = JobSkipped \<longrightarrow> (\<exists>n \<in> job_needs s' (j_id j'). bad (job_states s' n)))"
  proof
    assume "j' = j"
    with rd j over show ?thesis unfolding needs ready_def by (fastforce simp: bad_def)
  next
    assume p: "j_run_id j = R \<and> j_state j = JobPending"
    with adv j have "job_states s' (j_id j') = Some (next_state (job_states s') (job_needs s (j_id j)) JobPending)"
      unfolding advanced_def by metis
    then have "j_state j' = next_state (job_states s') (job_needs s' (j_id j')) JobPending"
      using job_states_at [OF dist' j'] needs j(2) by simp
    then show ?thesis by (auto simp: next_state_def released_def split: if_splits)
  qed
qed

lemma inv_same_views:
  assumes "store_inv s" and "evolves s s'" and views: "\<And>R. view R s' = view R s"
    and over: "list_all2 (\<lambda>r r'. r' = r \<or> \<not> run_over (r_state r) \<and> \<not> run_over (r_state r')) (t_runs s) (t_runs s')"
  shows "store_inv s'"
proof -
  have "ok_view (view (r_id r') s') (job_needs s') (r_state r')" if "r' \<in> set (t_runs s')" for r'
  proof -
    have "list_all2 (\<lambda>r r'. r_id r' = r_id r) (t_runs s) (t_runs s')"
      using evolves_runs [OF assms(2)] by (simp add: list_all2_conv_all_nth list_eq_iff_nth_eq)
    with over have "list_all2 (\<lambda>r r'. r_id r' = r_id r \<and> (r' = r \<or> \<not> run_over (r_state r) \<and> \<not> run_over (r_state r')))
        (t_runs s) (t_runs s')" by (simp add: list_all2_conv_all_nth)
    from list_all2_in_right [OF this that] obtain r where r: "r \<in> set (t_runs s)" "r_id r' = r_id r"
        "r' = r \<or> \<not> run_over (r_state r) \<and> \<not> run_over (r_state r')" by blast
    moreover have "ok_view (view (r_id r) s) (job_needs s) (r_state r)" using assms(1) r(1) by (simp add: store_inv_def)
    ultimately show ?thesis using ok_view_open views evolves_needs [OF assms(2)] by metis
  qed
  moreover have "base s'" using evolves_base [OF assms(2)] assms(1) by (simp add: store_inv_def)
  moreover have "ready s'"
    using ready_same_views [OF _ _ assms(2) views] assms(1) by (simp add: store_inv_def base_def)
  ultimately show ?thesis by (simp add: store_inv_def)
qed

lemma rows_kept_view:
  assumes "rows_kept R s s'" and "evolves s s'" and "Q \<noteq> R"
  shows "run_jobs Q s' = run_jobs Q s"
proof -
  have "list_all2 (\<lambda>j j'. j_run_id j' = j_run_id j \<and> (j_run_id j = R \<or> j' = j)) (t_jobs s) (t_jobs s')"
    using assms(1,2) job_steps_static unfolding rows_kept_def evolves_def
    by (auto simp: list_all2_conv_all_nth)
  then show ?thesis unfolding run_jobs_def using assms(3) by induction auto
qed

lemma advanced_view:
  assumes lk: "linked s" and adv: "advanced R s s'"
  shows "\<forall>v \<in> set (view R s'). snd v = JobPending \<longrightarrow>
    (\<forall>n \<in> job_needs s' (fst v). \<not> bad (map_of (view R s') n)) \<and>
    (\<exists>n \<in> job_needs s' (fst v). map_of (view R s') n \<noteq> Some JobSucceeded)"
proof (intro ballI impI)
  fix v assume v: "v \<in> set (view R s')" and pend: "snd v = JobPending"
  from adv have ev: "evolves s s'" by (simp add: advanced_def)
  from evolves_linked [OF ev lk] have lk': "linked s'" .
  then have dist': "distinct (map j_id (t_jobs s'))" by (simp add: linked_def)
  from v pend obtain q where q: "q \<in> set (run_jobs R s')" and fv: "fst v = j_id q" and qp: "j_state q = JobPending"
    by (auto simp: view_def)
  from evolves_run_row_back [OF ev q] obtain j where j: "j \<in> set (run_jobs R s)" "j_id q = j_id j" .
  from adv j have "job_states s' (j_id q) = Some (next_state (job_states s') (job_needs s (j_id q)) (j_state j))"
    by (simp add: advanced_def in_run_jobs)
  moreover have "job_states s' (j_id q) = Some JobPending"
    using job_states_at [OF dist', of q] q qp by (simp add: in_run_jobs)
  ultimately have "next_state (job_states s') (job_needs s' (j_id q)) (j_state j) = JobPending"
    using evolves_needs [OF ev] by simp
  then have "\<not> (\<exists>n \<in> job_needs s' (j_id q). bad (job_states s' n))"
      and "\<exists>n \<in> job_needs s' (j_id q). job_states s' n \<noteq> Some JobSucceeded"
    by (auto simp: next_state_def split: if_splits)
  with view_needs [OF lk' q] show "(\<forall>n \<in> job_needs s' (fst v). \<not> bad (map_of (view R s') n)) \<and>
    (\<exists>n \<in> job_needs s' (fst v). map_of (view R s') n \<noteq> Some JobSucceeded)"
    unfolding fv by auto
qed

text \<open>A transaction that changed jobs of one open run and then advanced it restores the invariant.\<close>

lemma inv_advanced:
  assumes base: "base s" and rd: "ready s" and adv: "advanced R s s'"
    and other: "\<And>r. r \<in> set (t_runs s) \<Longrightarrow> r_id r \<noteq> R \<Longrightarrow> ok_view (view (r_id r) s) (job_needs s) (r_state r)"
    and this_run: "\<And>r. r \<in> set (t_runs s) \<Longrightarrow> r_id r = R \<Longrightarrow> \<not> run_over (r_state r)"
  shows "store_inv s'"
proof -
  from adv have ev: "evolves s s'" and kept: "rows_kept R s s'" by (simp_all add: advanced_def)
  from base have lk: "linked s" by (simp add: base_def)
  define all_over where "all_over \<longleftrightarrow> (\<forall>j \<in> set (t_jobs s'). j_run_id j = R \<longrightarrow> isTerminal (j_state j))"
  define verdict where "verdict = run_verdict (j_state ` {j \<in> set (t_jobs s'). j_run_id j = R})"
  from adv obtain n where runs: "t_runs s' = (if all_over then over_rows R verdict n (t_runs s) else t_runs s)"
    unfolding advanced_def all_over_def verdict_def by blast
  have over_v: "run_over verdict" by (simp add: verdict_def run_verdict_def)
  have V: "snd ` set (view R s') = phase ` j_state ` {j \<in> set (t_jobs s'). j_run_id j = R}"
    by (simp add: view_def image_image run_jobs_def)
  have same_verdict: "run_verdict (snd ` set (view R s')) = verdict"
  proof -
    have "x \<in> phase ` S \<longleftrightarrow> x \<in> S" if "x = JobFailed \<or> x = JobCancelled" for x S
      using that by (auto simp: image_iff phase_def split: if_splits)
    then show ?thesis by (simp add: V verdict_def run_verdict_def)
  qed
  have all_view: "(\<forall>v \<in> set (view R s'). isTerminal (snd v)) \<longleftrightarrow> all_over"
    by (auto simp: view_def in_run_jobs all_over_def)
  have "ok_view (view (r_id r') s') (job_needs s') (r_state r')" if r': "r' \<in> set (t_runs s')" for r'
  proof (cases "r_id r' = R")
    case True
    have "r_state r' = verdict \<and> all_over \<or> \<not> run_over (r_state r') \<and> \<not> all_over"
    proof (cases all_over)
      case closing: True
      with r' runs obtain r where r: "r \<in> set (t_runs s)"
        and eq: "r' = (if r_id r = R \<and> \<not> run_over (r_state r) then run_state_row verdict n r else r)"
        by (auto simp: over_rows_def in_sql_update)
      from eq True have "r_id r = R" by (simp add: row_simps split: if_splits)
      with this_run [OF r] eq closing show ?thesis by (simp add: row_simps)
    next
      case False
      with r' runs True this_run [of r'] show ?thesis by simp
    qed
    with advanced_view [OF lk adv] all_view same_verdict over_v show ?thesis
      unfolding ok_view_def True by auto
  next
    case False
    from r' runs False have "r' \<in> set (t_runs s)"
      by (auto simp: over_rows_def in_sql_update row_simps split: if_splits)
    with other [OF this False] rows_kept_view [OF kept ev False] evolves_needs [OF ev] show ?thesis
      by (simp add: view_def)
  qed
  with evolves_base [OF ev base] ready_advanced [OF rd lk adv] show ?thesis by (simp add: store_inv_def)
qed

end
