(* ===== verification/Preserve.thy ===== *)
theory Preserve
  imports Invariant
begin

text \<open>
  Every transaction of the scheduler keeps the invariant. Claims, heartbeats and log batches
  are \<open>calm\<close>: they keep the view of every run. Completion, cancellation and the monitor's tick
  change the jobs of one open run and advance it. As consequences: an open run always has a job
  that is queued or running, so no run can get stuck.
\<close>


section \<open>Progress\<close>

lemma finite_dep_rel: "finite (dep_rel s)"
proof -
  have "dep_rel s = (\<lambda>d. (d_needs_job_id d, d_job_id d)) ` set (t_deps s)"
    by (auto simp: dep_rel_def job_needs_def)
  then show ?thesis by simp
qed

lemma inv_view_job:
  assumes "store_inv s" and "r \<in> set (t_runs s)" and "j \<in> set (run_jobs (r_id r) s)" and "j_state j = JobPending"
  shows "\<exists>k \<in> set (run_jobs (r_id r) s). j_id k \<in> job_needs s (j_id j) \<and> \<not> isTerminal (j_state k)"
proof -
  from assms(1,2) have ok: "ok_view (view (r_id r) s) (job_needs s) (r_state r)" and lk: "linked s"
    by (simp_all add: store_inv_def base_def)
  from assms(3) have v: "(j_id j, phase (j_state j)) \<in> set (view (r_id r) s)" by (simp add: view_def)
  with ok assms(4) have good: "\<forall>n \<in> job_needs s (j_id j). \<not> bad (map_of (view (r_id r) s) n)"
    and "\<exists>n \<in> job_needs s (j_id j). map_of (view (r_id r) s) n \<noteq> Some JobSucceeded"
    by (auto simp: ok_view_def phase_def)
  then obtain n where n: "n \<in> job_needs s (j_id j)" "map_of (view (r_id r) s) n \<noteq> Some JobSucceeded" by blast
  from assms(3) have j: "j \<in> set (t_jobs s)" "j_run_id j = r_id r" by (simp_all add: in_run_jobs)
  from linked_needs [OF lk j(1) n(1)] obtain k where k: "k \<in> set (t_jobs s)" "j_id k = n" "j_run_id k = j_run_id j" .
  then have kr: "k \<in> set (run_jobs (r_id r) s)" using j by (simp add: in_run_jobs)
  have "map_of (view (r_id r) s) n = Some (phase (j_state k))"
    using view_at [OF _ kr] lk k by (simp add: linked_def)
  with n good have "\<not> isTerminal (j_state k)" by (cases "j_state k") (auto simp: bad_def phase_def)
  with kr k n show ?thesis by blast
qed

lemma open_run_active:
  assumes "store_inv s" and "r \<in> set (t_runs s)" and "\<not> run_over (r_state r)"
  shows "\<exists>j \<in> set (t_jobs s). j_run_id j = r_id r \<and> (j_state j = JobQueued \<or> j_state j = JobRunning)"
proof (rule ccontr)
  define P where "P = {j_id j | j. j \<in> set (run_jobs (r_id r) s) \<and> j_state j = JobPending}"
  assume none: "\<not> ?thesis"
  then have pending: "j_state j = JobPending" if "j \<in> set (run_jobs (r_id r) s)" "\<not> isTerminal (j_state j)" for j
    using that by (cases "j_state j") (auto simp: in_run_jobs)
  from assms have "ok_view (view (r_id r) s) (job_needs s) (r_state r)" by (simp add: store_inv_def)
  with assms(3) obtain j where "j \<in> set (run_jobs (r_id r) s)" "\<not> isTerminal (j_state j)"
    by (auto simp: ok_view_def view_def)
  with pending have "j_id j \<in> P" by (auto simp: P_def)
  moreover have "wf (dep_rel s)" using assms(1) finite_dep_rel by (intro finite_acyclic_wf) (auto simp: store_inv_def base_def)
  ultimately obtain i where i: "i \<in> P" and least: "\<And>n. (n, i) \<in> dep_rel s \<Longrightarrow> n \<notin> P"
    by (metis wfE_min)
  then obtain k where "k \<in> set (run_jobs (r_id r) s)" "j_state k = JobPending" "i = j_id k" by (auto simp: P_def)
  with inv_view_job [OF assms(1,2)] obtain q where "q \<in> set (run_jobs (r_id r) s)" "j_id q \<in> job_needs s i"
      "\<not> isTerminal (j_state q)" by blast
  with pending least show False by (auto simp: P_def dep_rel_def)
qed


section \<open>Calm transactions\<close>

definition calm :: "store \<Rightarrow> store \<Rightarrow> bool" where
  "calm s s' \<longleftrightarrow> (\<forall>R. view R s' = view R s) \<and>
     list_all2 (\<lambda>r r'. r' = r \<or> \<not> run_over (r_state r) \<and> \<not> run_over (r_state r')) (t_runs s) (t_runs s')"

lemma calm_trans: "calm s t \<Longrightarrow> calm t u \<Longrightarrow> calm s u"
  unfolding calm_def by (auto intro: list_all2_trans [of _ _ _ "t_runs s" "t_runs t" "t_runs u", rotated])

interpretation calmness: state_order calm
  by unfold_locales (simp add: calm_def list_all2_refl, rule calm_trans)

abbreviation calms :: "'a stx \<Rightarrow> bool" where
  "calms \<equiv> tx_within calm"

lemmas calms_intros = calmness.within_return calmness.within_raise calmness.within_get calmness.within_if
  calmness.within_bind calmness.within_fold

lemma calm_same_tables: "t_jobs s' = t_jobs s \<Longrightarrow> t_runs s' = t_runs s \<Longrightarrow> calm s s'"
  by (simp add: calm_def view_def run_jobs_def list_all2_refl)

lemma inv_calm: "store_inv s \<Longrightarrow> evolves s s' \<Longrightarrow> calm s s' \<Longrightarrow> store_inv s'"
  by (rule inv_same_views) (auto simp: calm_def)

lemma calm_update_jobs:
  assumes "\<And>j. j \<in> set (t_jobs s) \<Longrightarrow> P j \<Longrightarrow> j_id (f j) = j_id j \<and> j_run_id (f j) = j_run_id j \<and> phase (j_state (f j)) = phase (j_state j)"
  shows "calm s (snd (update_jobs P f s))"
proof -
  have "map (\<lambda>j. (j_id j, phase (j_state j))) (filter (\<lambda>j. j_run_id j = R) (sql_update P f js)) =
      map (\<lambda>j. (j_id j, phase (j_state j))) (filter (\<lambda>j. j_run_id j = R) js)" if "set js \<subseteq> set (t_jobs s)" for R js
    using that assms by (induction js) auto
  then show ?thesis by (simp add: calm_def view_def run_jobs_def update_jobs_def list_all2_refl)
qed

lemma calms_reads [simp]:
  "calms Now" "calms (GetJob i)" "calms (GetRun i)" "calms ListQueuedJobs" "calms (ListJobs R)"
  "calms (LogBytes i a)" "calms (HasJobEvent R i t a)" "calms (event R i t d)" "calms (InsertLogChunk i a q x)"
  by (auto simp: tx_within_def Now_def GetJob_def GetRun_def ListQueuedJobs_def ListJobs_def LogBytes_def HasJobEvent_def
      event_def AppendEvent_def InsertLogChunk_def tx_bind_run intro!: calm_same_tables split: option.splits)

lemma calms_spec [simp]: "calms (jobSpec j)" "calms (specLabels j)"
proof -
  show "calms (jobSpec j)"
    by (cases "j_spec j") (simp_all only: jobSpec_def option.case calmness.within_raise calmness.within_return)
  then show "calms (specLabels j)" unfolding specLabels_def by (intro calms_intros)
qed

lemma calms_UpsertRunner [simp]: "calms (UpsertRunner r)"
  by (auto simp: tx_within_def UpsertRunner_def Now_def tx_bind_run Let_def intro!: calm_same_tables)

lemma calms_TouchRunner [simp]: "calms (TouchRunner r)"
  by (auto simp: tx_within_def TouchRunner_def UpsertRunner_def Now_def tx_bind_run Let_def intro!: calm_same_tables)

lemma calms_update_jobs:
  assumes "\<And>j. P j \<Longrightarrow> j_id (f j) = j_id j \<and> j_run_id (f j) = j_run_id j \<and> phase (j_state (f j)) = phase (j_state j)"
  shows "calms (update_jobs P f)"
  by (rule calmness.withinI) (rule calm_update_jobs, simp add: assms)

lemma calms_ClaimJob [simp]: "calms (ClaimJob i r l)"
  unfolding ClaimJob_def
  by (intro calms_intros calms_update_jobs calms_reads)
    (auto simp: row_simps calmness.within_raise calmness.within_return split: option.splits)

lemma calms_ExtendLease [simp]: "calms (ExtendLease i a r l)"
  unfolding ExtendLease_def by (rule calms_update_jobs) (simp add: row_simps)

lemma calms_RequeueJob [simp]: "calms (RequeueJob i a m)"
  unfolding RequeueJob_def by (intro calms_intros calms_update_jobs calms_reads) (simp add: row_simps)

lemma calms_RequestJobCancel [simp]: "calms (RequestJobCancel i c)"
  unfolding RequestJobCancel_def by (intro calms_intros calms_update_jobs calms_reads) (simp add: row_simps)

lemmas calms_job_writes = calms_ClaimJob calms_ExtendLease calms_RequeueJob calms_RequestJobCancel

lemma calms_start [simp]: "calms (SetRunState R RunPending RunRunning)"
proof -
  have "list_all2 (\<lambda>r r'. r' = r \<or> \<not> run_over (r_state r) \<and> \<not> run_over (r_state r')) rs
      (sql_update (\<lambda>r. r_id r = R \<and> r_state r = RunPending) (run_state_row RunRunning n) rs)" for rs n
    by (induction rs) (auto simp: row_simps)
  then show ?thesis
    by (auto simp: tx_within_def SetRunState_def tx_bind_run Now_def calm_def view_def run_jobs_def)
qed

lemma calms_claim_tx: "calms (claim_tx lease r)"
proof -
  have "calms (claim_loop lease r q)" for q
    by (induction q)
      (auto simp only: claim_loop.simps split: prod.splits
        intro!: calms_intros calms_reads calms_spec calms_job_writes calms_start)
  then show ?thesis unfolding claim_tx_def by (intro calms_intros calms_reads calms_UpsertRunner)
qed

lemma calms_heartbeat_tx: "calms (heartbeat_tx lease r refs)"
  unfolding heartbeat_tx_def heartbeat_job_def
  by (auto simp only: split: prod.splits intro!: calms_intros calms_reads calms_TouchRunner calms_job_writes)

lemma calms_append_tx: "calms (append_tx cap i a cs)"
  unfolding append_tx_def append_chunk_def Let_def
  by (auto simp only: split: prod.splits intro!: calms_intros calms_reads)


section \<open>Transactions that advance a run\<close>

text \<open>
  Only the rows with the given ids may change, and no run row; a job that was not released or
  skipped is not afterwards.
\<close>

definition settles :: "Job \<Rightarrow> Job \<Rightarrow> bool" where
  "settles j j' \<longleftrightarrow> j_id j' = j_id j \<and> j_run_id j' = j_run_id j \<and>
     (released (j_state j') \<longrightarrow> released (j_state j)) \<and> (j_state j' = JobSkipped \<longrightarrow> j_state j = JobSkipped)"

definition touches :: "string set \<Rightarrow> store \<Rightarrow> store \<Rightarrow> bool" where
  "touches I s s' \<longleftrightarrow> t_runs s' = t_runs s \<and>
     list_all2 (\<lambda>j j'. j' = j \<or> j_id j \<in> I \<and> settles j j') (t_jobs s) (t_jobs s')"

lemma touches_trans:
  assumes "touches I s t" and "touches I t u"
  shows "touches I s u"
proof -
  let ?Q = "\<lambda>j j'. j' = j \<or> j_id j \<in> I \<and> settles j j'"
  have "list_all2 ?Q (t_jobs s) (t_jobs u)"
    by (rule list_all2_trans [of ?Q ?Q ?Q, of "t_jobs s" "t_jobs t" "t_jobs u"])
      (use assms in \<open>auto simp: touches_def settles_def\<close>)
  with assms show ?thesis by (simp add: touches_def)
qed

interpretation touching: state_order "touches I"
  by unfold_locales (simp add: touches_def list_all2_refl, rule touches_trans)

lemmas touching_intros = touching.within_return touching.within_raise touching.within_get touching.within_if
  touching.within_bind touching.within_fold

lemma touching_same: "t_jobs s' = t_jobs s \<Longrightarrow> t_runs s' = t_runs s \<Longrightarrow> touches I s s'"
  by (simp add: touches_def list_all2_refl)

lemma touching_reads [simp]:
  "tx_within (touches I) Now" "tx_within (touches I) (event R i t d)"
  by (auto simp: tx_within_def Now_def event_def AppendEvent_def tx_bind_run intro!: touching_same)

lemma touching_update_jobs:
  assumes "\<And>j. P j \<Longrightarrow> j_id j \<in> I" and "\<And>j. P j \<Longrightarrow> settles j (f j)"
  shows "tx_within (touches I) (update_jobs P f)"
proof -
  have "list_all2 (\<lambda>j j'. j' = j \<or> j_id j \<in> I \<and> settles j j') js (sql_update P f js)" for js
    using assms by (induction js) auto
  then show ?thesis by (simp add: tx_within_def update_jobs_def touches_def)
qed

lemma touching_writes [simp]:
  "i \<in> I \<Longrightarrow> fs \<noteq> JobSkipped \<Longrightarrow> tx_within (touches I) (FinishJob i a fs k c m)" "i \<in> I \<Longrightarrow> tx_within (touches I) (RequeueJob i a m)"
  "i \<in> I \<Longrightarrow> tx_within (touches I) (CancelJob i m)" "i \<in> I \<Longrightarrow> tx_within (touches I) (RequestJobCancel i rs)"
  unfolding FinishJob_def RequeueJob_def CancelJob_def RequestJobCancel_def
  by (intro touching_intros touching_reads touching_update_jobs; auto simp: row_simps settles_def released_def)+

lemma touches_run_jobs:
  assumes "touches I s s'" and "linked s" and "\<And>j. j \<in> set (t_jobs s) \<Longrightarrow> j_id j \<in> I \<Longrightarrow> j_run_id j = R" and "Q \<noteq> R"
  shows "run_jobs Q s' = run_jobs Q s"
proof -
  have "filter (\<lambda>j. j_run_id j = Q) ks = filter (\<lambda>j. j_run_id j = Q) js"
    if "list_all2 (\<lambda>j j'. j' = j \<or> j_id j \<in> I \<and> settles j j') js ks"
      and "\<forall>j \<in> set js. j_id j \<in> I \<longrightarrow> j_run_id j = R" for js ks
    using that assms(4) by induction (auto simp: settles_def)
  with assms show ?thesis unfolding touches_def run_jobs_def by blast
qed

text \<open>After a change to jobs of one open run, \<open>advance\<close> succeeds and restores the invariant.\<close>

lemma inv_then_advance:
  assumes store_inv: "store_inv s" and ev: "evolves s s1" and ts: "touches I s s1"
    and I: "\<And>j. j \<in> set (t_jobs s) \<Longrightarrow> j_id j \<in> I \<Longrightarrow> j_run_id j = r_id run"
    and run: "run \<in> set (t_runs s)" "\<not> run_over (r_state run)"
  shows "\<exists>tr' s2. advance (r_id run) tr s1 = (Inr tr', s2) \<and> advanced (r_id run) s1 s2 \<and> store_inv s2"
proof -
  from store_inv have base: "base s" and lk: "linked s" by (simp_all add: store_inv_def base_def)
  from evolves_base [OF ev base] have base1: "base s1" .
  from ts have runs: "t_runs s1 = t_runs s" by (simp add: touches_def)
  have "linked s1" using base1 by (simp add: base_def)
  moreover have "r_id run \<in> r_id ` set (t_runs s1)" using run runs by simp
  ultimately obtain tr' s2 where adv: "advance (r_id run) tr s1 = (Inr tr', s2)" "advanced (r_id run) s1 s2"
    using advance_advanced by blast
  have "ready s1"
  proof (rule ready_kept [OF _ lk ev])
    show "ready s" using store_inv by (simp add: store_inv_def)
    show "\<exists>j \<in> set (t_jobs s). j_id j = j_id j' \<and> (released (j_state j') \<longrightarrow> released (j_state j)) \<and>
        (j_state j' = JobSkipped \<longrightarrow> j_state j = JobSkipped)" if "j' \<in> set (t_jobs s1)" for j'
    proof -
      have "list_all2 (\<lambda>j j'. j' = j \<or> j_id j \<in> I \<and> settles j j') (t_jobs s) (t_jobs s1)"
        using ts by (simp add: touches_def)
      from list_all2_in_right [OF this that] obtain j where "j \<in> set (t_jobs s)" "j' = j \<or> settles j j'" by blast
      then show ?thesis by (intro bexI [of _ j]) (auto simp: settles_def)
    qed
  qed
  have "store_inv s2"
  proof (rule inv_advanced [OF base1 \<open>ready s1\<close> adv(2)])
    fix r assume r: "r \<in> set (t_runs s1)"
    { assume "r_id r \<noteq> r_id run"
      then have "view (r_id r) s1 = view (r_id r) s"
        using touches_run_jobs [OF ts lk I] by (simp add: view_def)
      then show "ok_view (view (r_id r) s1) (job_needs s1) (r_state r)"
        using store_inv r runs evolves_needs [OF ev] by (simp add: store_inv_def) }
    { assume "r_id r = r_id run"
      moreover have "distinct (map r_id (t_runs s))" using lk by (simp add: linked_def)
      ultimately have "r = run" using r run runs distinct_keys_eq by metis
      with run show "\<not> run_over (r_state r)" by simp }
  qed
  with adv show ?thesis by blast
qed

lemma running_run_open:
  assumes "store_inv s" and "job \<in> set (t_jobs s)" and "\<not> isTerminal (j_state job)"
  obtains run where "run \<in> set (t_runs s)" and "r_id run = j_run_id job" and "\<not> run_over (r_state run)"
proof -
  from assms have "j_run_id job \<in> r_id ` set (t_runs s)" by (simp add: store_inv_def base_def linked_def)
  then obtain run where run: "run \<in> set (t_runs s)" "r_id run = j_run_id job" by auto
  have "ok_view (view (r_id run) s) (job_needs s) (r_state run)" using assms(1) run(1) by (simp add: store_inv_def)
  moreover have "(j_id job, phase (j_state job)) \<in> set (view (r_id run) s)"
    using assms(2) run by (simp add: view_def in_run_jobs)
  ultimately have "\<not> run_over (r_state run)" using assms(3) by (auto simp: ok_view_def)
  with run that show ?thesis by blast
qed

lemma inv_distinct: "store_inv s \<Longrightarrow> distinct (map j_id (t_jobs s))"
  by (simp add: store_inv_def base_def linked_def)

lemma one_job:
  assumes "store_inv s" and "job \<in> set (t_jobs s)" and "j \<in> set (t_jobs s)" and "j_id j \<in> {j_id job}"
  shows "j_run_id j = j_run_id job"
proof -
  from assms(4) have "j_id j = j_id job" by simp
  with distinct_keys_eq [OF inv_distinct [OF assms(1)] assms(3,2)] show ?thesis by simp
qed

lemma complete_write_touches: "tx_within (touches {j_id job}) (complete_write job a v res tr)"
  unfolding complete_write_def finish_attempt_def
  by (cases v) (auto simp only: option.case intro!: touching_intros touching_writes touching_reads)

lemma complete_tx_inv:
  assumes store_inv: "store_inv s" and ok: "complete_tx i a v res s = (Inr x, s')"
  shows "store_inv s'"
proof -
  from ok obtain job where find: "find (\<lambda>j. j_id j = i) (t_jobs s) = Some job"
    by (auto simp: complete_tx_def GetJob_def tx_bind_run split: option.splits)
  then have job: "job \<in> set (t_jobs s)" and id: "j_id job = i" by (auto simp: find_Some_iff)
  show ?thesis
  proof (cases "j_state job = JobRunning \<and> j_attempt job = a")
    case False
    then have "s' = s" using ok find by (auto simp: complete_tx_def GetJob_def tx_bind_run split: if_splits)
    with store_inv show ?thesis by simp
  next
    case True
    from running_run_open [OF store_inv job] True obtain run where run: "run \<in> set (t_runs s)"
      "r_id run = j_run_id job" "\<not> run_over (r_state run)" by auto
    obtain w s1 where w: "complete_write job a v res no_transitions s = (w, s1)" by fastforce
    have ev: "evolves s s1" using complete_write_evolves [OF inv_distinct [OF store_inv] job, of a v res no_transitions] True w
      by simp
    have ts: "touches {j_id job} s s1" using touching.withinD [OF complete_write_touches w] .
    have I: "\<And>j. j \<in> set (t_jobs s) \<Longrightarrow> j_id j \<in> {j_id job} \<Longrightarrow> j_run_id j = r_id run"
      using one_job [OF store_inv job] run(2) by simp
    from ok find True w obtain tr where wtr: "w = Inr tr"
      by (cases w) (auto simp: complete_tx_def GetJob_def tx_bind_run)
    from inv_then_advance [OF store_inv ev ts I run(1,3), of tr] obtain tr' s2
      where "advance (j_run_id job) tr s1 = (Inr tr', s2)" and "store_inv s2" using run(2) by auto
    with ok find True w wtr show ?thesis
      by (auto simp: complete_tx_def GetJob_def tx_bind_run split: option.splits)
  qed
qed


lemma cancel_fold_touches: "tx_within (touches (j_id ` set js)) (tx_fold (cancel_one R) js tr)"
proof -
  have "tx_within (touches I) (tx_fold (cancel_one R) ks tr)" if "j_id ` set ks \<subseteq> I" for ks I
    using that
  proof (induction ks arbitrary: tr)
    case Nil
    then show ?case by (simp only: tx_fold.simps touching.within_return)
  next
    case (Cons k ks)
    then have "j_id k \<in> I" by simp
    then have "tx_within (touches I) (cancel_one R k tr)"
      unfolding cancel_one_def by (intro touching_intros touching_writes touching_reads)
    with Cons show ?case by (simp only: tx_fold.simps) (intro touching.within_bind, simp_all)
  qed
  then show ?thesis by blast
qed

lemma cancel_tx_inv:
  assumes store_inv: "store_inv s" and ok: "cancel_tx R s = (Inr x, s')"
  shows "store_inv s'"
proof -
  from ok obtain run where find: "find (\<lambda>r. r_id r = R) (t_runs s) = Some run"
    by (auto simp: cancel_tx_def GetRun_def tx_bind_run split: option.splits)
  then have run: "run \<in> set (t_runs s)" and R: "r_id run = R" by (auto simp: find_Some_iff)
  from ok find have open_run: "\<not> run_over (r_state run)"
    by (auto simp: cancel_tx_def GetRun_def tx_bind_run run_over_def split: if_splits)
  define m where "m = tx_bind (tx_fold (cancel_one R) (run_jobs R s) no_transitions) (\<lambda>tr.
    tx_bind (event R [] ''run.cancel_requested'' []) (\<lambda>_. tx_return tr))"
  obtain w s1 where w: "m s = (w, s1)" by fastforce
  have "keeps m" unfolding m_def by (intro keeps_bind keeps_fold keeps_cancel_one keeps_event keeps_return)
  then have ev: "evolves s s1" using keepsD w by blast
  have "tx_within (touches (j_id ` set (run_jobs R s))) m"
    unfolding m_def by (intro touching_intros cancel_fold_touches touching_reads)
  then have ts: "touches (j_id ` set (run_jobs R s)) s s1" using touching.withinD w by blast
  have I: "j_run_id j = r_id run" if "j \<in> set (t_jobs s)" "j_id j \<in> j_id ` set (run_jobs R s)" for j
  proof -
    from that(2) obtain job where "job \<in> set (t_jobs s)" "j_run_id job = R" "j_id j = j_id job" by (auto simp: in_run_jobs)
    with one_job [OF store_inv this(1) that(1)] R show ?thesis by simp
  qed
  define k where "k = (\<lambda>tr. tx_bind (advance R tr) (\<lambda>tr'. tx_bind (GetRun R) (\<lambda>out. tx_return (out, tr'))))"
  define again where "again \<longleftrightarrow> (\<exists>e \<in> set (take_limit 0 (sort_key e_id
    (filter (\<lambda>e. e_run_id e = R \<and> 0 < e_id e) (t_events s)))). e_type e = ''run.cancel_requested'')"
  have "GetRun R s = (Inr run, s)" using find by (simp add: GetRun_def)
  moreover have "\<not> (r_state run \<noteq> RunPending \<and> r_state run \<noteq> RunRunning)" using open_run by (simp add: run_over_def)
  ultimately have "cancel_tx R s = (if again then (Inr (run, no_transitions), s) else tx_bind m k s)"
    unfolding cancel_tx_def m_def k_def tx_bind_assoc
    by (auto simp: ListEvents_def ListJobs_def again_def run_jobs_def tx_bind_assoc cong: if_cong)
  with ok have "s' = s \<or> tx_bind m k s = (Inr x, s')" by (simp split: if_splits)
  then show ?thesis
  proof
    assume "s' = s"
    with store_inv show ?thesis by simp
  next
    assume "tx_bind m k s = (Inr x, s')"
    with w obtain tr where adv: "k tr s1 = (Inr x, s')" by (cases w) auto
    from inv_then_advance [OF store_inv ev ts I run open_run, of tr] obtain tr' s2
      where "advance R tr s1 = (Inr tr', s2)" and "store_inv s2" using R by auto
    with adv show ?thesis by (auto simp: k_def tx_bind_run GetRun_def split: option.splits)
  qed
qed

lemma expire_one_inv:
  assumes store_inv: "store_inv s" and job: "job \<in> set (t_jobs s)" and run_j: "j_state job = JobRunning"
    and ok: "expire_one now job a s = (Inr y, s')"
  shows "store_inv s'"
proof (cases "j_attempt job < j_max_attempts job \<and> null_int (j_cancel_requested_at job) = 0")
  case True
  obtain rep tr where a: "a = (rep, tr)" by (cases a)
  have "calms (expire_one now job a)" unfolding a expire_one_def prod.case using True
    by (simp only: retryable_def simp_thms if_True)
      (intro calms_intros calms_RequeueJob calms_reads)
  then have "calm s s'" using calmness.withinD ok by blast
  moreover have "evolves s s'" using expire_one_evolves [OF inv_distinct [OF store_inv] job, of now a] ok by simp
  ultimately show ?thesis using inv_calm [OF store_inv] by blast
next
  case False
  obtain rep tr where a: "a = (rep, tr)" by (cases a)
  define m where "m = tx_bind (FinishJob (j_id job) (j_attempt job) JobFailed (Some FailureLostRunner) None (lease_message job))
    (\<lambda>_. event (j_run_id job) (j_id job) ''job.failed'' (lost_detail job))"
  obtain w s1 where w: "m s = (w, s1)" by fastforce
  have "keeps m" unfolding m_def by (intro keeps_bind keeps_FinishJob keeps_event) (simp add: verdict_ok_def)
  then have ev: "evolves s s1" using keepsD w by blast
  have "tx_within (touches {j_id job}) m" unfolding m_def by (intro touching_intros touching_writes touching_reads) simp_all
  then have ts: "touches {j_id job} s s1" using touching.withinD w by blast
  from running_run_open [OF store_inv job] run_j obtain run where run: "run \<in> set (t_runs s)"
    "r_id run = j_run_id job" "\<not> run_over (r_state run)" by auto
  have I: "j_run_id j = r_id run" if "j \<in> set (t_jobs s)" "j_id j \<in> {j_id job}" for j
    using one_job [OF store_inv job that] run(2) by simp
  define tr1 where "tr1 = tr_finished JobFailed (null_int (j_started_at job)) now tr"
  from inv_then_advance [OF store_inv ev ts I run(1,3), of tr1] obtain tr' s2
    where adv: "advance (j_run_id job) tr1 s1 = (Inr tr', s2)" and "store_inv s2" using run(2) by auto
  have "expire_one now job a s = tx_bind m (\<lambda>_. tx_bind (advance (j_run_id job) tr1) (\<lambda>tr'.
      tx_return (rep\<lparr>tk_failed := tk_failed rep @ [j_id job]\<rparr>, tr'))) s"
    unfolding a expire_one_def m_def tr1_def prod.case tx_bind_assoc using False by auto
  with ok w adv \<open>store_inv s2\<close> show ?thesis by (cases w) auto
qed


lemma expire_fold_inv:
  assumes "store_inv s" and "set js \<subseteq> set (t_jobs s)" and "distinct (map j_id js)"
    and "\<forall>j \<in> set js. j_state j = JobRunning" and "tx_fold (expire_one now) js a s = (Inr y, s')"
  shows "store_inv s'"
  using assms
proof (induction js arbitrary: a s)
  case (Cons job js)
  from Cons.prems(5) obtain a1 s1 where one: "expire_one now job a s = (Inr a1, s1)"
    and rest: "tx_fold (expire_one now) js a1 s1 = (Inr y, s')" by (auto simp: tx_bind_eq_Inr)
  have "store_inv s1" by (rule expire_one_inv [OF Cons.prems(1) _ _ one]) (use Cons.prems in auto)
  moreover have "j \<in> set (t_jobs s1)" if "j \<in> set js" for j
  proof -
    from that Cons.prems(2,3,4) have "j_id j \<noteq> j_id job" and "j_state j = JobRunning" and "stays j s"
      by (auto simp: image_iff)
    then show ?thesis using tx_alwaysD [OF stays_expire_one _ one] by blast
  qed
  ultimately show ?case using Cons.IH [OF _ _ _ _ rest] Cons.prems by auto
qed simp

lemma backstop_fold_calm: "calms (tx_fold (backstop_one gr now) running rep)"
  unfolding backstop_one_def by (intro calms_intros calms_spec calms_RequestJobCancel calms_reads)

lemma backstop_fold_keeps: "keeps (tx_fold (backstop_one gr now) running rep)"
  unfolding backstop_one_def
  by (intro keeps_fold keeps_bind keeps_jobSpec keeps_if keeps_return keeps_RequestJobCancel keeps_event)

lemma calms_MarkRunnersOffline [simp]: "calms (MarkRunnersOffline b)"
  unfolding MarkRunnersOffline_def
  by (intro calms_intros) (simp add: tx_within_def calm_same_tables)

lemma tick_tx_inv:
  assumes store_inv: "store_inv s" and ok: "tick_tx g gr off s = (Inr y, s')"
  shows "store_inv s'"
proof -
  define s1 where "s1 = s\<lparr>reads := Suc (reads s)\<rparr>"
  define now where "now = clock s (reads s)"
  define expired where "expired = (if g \<le> now then
    sort_key j_lease_expires_at (filter (\<lambda>j. j_state j = JobRunning \<and> j_lease_expires_at j \<noteq> None
      \<and> null_int (j_lease_expires_at j) < now) (t_jobs s)) else [])"
  define k where "k = (\<lambda>(rep, tr). tx_bind ListRunningJobs (\<lambda>running.
     tx_bind (tx_fold (backstop_one gr now) running rep) (\<lambda>rep'.
     tx_bind (MarkRunnersOffline (now - off)) (\<lambda>offlineIDs.
     tx_return (rep'\<lparr>tk_runners_offline := offlineIDs\<rparr>, tr :: transitions, length expired)))))"
  have jobs1 [simp]: "t_jobs s1 = t_jobs s" by (simp add: s1_def)
  have "evolves s s1" and "calm s s1" by (simp_all add: s1_def calm_same_tables)
  then have inv1: "store_inv s1" by (rule inv_calm [OF store_inv])
  have "tick_tx g gr off s = tx_bind (tx_fold (expire_one now) expired (empty_report, no_transitions)) k s1"
    by (simp add: tick_tx_def Now_def ListExpiredLeases_def s1_def [symmetric] now_def [symmetric] expired_def k_def)
  with ok obtain a s2 where fold: "tx_fold (expire_one now) expired (empty_report, no_transitions) s1 = (Inr a, s2)"
    and rest: "k a s2 = (Inr y, s')" by (auto simp: tx_bind_eq_Inr)
  have "store_inv s2"
  proof (rule expire_fold_inv [OF inv1 _ _ _ fold])
    show "distinct (map j_id expired)"
      using inv_distinct [OF store_inv] unfolding expired_def by (simp add: distinct_map inj_on_def)
  qed (auto simp: expired_def)
  moreover have c: "calms (k a)" unfolding k_def
    by (cases a) (simp only: prod.case, intro calms_intros backstop_fold_calm calms_MarkRunnersOffline,
        simp add: ListRunningJobs_def calmness.within_get)
  moreover have e: "keeps (k a)" unfolding k_def
    by (cases a) (simp only: prod.case, intro keeps_bind backstop_fold_keeps keeps_MarkRunnersOffline keeps_lists keeps_return)
  ultimately show ?thesis using inv_calm calmness.withinD [OF c rest] keepsD [OF e rest] by blast
qed

end
