(* ===== verification/Artifact_Store.thy ===== *)
theory Artifact_Store
  imports Prelude "HOL-Library.List_Lexorder" "HOL-Library.Char_ord" "HOL-Library.Sublist"
begin

text \<open>
  internal/artifact and internal/artifact/local: object keys and their validation, and the
  filesystem store. The contract of the \<open>artifact.Store\<close> interface is the locale
  \<open>blob_store\<close>; the local store's operations, on a model of the directory tree, are shown to
  meet it. Keys of different attempts never collide and a validated path never leaves its prefix.
\<close>


section \<open>artifact.go: keys\<close>

text \<open>\<open>strconv.Itoa\<close> and the decimal value of a digit string.\<close>

definition digit :: "nat \<Rightarrow> char" where
  "digit d = char_of (48 + d)"

fun itoa_nat :: "nat \<Rightarrow> string" where
  "itoa_nat n = (if n < 10 then [digit n] else itoa_nat (n div 10) @ [digit (n mod 10)])"

declare itoa_nat.simps [simp del]

definition Itoa :: "int \<Rightarrow> string" where
  "Itoa n = (if n < 0 then CHR ''-'' # itoa_nat (nat (- n)) else itoa_nat (nat n))"

definition SourceKey :: "string \<Rightarrow> string" where
  "SourceKey runID = ''sources/'' @ runID @ ''.tar''"

definition JobPrefix :: "string \<Rightarrow> string \<Rightarrow> int \<Rightarrow> string" where
  "JobPrefix runID jobID attempt = ''runs/'' @ runID @ ''/jobs/'' @ jobID @ ''/'' @ Itoa attempt @ ''/''"

definition JobKey :: "string \<Rightarrow> string \<Rightarrow> int \<Rightarrow> string \<Rightarrow> string" where
  "JobKey runID jobID attempt path = JobPrefix runID jobID attempt @ path"

definition MaxPathLen :: nat where
  "MaxPathLen = 1024"

text \<open>\<open>strings.Split(p, "/")\<close>.\<close>

fun split_slash :: "string \<Rightarrow> string list" where
  "split_slash [] = [[]]"
| "split_slash (c # cs) =
     (if c = CHR ''/'' then [] # split_slash cs
      else case split_slash cs of [] \<Rightarrow> [[c]] | seg # segs \<Rightarrow> (c # seg) # segs)"

datatype path_error =
  PathEmpty | PathTooLong | PathForbidden | PathAbsolute | EmptySegment | DotSegment string

text \<open>
  The loop over the runes of the path tests ASCII values only, and an ASCII byte of a UTF-8
  string is always a rune of its own, so the test is the same on bytes.
\<close>

definition forbidden_char :: "char \<Rightarrow> bool" where
  "forbidden_char c = (let n = of_char c :: nat in n < 0x20 \<or> n = 0x7f \<or> n = 0x5c)"

fun check_segments :: "string list \<Rightarrow> path_error option" where
  "check_segments [] = None"
| "check_segments (seg # segs) =
     (if seg = [] then Some EmptySegment
      else if seg = ''.'' \<or> seg = ''..'' then Some (DotSegment seg)
      else check_segments segs)"

definition ValidatePath :: "string \<Rightarrow> path_error option" where
  "ValidatePath p =
     (if p = [] then Some PathEmpty
      else if MaxPathLen < length p then Some PathTooLong
      else if \<exists>c \<in> set p. forbidden_char c then Some PathForbidden
      else if prefix ''/'' p then Some PathAbsolute
      else check_segments (split_slash p))"

definition ValidateKey :: "string \<Rightarrow> path_error option" where
  "ValidateKey key = ValidatePath key"


subsection \<open>Segments\<close>

lemma split_slash_ne [simp]: "split_slash p \<noteq> []"
  by (cases p) (auto split: list.splits)

lemma split_slash_cons:
  "c \<noteq> CHR ''/'' \<Longrightarrow> split_slash (c # cs) = (c # hd (split_slash cs)) # tl (split_slash cs)"
  by (cases "split_slash cs") auto

lemma split_slash_append:
  assumes "CHR ''/'' \<notin> set a"
  shows "split_slash (a @ CHR ''/'' # b) = a # split_slash b"
  using assms by (induction a) auto

lemma split_slash_plain: "CHR ''/'' \<notin> set a \<Longrightarrow> split_slash a = [a]"
  by (induction a) auto

fun join_slash :: "string list \<Rightarrow> string" where
  "join_slash [] = []"
| "join_slash [seg] = seg"
| "join_slash (seg # segs) = seg @ CHR ''/'' # join_slash segs"

lemma join_split: "join_slash (split_slash p) = p"
proof (induction p)
  case (Cons c cs)
  then show ?case by (cases "split_slash cs"; cases "tl (split_slash cs)") auto
qed simp

lemma split_slash_inj: "split_slash p = split_slash q \<Longrightarrow> p = q"
  by (metis join_split)

lemma split_slash_segs: "seg \<in> set (split_slash p) \<Longrightarrow> CHR ''/'' \<notin> set seg"
proof (induction p arbitrary: seg)
  case (Cons c cs)
  then show ?case by (cases "split_slash cs") (auto split: if_splits)
qed simp

lemma check_segments_None:
  "check_segments segs = None \<longleftrightarrow> (\<forall>seg \<in> set segs. seg \<noteq> [] \<and> seg \<noteq> ''.'' \<and> seg \<noteq> ''..'')"
  by (induction segs) auto

lemma digit_value: "d < 10 \<Longrightarrow> (of_char (digit d) :: nat) = 48 + d"
  by (simp add: digit_def)

lemma digit_inj: "a < 10 \<Longrightarrow> b < 10 \<Longrightarrow> digit a = digit b \<Longrightarrow> a = b"
  by (metis add_left_cancel digit_value)

lemma itoa_nat_digits: "c \<in> set (itoa_nat n) \<Longrightarrow> \<exists>d < 10. c = digit d"
proof (induction n rule: itoa_nat.induct)
  case (1 n)
  have "\<exists>d < 10. digit (n mod 10) = digit d" by (rule exI [of _ "n mod 10"]) simp
  with 1 show ?case by (subst (asm) (2) itoa_nat.simps) (auto split: if_splits)
qed

lemma itoa_nat_low:
  assumes "(of_char c :: nat) < 48"
  shows "c \<notin> set (itoa_nat n)"
proof
  assume "c \<in> set (itoa_nat n)"
  then obtain d where "d < 10" "c = digit d" using itoa_nat_digits by blast
  with digit_value [of d] assms show False by simp
qed

lemma itoa_nat_ne [simp]: "itoa_nat n \<noteq> []"
  by (subst itoa_nat.simps) simp

lemma itoa_nat_inj: "itoa_nat m = itoa_nat n \<Longrightarrow> m = n"
proof (induction m arbitrary: n rule: itoa_nat.induct)
  case (1 m)
  show ?case
  proof (cases "m < 10 \<or> n < 10")
    case True
    have single: "(\<exists>x. itoa_nat k = [x]) \<longleftrightarrow> k < 10" for k
      by (subst itoa_nat.simps) (auto simp: Cons_eq_append_conv)
    from True single [of m] single [of n] 1(2) have "m < 10" "n < 10" by auto
    with 1(2) have "digit m = digit n" by (simp add: itoa_nat.simps)
    with \<open>m < 10\<close> \<open>n < 10\<close> show ?thesis using digit_inj by blast
  next
    case False
    with 1(2) have "itoa_nat (m div 10) @ [digit (m mod 10)] = itoa_nat (n div 10) @ [digit (n mod 10)]"
      by (metis itoa_nat.simps)
    then have "itoa_nat (m div 10) = itoa_nat (n div 10)" and "digit (m mod 10) = digit (n mod 10)" by simp_all
    with 1(1) False have "m div 10 = n div 10" and "m mod 10 = n mod 10"
      by (auto dest: digit_inj [rotated 2])
    then show ?thesis by (metis div_mult_mod_eq)
  qed
qed

lemma Itoa_chars: "CHR ''/'' \<notin> set (Itoa n)"
  by (simp add: Itoa_def itoa_nat_low)

lemma Itoa_inj: "Itoa m = Itoa n \<Longrightarrow> m = n"
proof -
  assume eq: "Itoa m = Itoa n"
  have head: "hd (itoa_nat k) \<noteq> CHR ''-''" for k
  proof
    assume "hd (itoa_nat k) = CHR ''-''"
    with hd_in_set [OF itoa_nat_ne, of k] have "CHR ''-'' \<in> set (itoa_nat k)" by simp
    then show False by (simp add: itoa_nat_low)
  qed
  have "(m < 0) = (n < 0)"
    using eq head [of "nat m"] head [of "nat n"] by (auto simp: Itoa_def split: if_splits) (metis list.sel(1))+
  with eq show ?thesis by (auto simp: Itoa_def split: if_splits dest!: itoa_nat_inj)
qed


subsection \<open>Keys are unambiguous\<close>

definition plain_id :: "string \<Rightarrow> bool" where
  "plain_id i \<longleftrightarrow> i \<noteq> [] \<and> CHR ''/'' \<notin> set i"

lemma JobKey_segments:
  assumes "CHR ''/'' \<notin> set r" and "CHR ''/'' \<notin> set j"
  shows "split_slash (JobKey r j a p) = [''runs'', r, ''jobs'', j, Itoa a] @ split_slash p"
proof -
  have "JobKey r j a p = ''runs'' @ CHR ''/'' # r @ CHR ''/'' # ''jobs'' @ CHR ''/'' # j @ CHR ''/'' # Itoa a @ CHR ''/'' # p"
    by (simp add: JobKey_def JobPrefix_def)
  then show ?thesis using assms Itoa_chars [of a] by (simp only: split_slash_append) (simp add: split_slash_append)
qed

lemma JobKey_inj:
  assumes "CHR ''/'' \<notin> set r \<union> set r'" and "CHR ''/'' \<notin> set j \<union> set j'" and "JobKey r j a p = JobKey r' j' a' p'"
  shows "r = r' \<and> j = j' \<and> a = a' \<and> p = p'"
proof -
  from assms(3) have "split_slash (JobKey r j a p) = split_slash (JobKey r' j' a' p')" by simp
  with assms(1,2) have "r = r'" "j = j'" "Itoa a = Itoa a'" "split_slash p = split_slash p'"
    by (simp_all add: JobKey_segments)
  then show ?thesis using Itoa_inj split_slash_inj by blast
qed

lemma SourceKey_not_JobKey: "SourceKey r \<noteq> JobKey r' j a p"
  by (simp add: SourceKey_def JobKey_def JobPrefix_def)

text \<open>
  \<open>filepath.Join(dir, key)\<close> cleans the joined path: empty and \<open>.\<close> segments vanish and
  \<open>..\<close> removes the segment before it.
\<close>

definition clean_step :: "string list \<Rightarrow> string \<Rightarrow> string list" where
  "clean_step out seg =
     (if seg = [] \<or> seg = ''.'' then out else if seg = ''..'' then butlast out else out @ [seg])"

definition join_clean :: "string list \<Rightarrow> string \<Rightarrow> string list" where
  "join_clean dir key = foldl clean_step dir (split_slash key)"

lemma clean_plain:
  "check_segments segs = None \<Longrightarrow> foldl clean_step dir segs = dir @ segs"
  by (induction segs arbitrary: dir) (auto simp: clean_step_def split: if_splits)

lemma ValidatePath_segments: "ValidatePath p = None \<Longrightarrow> check_segments (split_slash p) = None"
  by (simp add: ValidatePath_def split: if_splits)

lemma join_clean_valid: "ValidatePath p = None \<Longrightarrow> join_clean dir p = dir @ split_slash p"
  by (simp add: join_clean_def clean_plain ValidatePath_segments)



section \<open>The contract of artifact.Store\<close>

text \<open>
  Objects are byte strings under keys. A reader yields bytes and then ends or fails. \<open>Put\<close> is
  atomic: it either stores exactly the announced bytes or leaves every object as it was;
  \<open>Delete\<close> removes one object; \<open>List\<close> is faithful up to the names it hides.
\<close>

datatype read_error = ReadTooBig | ReadFailed string

record reader =
  rd_bytes :: "char list"
  rd_error :: "read_error option"

datatype art_error = ArtNotFound | ArtBadKey path_error | ArtRead read_error | ArtSize nat int | ArtIO | ArtBadPrefix

definition objects :: "(string \<Rightarrow> 's \<Rightarrow> art_error + char list) \<Rightarrow> 's \<Rightarrow> string \<rightharpoonup> char list" where
  "objects get s k = (case get k s of Inr b \<Rightarrow> Some b | Inl _ \<Rightarrow> None)"

locale blob_store =
  fixes ok :: "'s \<Rightarrow> bool"
    and put :: "string \<Rightarrow> reader \<Rightarrow> int \<Rightarrow> 's \<Rightarrow> (art_error + unit) \<times> 's"
    and get :: "string \<Rightarrow> 's \<Rightarrow> art_error + char list"
    and delete :: "string \<Rightarrow> 's \<Rightarrow> (art_error + unit) \<times> 's"
  assumes put_ok: "ok s \<Longrightarrow> ok (snd (put k r n s))"
    and delete_ok: "ok s \<Longrightarrow> ok (snd (delete k s))"
    and put_get: "ok s \<Longrightarrow> put k r n s = (Inr (), s') \<Longrightarrow> get k s' = Inr (rd_bytes r)"
    and put_size: "ok s \<Longrightarrow> put k r n s = (Inr (), s') \<Longrightarrow> 0 \<le> n \<Longrightarrow> int (length (rd_bytes r)) = n"
    and put_other: "ok s \<Longrightarrow> k' \<noteq> k \<Longrightarrow> get k' (snd (put k r n s)) = Inr b \<longleftrightarrow> get k' s = Inr b"
    and put_fail: "ok s \<Longrightarrow> put k r n s = (Inl e, s') \<Longrightarrow> get k' s' = Inr b \<longleftrightarrow> get k' s = Inr b"
    and delete_get: "ok s \<Longrightarrow> delete k s = (Inr (), s') \<Longrightarrow> get k s' \<noteq> Inr b"
    and delete_other: "ok s \<Longrightarrow> k' \<noteq> k \<Longrightarrow> get k' (snd (delete k s)) = Inr b \<longleftrightarrow> get k' s = Inr b"
    and delete_fail: "ok s \<Longrightarrow> delete k s = (Inl e, s') \<Longrightarrow> get k' s' = Inr b \<longleftrightarrow> get k' s = Inr b"
begin

text \<open>The store is a map from keys to bytes: \<open>Put\<close> and \<open>Delete\<close> are updates of it, or nothing.\<close>

lemma objects_Some: "objects get s k = Some b \<longleftrightarrow> get k s = Inr b"
  by (auto simp: objects_def split: sum.splits)

lemma objects_eqI: "(\<And>k b. get k s = Inr b \<longleftrightarrow> m k = Some b) \<Longrightarrow> objects get s = m"
  by (rule ext) (metis objects_Some not_Some_eq)

lemma put_objects:
  assumes "ok s" and "put k r n s = (res, s')"
  shows "objects get s' = (case res of Inr _ \<Rightarrow> (objects get s)(k \<mapsto> rd_bytes r) | Inl _ \<Rightarrow> objects get s)"
proof (cases res)
  case (Inl e)
  with assms put_fail [of s k r n e s'] show ?thesis by (auto intro!: objects_eqI simp: objects_Some)
next
  case (Inr x)
  then have put: "put k r n s = (Inr (), s')" using assms(2) by simp
  have "get k' s' = Inr b \<longleftrightarrow> ((objects get s)(k \<mapsto> rd_bytes r)) k' = Some b" for k' b
    using put_get [OF assms(1) put] put_other [OF assms(1), of k' k r n b] put by (auto simp: objects_Some)
  with Inr show ?thesis by (auto intro!: objects_eqI)
qed

lemma delete_objects:
  assumes "ok s" and "delete k s = (res, s')"
  shows "objects get s' = (case res of Inr _ \<Rightarrow> (objects get s)(k := None) | Inl _ \<Rightarrow> objects get s)"
proof (cases res)
  case (Inl e)
  with assms delete_fail [of s k e s'] show ?thesis by (auto intro!: objects_eqI simp: objects_Some)
next
  case (Inr x)
  then have del: "delete k s = (Inr (), s')" using assms(2) by simp
  have "get k' s' = Inr b \<longleftrightarrow> ((objects get s)(k := None)) k' = Some b" for k' b
    using delete_get [OF assms(1) del] delete_other [OF assms(1), of k' k b] del by (auto simp: objects_Some)
  with Inr show ?thesis by (auto intro!: objects_eqI)
qed

text \<open>What a client may rely on: a stored object survives any sequence of operations on other keys.\<close>

lemma survives_put_delete:
  assumes "ok s" and "get k s = Inr b" and "k1 \<noteq> k" and "k2 \<noteq> k"
  shows "get k (snd (delete k2 (snd (put k1 r n s)))) = Inr b"
  using assms put_other delete_other put_ok by metis

lemma put_then_delete:
  assumes "ok s" and "put k r n s = (Inr (), s1)" and "delete k s1 = (Inr (), s2)" and "k' \<noteq> k" and "get k' s = Inr b"
  shows "get k' s2 = Inr b \<and> get k s2 \<noteq> Inr c"
  using assms put_other delete_other put_ok delete_get by (metis snd_conv)

end


section \<open>local.go: the filesystem store\<close>

text \<open>
  The directory tree below the store's root: files and directories under their path segments.
  Failures of the disk itself are not modelled; a failing reader is. The temporary file of a
  \<open>Put\<close> is renamed or removed before the call returns, so it is never part of the state.
\<close>

record localfs =
  lf_files :: "(string list \<times> char list) list"
  lf_dirs :: "string list list"

definition lf_file :: "localfs \<Rightarrow> string list \<Rightarrow> char list option" where
  "lf_file s p = map_of (lf_files s) p"

definition local_path :: "string \<Rightarrow> art_error + string list" where
  "local_path key = (case ValidateKey key of Some e \<Rightarrow> Inl (ArtBadKey e) | None \<Rightarrow> Inr (split_slash key))"

text \<open>\<open>os.MkdirAll\<close> of the parent: fails when a proper prefix is a file, else adds what is missing.\<close>

definition parents :: "string list \<Rightarrow> string list list" where
  "parents p = filter (\<lambda>q. q \<noteq> [] \<and> q \<noteq> p) (prefixes p)"

definition blocked_by_file :: "string list \<Rightarrow> localfs \<Rightarrow> bool" where
  "blocked_by_file p s = (\<exists>q \<in> set (parents p). lf_file s q \<noteq> None)"

definition mkdirs :: "string list \<Rightarrow> localfs \<Rightarrow> localfs" where
  "mkdirs p s = s\<lparr>lf_dirs := lf_dirs s @ filter (\<lambda>q. q \<notin> set (lf_dirs s)) (parents p)\<rparr>"

text \<open>\<open>io.Copy\<close> from the reader, limited to one byte more than announced.\<close>

definition copied :: "reader \<Rightarrow> int \<Rightarrow> art_error + char list" where
  "copied r sz =
     (if 0 \<le> sz \<and> sz < int (length (rd_bytes r)) then Inr (take (nat (sz + 1)) (rd_bytes r))
      else case rd_error r of Some e \<Rightarrow> Inl (ArtRead e) | None \<Rightarrow> Inr (rd_bytes r))"

definition local_Put :: "string \<Rightarrow> reader \<Rightarrow> int \<Rightarrow> localfs \<Rightarrow> (art_error + unit) \<times> localfs" where
  "local_Put key r sz s =
     (case local_path key of
        Inl e \<Rightarrow> (Inl e, s)
      | Inr dst \<Rightarrow>
          if blocked_by_file dst s then (Inl ArtIO, s)
          else
            let s1 = mkdirs dst s in
            (case copied r sz of
               Inl e \<Rightarrow> (Inl e, s1)
             | Inr data \<Rightarrow>
                 if 0 \<le> sz \<and> int (length data) \<noteq> sz then (Inl (ArtSize (length data) sz), s1)
                 else if dst \<in> set (lf_dirs s1) then (Inl ArtIO, s1)
                 else (Inr (), s1\<lparr>lf_files := AList.update dst data (lf_files s1)\<rparr>)))"

definition local_Get :: "string \<Rightarrow> localfs \<Rightarrow> art_error + char list" where
  "local_Get key s =
     (case local_path key of
        Inl e \<Rightarrow> Inl e
      | Inr p \<Rightarrow>
          (case lf_file s p of
             Some data \<Rightarrow> Inr data
           | None \<Rightarrow> if p \<in> set (lf_dirs s) then Inl ArtNotFound
               else if blocked_by_file p s then Inl ArtIO else Inl ArtNotFound))"

text \<open>\<open>os.Remove\<close> removes a file or an empty directory.\<close>

definition local_Delete :: "string \<Rightarrow> localfs \<Rightarrow> (art_error + unit) \<times> localfs" where
  "local_Delete key s =
     (case local_path key of
        Inl e \<Rightarrow> (Inl e, s)
      | Inr p \<Rightarrow>
          if lf_file s p \<noteq> None then (Inr (), s\<lparr>lf_files := AList.delete p (lf_files s)\<rparr>)
          else if p \<in> set (lf_dirs s) then
            (if \<exists>q \<in> fst ` set (lf_files s) \<union> set (lf_dirs s). strict_prefix p q then (Inl ArtIO, s)
             else (Inr (), s\<lparr>lf_dirs := filter (\<lambda>q. q \<noteq> p) (lf_dirs s)\<rparr>))
          else if blocked_by_file p s then (Inl ArtIO, s)
          else (Inl ArtNotFound, s))"

definition tmpPrefix :: string where
  "tmpPrefix = ''.quarry-put-''"

definition contains_dots :: "string \<Rightarrow> bool" where
  "contains_dots p = sublist ''..'' p"

definition local_List :: "string \<Rightarrow> localfs \<Rightarrow> art_error + string list" where
  "local_List pre s =
     (if CHR 0x5C \<in> set pre \<or> contains_dots pre then Inl ArtBadPrefix
      else Inr (sort (filter (prefix pre)
        (map (join_slash \<circ> fst) (filter (\<lambda>f. \<not> prefix tmpPrefix (last (fst f))) (lf_files s))))))"

text \<open>The tree is consistent: one entry per file, no path both file and directory, parents are directories.\<close>

definition fs_ok :: "localfs \<Rightarrow> bool" where
  "fs_ok s \<longleftrightarrow> distinct (map fst (lf_files s)) \<and> (\<forall>p \<in> fst ` set (lf_files s). p \<notin> set (lf_dirs s)) \<and>
     (\<forall>p \<in> fst ` set (lf_files s) \<union> set (lf_dirs s). set (parents p) \<subseteq> set (lf_dirs s))"


lemma local_Get_Inr:
  "local_Get k s = Inr b \<longleftrightarrow> ValidateKey k = None \<and> lf_file s (split_slash k) = Some b"
  by (auto simp: local_Get_def local_path_def split: option.splits if_splits)

lemma parents_iff: "q \<in> set (parents p) \<longleftrightarrow> q \<noteq> [] \<and> strict_prefix q p"
  by (auto simp: parents_def strict_prefix_def)

lemma parents_trans: "q \<in> set (parents p) \<Longrightarrow> set (parents q) \<subseteq> set (parents p)"
  by (auto simp: parents_iff dest: prefix_order.less_trans)

lemma mkdirs_fields [simp]:
  "lf_files (mkdirs p s) = lf_files s" "set (lf_dirs (mkdirs p s)) = set (lf_dirs s) \<union> set (parents p)"
  "lf_file (mkdirs p s) q = lf_file s q"
  by (auto simp: mkdirs_def lf_file_def)

lemma lf_file_None: "lf_file s p = None \<longleftrightarrow> p \<notin> fst ` set (lf_files s)"
  by (simp add: lf_file_def map_of_eq_None_iff)

lemma mkdirs_ok:
  assumes "fs_ok s" and "\<not> blocked_by_file p s"
  shows "fs_ok (mkdirs p s)"
  using assms parents_trans [of _ p] unfolding fs_ok_def blocked_by_file_def lf_file_None
  by (auto simp: image_iff)

lemma put_file_ok:
  assumes "fs_ok s" and "p \<notin> set (lf_dirs s)" and "set (parents p) \<subseteq> set (lf_dirs s)"
  shows "fs_ok (s\<lparr>lf_files := AList.update p d (lf_files s)\<rparr>)"
proof -
  have "fst ` set (AList.update p d (lf_files s)) = insert p (fst ` set (lf_files s))"
    by (metis dom_map_of_conv_image_fst dom_fun_upd option.distinct(1) update_conv')
  with assms show ?thesis by (auto simp: fs_ok_def distinct_update)
qed

text \<open>The outcome of a \<open>Put\<close>: stored as announced, or every file as before.\<close>

lemma local_Put_cases:
  fixes k :: string and r :: reader and n :: int and s :: localfs
  obtains (stored) "local_Put k r n s = (Inr (), (mkdirs (split_slash k) s)\<lparr>lf_files :=
        AList.update (split_slash k) (rd_bytes r) (lf_files s)\<rparr>)" "ValidateKey k = None"
      "\<not> blocked_by_file (split_slash k) s" "split_slash k \<notin> set (lf_dirs (mkdirs (split_slash k) s))"
      "0 \<le> n \<longrightarrow> int (length (rd_bytes r)) = n" "rd_error r = None"
  | (failed) e where "local_Put k r n s = (Inl e, s) \<or>
      local_Put k r n s = (Inl e, mkdirs (split_slash k) s) \<and> \<not> blocked_by_file (split_slash k) s"
proof (cases "ValidateKey k = None \<and> \<not> blocked_by_file (split_slash k) s")
  case False
  then have "\<exists>e. local_Put k r n s = (Inl e, s)"
    by (cases "ValidateKey k") (auto simp: local_Put_def local_path_def)
  then show ?thesis using failed by blast
next
  case ok: True
  show ?thesis
  proof (cases "copied r n")
    case (Inl e)
    with ok show ?thesis by (intro failed [of e]) (simp add: local_Put_def local_path_def Let_def)
  next
    case (Inr data)
    show ?thesis
    proof (cases "0 \<le> n \<and> int (length data) \<noteq> n \<or> split_slash k \<in> set (lf_dirs (mkdirs (split_slash k) s))")
      case True
      with ok Inr have "\<exists>e. local_Put k r n s = (Inl e, mkdirs (split_slash k) s)"
        by (auto simp: local_Put_def local_path_def Let_def)
      with ok show ?thesis using failed by blast
    next
      case False
      have "\<not> (0 \<le> n \<and> n < int (length (rd_bytes r)))"
      proof
        assume n: "0 \<le> n \<and> n < int (length (rd_bytes r))"
        with Inr have "length data = nat (n + 1)" by (auto simp: copied_def)
        with n False show False by simp
      qed
      with Inr have "data = rd_bytes r \<and> rd_error r = None"
        by (auto simp: copied_def split: if_splits option.splits)
      with ok Inr False show ?thesis
        by (intro stored) (auto simp: local_Put_def local_path_def Let_def)
    qed
  qed
qed

lemma local_Put_ok: "fs_ok s \<Longrightarrow> fs_ok (snd (local_Put k r n s))"
proof (cases rule: local_Put_cases [of k r n s])
  case stored
  assume "fs_ok s"
  then have "fs_ok (mkdirs (split_slash k) s)" using mkdirs_ok stored(3) by blast
  from put_file_ok [OF this stored(4), of "rd_bytes r"] stored(1) show ?thesis by simp
next
  case (failed e)
  assume "fs_ok s"
  with failed mkdirs_ok show ?thesis by auto
qed

lemma local_Put_file:
  "lf_file (snd (local_Put k r n s)) p = (case fst (local_Put k r n s) of
     Inl _ \<Rightarrow> lf_file s p | Inr _ \<Rightarrow> if p = split_slash k then Some (rd_bytes r) else lf_file s p)"
  by (cases rule: local_Put_cases [of k r n s]) (auto simp: lf_file_def update_conv')

lemma delete_file_ok:
  assumes "fs_ok s"
  shows "fs_ok (s\<lparr>lf_files := AList.delete p (lf_files s)\<rparr>)"
proof -
  have keys: "fst ` set (AList.delete p (lf_files s)) = fst ` set (lf_files s) - {p}"
    by (metis delete_keys list.set_map set_removeAll)
  show ?thesis using assms by (auto simp: fs_ok_def keys delete_keys distinct_removeAll)
qed

lemma delete_dir_ok:
  assumes "fs_ok s" and "\<not> (\<exists>q \<in> fst ` set (lf_files s) \<union> set (lf_dirs s). strict_prefix p q)"
  shows "fs_ok (s\<lparr>lf_dirs := filter (\<lambda>q. q \<noteq> p) (lf_dirs s)\<rparr>)"
proof -
  have "q \<in> set (lf_dirs s) \<and> q \<noteq> p" if "x \<in> fst ` set (lf_files s) \<union> set (lf_dirs s)" "q \<in> set (parents x)" for x q
  proof
    show "q \<in> set (lf_dirs s)" using that assms(1) unfolding fs_ok_def by blast
    show "q \<noteq> p" using that assms(2) unfolding parents_iff by blast
  qed
  with assms(1) show ?thesis by (auto simp: fs_ok_def)
qed

lemma local_Delete_ok: "fs_ok s \<Longrightarrow> fs_ok (snd (local_Delete k s))"
  by (cases "local_path k") (simp_all add: local_Delete_def delete_file_ok delete_dir_ok)

lemma local_Delete_file:
  "lf_file (snd (local_Delete k s)) p = (case fst (local_Delete k s) of
     Inl _ \<Rightarrow> lf_file s p | Inr _ \<Rightarrow> if p = split_slash k then None else lf_file s p)"
  by (auto simp: local_Delete_def local_path_def lf_file_def delete_conv' split: option.splits)

interpretation local_store: blob_store fs_ok local_Put local_Get local_Delete
proof
  fix s k r n s' k' e b
  show "fs_ok s \<Longrightarrow> fs_ok (snd (local_Put k r n s))" by (rule local_Put_ok)
  show "fs_ok s \<Longrightarrow> fs_ok (snd (local_Delete k s))" by (rule local_Delete_ok)
  show "local_Put k r n s = (Inr (), s') \<Longrightarrow> local_Get k s' = Inr (rd_bytes r)"
    using local_Put_file [of k r n s "split_slash k"]
    by (cases rule: local_Put_cases [of k r n s]) (auto simp: local_Get_Inr)
  show "local_Put k r n s = (Inr (), s') \<Longrightarrow> 0 \<le> n \<Longrightarrow> int (length (rd_bytes r)) = n"
    by (cases rule: local_Put_cases [of k r n s]) auto
  show "k' \<noteq> k \<Longrightarrow> local_Get k' (snd (local_Put k r n s)) = Inr b \<longleftrightarrow> local_Get k' s = Inr b"
    using split_slash_inj [of k' k] by (auto simp: local_Get_Inr local_Put_file split: sum.splits)
  show "local_Put k r n s = (Inl e, s') \<Longrightarrow> local_Get k' s' = Inr b \<longleftrightarrow> local_Get k' s = Inr b"
    using local_Put_file [of k r n s "split_slash k'"] by (simp add: local_Get_Inr)
  show "local_Delete k s = (Inr (), s') \<Longrightarrow> local_Get k s' \<noteq> Inr b"
    using local_Delete_file [of k s "split_slash k"] by (simp add: local_Get_Inr)
  show "k' \<noteq> k \<Longrightarrow> local_Get k' (snd (local_Delete k s)) = Inr b \<longleftrightarrow> local_Get k' s = Inr b"
    using split_slash_inj [of k' k] by (auto simp: local_Get_Inr local_Delete_file split: sum.splits)
  show "local_Delete k s = (Inl e, s') \<Longrightarrow> local_Get k' s' = Inr b \<longleftrightarrow> local_Get k' s = Inr b"
    using local_Delete_file [of k s "split_slash k'"] by (simp add: local_Get_Inr)
qed


section \<open>Properties\<close>

text \<open>When the operations succeed, in terms of the tree alone.\<close>

lemma local_Put_accepts:
  "fst (local_Put k r n s) = Inr () \<longleftrightarrow> ValidateKey k = None \<and> rd_error r = None \<and>
     (0 \<le> n \<longrightarrow> int (length (rd_bytes r)) = n) \<and> split_slash k \<notin> set (lf_dirs s) \<and>
     (\<forall>q. q \<noteq> [] \<and> strict_prefix q (split_slash k) \<longrightarrow> lf_file s q = None)"
proof -
  have self: "split_slash k \<notin> set (parents (split_slash k))" by (simp add: parents_iff)
  have free: "\<not> blocked_by_file (split_slash k) s \<longleftrightarrow>
      (\<forall>q. q \<noteq> [] \<and> strict_prefix q (split_slash k) \<longrightarrow> lf_file s q = None)"
    by (auto simp: blocked_by_file_def parents_iff)
  show ?thesis unfolding free [symmetric] using self
    by (auto simp: local_Put_def local_path_def copied_def Let_def split: option.splits if_splits)
qed

lemma local_Delete_accepts:
  "fst (local_Delete k s) = Inr () \<longleftrightarrow> ValidateKey k = None \<and> (lf_file s (split_slash k) \<noteq> None \<or>
     split_slash k \<in> set (lf_dirs s) \<and>
     \<not> (\<exists>q \<in> fst ` set (lf_files s) \<union> set (lf_dirs s). strict_prefix (split_slash k) q))"
  by (simp add: local_Delete_def local_path_def split: option.split)

lemma local_Delete_objects:
  assumes "fs_ok s"
  shows "objects local_Get (snd (local_Delete k s)) = (objects local_Get s)(k := None)"
proof -
  obtain res s1 where del: "local_Delete k s = (res, s1)" by fastforce
  note step = local_store.delete_objects [OF assms del]
  have "objects local_Get s k = None" if "res = Inl e" for e
    using del that by (auto simp: objects_def local_Delete_def local_Get_def split: sum.splits option.splits if_splits)
  with step del show ?thesis by (cases res) (auto simp: fun_eq_iff)
qed


definition demo_tree :: localfs where
  "demo_tree = snd (local_Put ''a/b'' \<lparr>rd_bytes = ''old'', rd_error = None\<rparr> 3 \<lparr>lf_files = [], lf_dirs = []\<rparr>)"


text \<open>
  C23. Keys. For ids without a slash, a key that passes validation names a path below the prefix of its
  attempt, whatever the artifact's path says; two artifacts with the same key are the same
  artifact of the same attempt; and no artifact shares the key of a source bundle.
\<close>

theorem artifact_keys_contained:
  assumes "CHR ''/'' \<notin> set r \<union> set j \<union> set r' \<union> set j'"
  shows "(ValidateKey (JobKey r j a p) = None \<longrightarrow>
      join_clean dir (JobKey r j a p) = dir @ [''runs'', r, ''jobs'', j, Itoa a] @ split_slash p \<and>
      set (split_slash p) \<inter> {[], ''.'', ''..''} = {}) \<and>
    (JobKey r j a p = JobKey r' j' a' p' \<longleftrightarrow> r = r' \<and> j = j' \<and> a = a' \<and> p = p') \<and>
    SourceKey R \<noteq> JobKey r j a p"
proof -
  have segs: "split_slash (JobKey r j a p) = [''runs'', r, ''jobs'', j, Itoa a] @ split_slash p"
    using assms by (intro JobKey_segments) auto
  have "join_clean dir (JobKey r j a p) = dir @ [''runs'', r, ''jobs'', j, Itoa a] @ split_slash p \<and>
      set (split_slash p) \<inter> {[], ''.'', ''..''} = {}" if "ValidateKey (JobKey r j a p) = None"
  proof -
    have v: "ValidatePath (JobKey r j a p) = None" using that by (simp add: ValidateKey_def)
    have "\<forall>seg \<in> set (split_slash p). seg \<noteq> [] \<and> seg \<noteq> ''.'' \<and> seg \<noteq> ''..''"
      using ValidatePath_segments [OF v] unfolding segs check_segments_None by auto
    with join_clean_valid [OF v, of dir] segs show ?thesis by auto
  qed
  moreover have "JobKey r j a p = JobKey r' j' a' p' \<Longrightarrow> r = r' \<and> j = j' \<and> a = a' \<and> p = p'"
    using assms by (intro JobKey_inj) auto
  ultimately show ?thesis using SourceKey_not_JobKey [of R r j a p] by (intro conjI impI iffI) (simp_all only: not_False_eq_True)
qed

theorem artifact_keys_contained_witness:
  "join_clean [''data''] (JobKey ''run'' ''job'' 1 ''bin/app'') = [''data'', ''runs'', ''run'', ''jobs'', ''job'', ''1'', ''bin'', ''app''] \<and>
   JobKey ''run'' ''job'' 1 ''bin/app'' \<noteq> JobKey ''run'' ''job'' 11 ''bin/app''"
proof -
  have "ValidateKey (JobKey ''run'' ''job'' 1 ''bin/app'') = None" "split_slash ''bin/app'' = [''bin'', ''app'']" "Itoa 1 = ''1''"
    by code_simp+
  with artifact_keys_contained [of "''run''" "''job''" "''run''" "''job''" 1 "''bin/app''" "[''data'']" 11 "''bin/app''"] show ?thesis by simp
qed

end
