(* ===== verification/Api.thy ===== *)
theory Api
  imports Scheduler Artifact_Store
begin

text \<open>
  internal/api: the HTTP handlers over the store, the scheduler and the artifact store. A
  response is its status code and payload; the texts of error messages, the request ids and the
  log lines are left out. Decoding a request body (JSON, multipart) is the standard library's
  work: a handler starts from what it gave. \<open>newID\<close>, 16 random hex digits, is a parameter: the
  ids it returns, in order.
\<close>


section \<open>The server\<close>

record server =
  sv_sched :: Scheduler
  sv_artifacts :: localfs
  sv_token :: string

type_synonym 'a response = "nat \<times> 'a option"

definition MaxPipelineBytes :: nat where "MaxPipelineBytes = 2 ^ 20"

definition MaxSourceBytes :: nat where "MaxSourceBytes = 256 * 2 ^ 20"

definition MaxRunnerBodyBytes :: nat where "MaxRunnerBodyBytes = 64 * 2 ^ 10"

definition MaxLogBodyBytes :: nat where "MaxLogBodyBytes = 2 ^ 20"

definition MaxArtifactBytes :: int where "MaxArtifactBytes = 2 ^ 30"

text \<open>
  \<open>requireToken\<close>: the header is exactly the scheme, one space and the configured token, and a
  server without a token rejects everyone.
\<close>

definition requireToken :: "string \<Rightarrow> string option \<Rightarrow> bool" where
  "requireToken token header =
     (let h = (case header of None \<Rightarrow> [] | Some v \<Rightarrow> v) in
      prefix ''Bearer '' h \<and> token \<noteq> [] \<and> drop 7 h = token)"

definition withToken :: "server \<Rightarrow> string option \<Rightarrow> (server \<Rightarrow> 'a response \<times> server) \<Rightarrow> 'a response \<times> server" where
  "withToken sv header next =
     (if requireToken (sv_token sv) header then next sv else ((401, None), sv))"

text \<open>\<open>storeError\<close> and the error mapping shared by the fenced runner endpoints.\<close>

definition storeError :: "err \<Rightarrow> nat" where
  "storeError e = (if e = ErrNotFound then 404 else 500)"

definition isBadResult :: "err \<Rightarrow> bool" where
  "isBadResult e = (case e of InvalidResultError _ \<Rightarrow> True | _ \<Rightarrow> False)"

definition runner_status :: "err \<Rightarrow> nat" where
  "runner_status e =
     (if e = ErrFenced then 409 else if e = ErrNotFound then 404 else if isBadResult e then 400 else 500)"

text \<open>What \<open>decodeBody\<close> found: a value, a body over the limit, or one that is not JSON.\<close>

datatype 'a body = BodyOK 'a | BodyTooBig | BodyBad

definition decodeBody :: "'a body \<Rightarrow> nat + 'a" where
  "decodeBody b = (case b of BodyOK v \<Rightarrow> Inr v | BodyTooBig \<Rightarrow> Inl 413 | BodyBad \<Rightarrow> Inl 400)"


section \<open>submit.go\<close>

definition TriggerAPI :: string where
  "TriggerAPI = ''api''"

text \<open>\<open>json.Marshal\<close> of a job fails on a cpu that is not a finite number and is faithful otherwise.\<close>

definition float_finite :: "float64 \<Rightarrow> bool" where
  "float_finite x = (case x of Fin _ \<Rightarrow> True | _ \<Rightarrow> False)"

definition marshal_job :: "PJob \<Rightarrow> err + PJob" where
  "marshal_job pj = (if float_finite (res_cpu (pj_resources pj)) then Inr pj else Inl (EncodeJob (pj_name pj)))"

definition job_init :: "string \<Rightarrow> PJob \<Rightarrow> bool \<Rightarrow> int \<Rightarrow> JobInit" where
  "job_init i pj isRoot maxA = \<lparr>ji_id = i, ji_name = pj_name pj, ji_spec = Some pj,
     ji_state = Some (if isRoot then JobQueued else JobPending), ji_attempt = 0, ji_max_attempts = maxA,
     ji_runner_id = [], ji_lease_expires_at = 0, ji_failure_kind = None, ji_exit_code = None, ji_error = [],
     ji_queued_at = 0, ji_started_at = 0, ji_finished_at = 0\<rparr>"

text \<open>The first loop: one job row per pipeline job and the ids by name. The \<open>k\<close>-th call of \<open>newID\<close> gives \<open>newID k\<close>.\<close>

fun submit_jobs :: "(nat \<Rightarrow> string) \<Rightarrow> nat \<Rightarrow> string set \<Rightarrow> int \<Rightarrow> PJob list \<Rightarrow> (string \<times> string) list
    \<Rightarrow> err + (JobInit list \<times> (string \<times> string) list)" where
  "submit_jobs newID k roots maxA [] ids = Inr ([], ids)"
| "submit_jobs newID k roots maxA (pj # pjs) ids =
     (case marshal_job pj of
        Inl e \<Rightarrow> Inl e
      | Inr spec \<Rightarrow>
          (case submit_jobs newID (Suc k) roots maxA pjs (AList.update (pj_name pj) (newID k) ids) of
             Inl e \<Rightarrow> Inl e
           | Inr (js, ids') \<Rightarrow> Inr (job_init (newID k) spec (pj_name pj \<in> roots) maxA # js, ids')))"

definition submit_deps :: "(string \<times> string) list \<Rightarrow> PJob list \<Rightarrow> JobDep list" where
  "submit_deps ids pjs = concat (map (\<lambda>pj. map (\<lambda>need.
     \<lparr>d_job_id = get_str ids (pj_name pj), d_needs_job_id = get_str ids need\<rparr>) (pj_needs pj)) pjs)"

definition run_init :: "string \<Rightarrow> string \<Rightarrow> RunInit" where
  "run_init runID src = \<lparr>ri_id = runID, ri_source_key = [], ri_pipeline_yaml = src, ri_commit_sha = [],
     ri_ref = [], ri_trigger = TriggerAPI, ri_state = Some RunPending, ri_created_at = 0, ri_started_at = 0,
     ri_finished_at = 0\<rparr>"

definition submit_tx :: "string \<Rightarrow> Pipeline \<Rightarrow> string \<Rightarrow> JobInit list \<Rightarrow> JobDep list \<Rightarrow> (Run \<times> Job list) stx" where
  "submit_tx runID p src js deps =
     tx_bind (CreateRun (run_init runID src) js deps) (\<lambda>rows.
     tx_bind (AppendEvent runID [] ''run.created''
       [(''jobs'', JInt (int (length js))), (''roots'', JStrs (Roots p))]) (\<lambda>_.
     tx_return rows))"

definition submitRun :: "(nat \<Rightarrow> string) \<Rightarrow> string \<Rightarrow> Pipeline \<Rightarrow> string \<Rightarrow> int \<Rightarrow> (Run \<times> Job list) stx" where
  "submitRun newID runID p src maxA s =
     (case submit_jobs newID 0 (set (Roots p)) maxA (p_jobs p) [] of
        Inl e \<Rightarrow> (Inl e, s)
      | Inr (js, ids) \<Rightarrow> Tx (submit_tx runID p src js (submit_deps ids (p_jobs p))) s)"


section \<open>api.go: submission\<close>

text \<open>
  The parts of a multipart body as the reader yields them: a form field with what reading it
  gave, or an error between parts. The pipeline part is read up to one byte over its limit.
\<close>

datatype part =
    PipelinePart reader
  | SourcePart reader
  | OtherPart string
  | BrokenPart read_error

datatype submit_body = RawBody reader | Multipart "part list" | NotMultipart

text \<open>\<open>io.ReadAll\<close> of \<open>http.MaxBytesReader\<close> and of \<open>io.LimitReader\<close>.\<close>

definition read_max :: "nat \<Rightarrow> reader \<Rightarrow> read_error + string" where
  "read_max limit r =
     (if limit < length (rd_bytes r) then Inl ReadTooBig
      else case rd_error r of Some e \<Rightarrow> Inl e | None \<Rightarrow> Inr (rd_bytes r))"

definition read_limit :: "nat \<Rightarrow> reader \<Rightarrow> read_error + string" where
  "read_limit n r =
     (if n \<le> length (rd_bytes r) then Inr (take n (rd_bytes r))
      else case rd_error r of Some e \<Rightarrow> Inl e | None \<Rightarrow> Inr (rd_bytes r))"

text \<open>The result of reading a submission: the document or an error, and whether a bundle was written.\<close>

fun readMultipartSubmit :: "string \<Rightarrow> part list \<Rightarrow> string option \<Rightarrow> bool \<Rightarrow> localfs
    \<Rightarrow> (read_error + string) \<times> bool \<times> localfs" where
  "readMultipartSubmit runID [] src stored fs =
     (case src of None \<Rightarrow> (Inl (ReadFailed ''multipart body has no pipeline part''), stored, fs)
      | Some v \<Rightarrow> (Inr v, stored, fs))"
| "readMultipartSubmit runID (p # ps) src stored fs =
     (case p of
        BrokenPart e \<Rightarrow> (Inl e, stored, fs)
      | PipelinePart r \<Rightarrow>
          (case read_limit (MaxPipelineBytes + 1) r of
             Inl e \<Rightarrow> (Inl e, stored, fs)
           | Inr v \<Rightarrow>
               if MaxPipelineBytes < length v then (Inl ReadTooBig, stored, fs)
               else readMultipartSubmit runID ps (Some v) stored fs)
      | SourcePart r \<Rightarrow>
          (case local_Put (SourceKey runID) r (- 1) fs of
             (Inl (ArtRead e), fs') \<Rightarrow> (Inl e, True, fs')
           | (Inl _, fs') \<Rightarrow> (Inl (ReadFailed ''put''), True, fs')
           | (Inr _, fs') \<Rightarrow> readMultipartSubmit runID ps src True fs')
      | OtherPart _ \<Rightarrow> (Inl (ReadFailed ''unexpected multipart field''), stored, fs))"

definition read_submit :: "string \<Rightarrow> submit_body \<Rightarrow> localfs \<Rightarrow> (read_error + string) \<times> bool \<times> localfs" where
  "read_submit runID b fs =
     (case b of
        RawBody r \<Rightarrow> (read_max MaxPipelineBytes r, False, fs)
      | Multipart ps \<Rightarrow> readMultipartSubmit runID ps None False fs
      | NotMultipart \<Rightarrow> (Inl (ReadFailed ''multipart''), False, fs))"

text \<open>\<open>discard\<close> is best effort: whatever \<open>Delete\<close> says is logged and dropped.\<close>

definition discard :: "string \<Rightarrow> localfs \<Rightarrow> localfs" where
  "discard key fs = snd (local_Delete key fs)"

definition discard_if :: "bool \<Rightarrow> string \<Rightarrow> localfs \<Rightarrow> localfs" where
  "discard_if stored key fs = (if stored then discard key fs else fs)"

definition count_queued :: "Job list \<Rightarrow> metrics \<Rightarrow> metrics" where
  "count_queued js m = m\<lparr>m_jobs_total := (m_jobs_total m)
     (JobQueued := m_jobs_total m JobQueued + length (filter (\<lambda>j. j_state j = JobQueued) js))\<rparr>"

text \<open>\<open>newID 0\<close> is the run's id, the following ones the jobs'. The YAML decoder is a parameter.\<close>

definition handleSubmitRun :: "(string \<Rightarrow> yaml_result) \<Rightarrow> (nat \<Rightarrow> string) \<Rightarrow> submit_body \<Rightarrow> server
    \<Rightarrow> (Run \<times> Job list) response \<times> server" where
  "handleSubmitRun decode newID b sv =
     (let runID = newID 0; key = SourceKey runID in
      case read_submit runID b (sv_artifacts sv) of (r, stored, fs) \<Rightarrow>
        (case r of
           Inl ReadTooBig \<Rightarrow> ((413, None), sv\<lparr>sv_artifacts := discard_if stored key fs\<rparr>)
         | Inl _ \<Rightarrow> ((400, None), sv\<lparr>sv_artifacts := discard_if stored key fs\<rparr>)
         | Inr src \<Rightarrow>
             (case Parse decode src of
                Inl _ \<Rightarrow> ((400, None), sv\<lparr>sv_artifacts := discard_if stored key fs\<rparr>)
              | Inr p \<Rightarrow>
                  (case submitRun (newID \<circ> Suc) runID p src (maxAttempts (sv_sched sv)) (st (sv_sched sv)) of
                     (Inl _, s') \<Rightarrow> ((500, None), sv\<lparr>sv_sched := (sv_sched sv)\<lparr>st := s'\<rparr>,
                         sv_artifacts := discard_if stored key fs\<rparr>)
                   | (Inr (run, js), s') \<Rightarrow> ((201, Some (run, js)),
                       sv\<lparr>sv_sched := (sv_sched sv)\<lparr>st := s', mx := count_queued js (mx (sv_sched sv))\<rparr>,
                          sv_artifacts := fs\<rparr>)))))"



section \<open>api.go: reading\<close>

text \<open>A query parameter or path value that is absent, a number, or not a number.\<close>

datatype param = Absent | Number int | NotNumber

definition listed :: "('e + 'a list) \<times> 's \<Rightarrow> 'a list" where
  "listed r = (case fst r of Inr xs \<Rightarrow> xs | Inl _ \<Rightarrow> [])"

definition handleListRuns :: "param \<Rightarrow> server \<Rightarrow> Run list response \<times> server" where
  "handleListRuns limit sv =
     (case limit of
        NotNumber \<Rightarrow> ((400, None), sv)
      | Number n \<Rightarrow>
          if n < 0 then ((400, None), sv) else ((200, Some (listed (ListRuns n (st (sv_sched sv))))), sv)
      | Absent \<Rightarrow> ((200, Some (listed (ListRuns 50 (st (sv_sched sv))))), sv))"

definition handleGetRun :: "string \<Rightarrow> server \<Rightarrow> (Run \<times> Job list) response \<times> server" where
  "handleGetRun i sv =
     (case tx_bind (GetRun i) (\<lambda>run. tx_bind (ListJobs i) (\<lambda>js. tx_return (run, js))) (st (sv_sched sv)) of
        (Inl e, _) \<Rightarrow> ((storeError e, None), sv)
      | (Inr d, _) \<Rightarrow> ((200, Some d), sv))"

definition handleCancelRun :: "string \<Rightarrow> server \<Rightarrow> (Run \<times> Job list) response \<times> server" where
  "handleCancelRun i sv =
     (case CancelRun (sv_sched sv) i of
        (Inl e, sc) \<Rightarrow> ((if e = ErrRunFinished then 409 else storeError e, None), sv\<lparr>sv_sched := sc\<rparr>)
      | (Inr run, sc) \<Rightarrow>
          (case fst (ListJobs i (st sc)) of
             Inl _ \<Rightarrow> ((500, None), sv\<lparr>sv_sched := sc\<rparr>)
           | Inr js \<Rightarrow> ((202, Some (run, js)), sv\<lparr>sv_sched := sc\<rparr>)))"

definition handleListEvents :: "string \<Rightarrow> param \<Rightarrow> server \<Rightarrow> Event list response \<times> server" where
  "handleListEvents i after sv =
     (case fst (GetRun i (st (sv_sched sv))) of
        Inl e \<Rightarrow> ((storeError e, None), sv)
      | Inr _ \<Rightarrow>
          (case after of
             NotNumber \<Rightarrow> ((400, None), sv)
           | Number n \<Rightarrow>
               if n < 0 then ((400, None), sv) else ((200, Some (listed (ListEvents i n 0 (st (sv_sched sv))))), sv)
           | Absent \<Rightarrow> ((200, Some (listed (ListEvents i 0 0 (st (sv_sched sv))))), sv)))"

definition handleGetJob :: "string \<Rightarrow> server \<Rightarrow> Job response \<times> server" where
  "handleGetJob i sv =
     (case fst (GetJob i (st (sv_sched sv))) of
        Inl e \<Rightarrow> ((storeError e, None), sv) | Inr j \<Rightarrow> ((200, Some j), sv))"

definition handleListRunners :: "server \<Rightarrow> Runner list response \<times> server" where
  "handleListRunners sv =
     (case fst (ListRunners (st (sv_sched sv))) of
        Inl _ \<Rightarrow> ((500, None), sv) | Inr rs \<Rightarrow> ((200, Some rs), sv))"


section \<open>runner.go\<close>

definition handleClaim :: "RunnerInfo body \<Rightarrow> server \<Rightarrow> (Job \<times> int) response \<times> server" where
  "handleClaim b sv =
     (case decodeBody b of
        Inl c \<Rightarrow> ((c, None), sv)
      | Inr req \<Rightarrow>
          if ru_id req = [] then ((400, None), sv)
          else
            (case Claim (sv_sched sv) req of
               (Inl _, sc) \<Rightarrow> ((500, None), sv\<lparr>sv_sched := sc\<rparr>)
             | (Inr None, sc) \<Rightarrow> ((204, None), sv\<lparr>sv_sched := sc\<rparr>)
             | (Inr (Some j), sc) \<Rightarrow> ((200, Some (j, ttl sc)), sv\<lparr>sv_sched := sc\<rparr>)))"

definition handleHeartbeat :: "(string \<times> (string \<times> int) list) body \<Rightarrow> server
    \<Rightarrow> (string \<times> int \<times> directive) list response \<times> server" where
  "handleHeartbeat b sv =
     (case decodeBody b of
        Inl c \<Rightarrow> ((c, None), sv)
      | Inr (runnerID, refs) \<Rightarrow>
          if runnerID = [] then ((400, None), sv)
          else
            (case Heartbeat (sv_sched sv) runnerID refs of
               (Inl _, sc) \<Rightarrow> ((500, None), sv\<lparr>sv_sched := sc\<rparr>)
             | (Inr ds, sc) \<Rightarrow> ((200, Some ds), sv\<lparr>sv_sched := sc\<rparr>)))"

definition handleComplete :: "string \<Rightarrow> (string \<times> int \<times> Result) body \<Rightarrow> server \<Rightarrow> Job response \<times> server" where
  "handleComplete jobID b sv =
     (case decodeBody b of
        Inl c \<Rightarrow> ((c, None), sv)
      | Inr (runnerID, attempt, res) \<Rightarrow>
          if runnerID = [] \<or> attempt \<le> 0 then ((400, None), sv)
          else
            (case Complete (sv_sched sv) jobID attempt res of
               (Inl e, sc) \<Rightarrow> ((runner_status e, None), sv\<lparr>sv_sched := sc\<rparr>)
             | (Inr j, sc) \<Rightarrow> ((200, Some j), sv\<lparr>sv_sched := sc\<rparr>)))"

record registerRequest =
  rq_name :: string
  rq_labels :: "(string \<times> string) list"
  rq_capacity :: int

definition register_init :: "registerRequest \<Rightarrow> string \<Rightarrow> string \<Rightarrow> RunnerInit" where
  "register_init req i version = \<lparr>rr_id = i, rr_name = rq_name req, rr_labels = rq_labels req,
     rr_capacity = rq_capacity req, rr_state = None, rr_version = version\<rparr>"

text \<open>The lookup and the upsert; the result is the id. \<open>fresh\<close> is what \<open>newID\<close> gives.\<close>

definition register_tx :: "string \<Rightarrow> registerRequest \<Rightarrow> string stx" where
  "register_tx fresh req s =
     (case GetRunnerByName (rq_name req) s of
        (Inr r, _) \<Rightarrow>
          tx_bind (UpsertRunner (register_init req (rn_id r) (rn_version r))) (\<lambda>_. tx_return (rn_id r)) s
      | (Inl ErrNotFound, _) \<Rightarrow>
          tx_bind (UpsertRunner (register_init req fresh [])) (\<lambda>_. tx_return fresh) s
      | (Inl e, _) \<Rightarrow> (Inl e, s))"

definition handleRegister :: "string \<Rightarrow> registerRequest body \<Rightarrow> server \<Rightarrow> string response \<times> server" where
  "handleRegister fresh b sv =
     (case decodeBody b of
        Inl c \<Rightarrow> ((c, None), sv)
      | Inr req \<Rightarrow>
          if rq_name req = [] \<or> rq_capacity req < 0 then ((400, None), sv)
          else
            (case Tx (register_tx fresh req) (st (sv_sched sv)) of
               (Inl _, s') \<Rightarrow> ((500, None), sv\<lparr>sv_sched := (sv_sched sv)\<lparr>st := s'\<rparr>\<rparr>)
             | (Inr i, s') \<Rightarrow> ((200, Some i), sv\<lparr>sv_sched := (sv_sched sv)\<lparr>st := s'\<rparr>\<rparr>)))"



section \<open>logs.go\<close>

definition handleAppendLogs :: "string \<Rightarrow> (string \<times> int \<times> (int \<times> bytes) list) body \<Rightarrow> server \<Rightarrow> unit response \<times> server" where
  "handleAppendLogs jobID b sv =
     (case decodeBody b of
        Inl c \<Rightarrow> ((c, None), sv)
      | Inr (runnerID, attempt, chunks) \<Rightarrow>
          if runnerID = [] \<or> attempt \<le> 0 then ((400, None), sv)
          else
            (case AppendLogs (sv_sched sv) jobID attempt chunks of
               (Inl e, sc) \<Rightarrow> ((runner_status e, None), sv\<lparr>sv_sched := sc\<rparr>)
             | (Inr _, sc) \<Rightarrow> ((204, None), sv\<lparr>sv_sched := sc\<rparr>)))"

record logsResponse =
  lr_attempt :: int
  lr_chunks :: "(int \<times> bytes) list"
  lr_next :: int

text \<open>The attempt asked for: the job's current one by default.\<close>

definition attemptParam :: "param \<Rightarrow> Job \<Rightarrow> int option" where
  "attemptParam v job = (case v of Absent \<Rightarrow> Some (j_attempt job) | NotNumber \<Rightarrow> None
     | Number n \<Rightarrow> if n \<le> 0 then None else Some n)"

definition afterParam :: "param \<Rightarrow> int option" where
  "afterParam v = (case v of Absent \<Rightarrow> Some 0 | NotNumber \<Rightarrow> None | Number n \<Rightarrow> if n < 0 then None else Some n)"

definition logs_page :: "int \<Rightarrow> int \<Rightarrow> LogChunk list \<Rightarrow> logsResponse" where
  "logs_page attempt after cs = foldl (\<lambda>out c. out\<lparr>lr_chunks := lr_chunks out @ [(lc_seq c, lc_data c)], lr_next := lc_seq c\<rparr>)
     \<lparr>lr_attempt = attempt, lr_chunks = [], lr_next = after\<rparr> cs"

definition handleGetLogs :: "string \<Rightarrow> param \<Rightarrow> param \<Rightarrow> server \<Rightarrow> logsResponse response \<times> server" where
  "handleGetLogs jobID attemptv afterv sv =
     (case fst (GetJob jobID (st (sv_sched sv))) of
        Inl e \<Rightarrow> ((storeError e, None), sv)
      | Inr job \<Rightarrow>
          (case attemptParam attemptv job of
             None \<Rightarrow> ((400, None), sv)
           | Some attempt \<Rightarrow>
               (case afterParam afterv of
                  None \<Rightarrow> ((400, None), sv)
                | Some after \<Rightarrow>
                    ((200, Some (logs_page attempt after (listed (ListLogChunks (j_id job) attempt after (st (sv_sched sv)))))),
                     sv))))"


section \<open>artifacts.go\<close>

definition DefaultContentType :: string where
  "DefaultContentType = ''application/octet-stream''"

text \<open>
  An upload is two steps with other requests in between: the checks and the object, then the row.
  \<open>sha\<close> is SHA-256 in hex.
\<close>

record upload =
  up_job :: string
  up_attempt :: int
  up_path :: string
  up_key :: string
  up_size :: int
  up_sha :: string
  up_ctype :: string

definition max_body :: "int \<Rightarrow> reader \<Rightarrow> reader" where
  "max_body n r = (if n < int (length (rd_bytes r))
     then \<lparr>rd_bytes = take (nat n) (rd_bytes r), rd_error = Some ReadTooBig\<rparr> else r)"

definition upload_begin :: "(string \<Rightarrow> string) \<Rightarrow> string \<Rightarrow> param \<Rightarrow> string \<Rightarrow> int \<Rightarrow> string \<Rightarrow> reader \<Rightarrow> server
    \<Rightarrow> (nat + upload) \<times> server" where
  "upload_begin sha jobID attemptv path len ctype r sv =
     (case attemptv of
        Number attempt \<Rightarrow>
          if attempt \<le> 0 then (Inl 400, sv)
          else if ValidatePath path \<noteq> None then (Inl 400, sv)
          else if len < 0 then (Inl 411, sv)
          else if MaxArtifactBytes < len then (Inl 413, sv)
          else
            (case fst (GetJob jobID (st (sv_sched sv))) of
               Inl e \<Rightarrow> (Inl (storeError e), sv)
             | Inr job \<Rightarrow>
                 if j_state job \<noteq> JobRunning \<or> j_attempt job \<noteq> attempt then (Inl 409, sv)
                 else
                   let key = JobKey (j_run_id job) jobID attempt path; rd = max_body len r in
                   (case local_Put key rd len (sv_artifacts sv) of
                      (Inl (ArtRead ReadTooBig), fs) \<Rightarrow> (Inl 400, sv\<lparr>sv_artifacts := fs\<rparr>)
                    | (Inl _, fs) \<Rightarrow> (Inl 500, sv\<lparr>sv_artifacts := fs\<rparr>)
                    | (Inr _, fs) \<Rightarrow>
                        (Inr \<lparr>up_job = jobID, up_attempt = attempt, up_path = path, up_key = key, up_size = len,
                           up_sha = sha (rd_bytes rd),
                           up_ctype = (if ctype = [] then DefaultContentType else ctype)\<rparr>,
                         sv\<lparr>sv_artifacts := fs\<rparr>)))
      | _ \<Rightarrow> (Inl 400, sv))"

definition upload_tx :: "upload \<Rightarrow> unit stx" where
  "upload_tx u =
     tx_bind (GetJob (up_job u)) (\<lambda>job.
     if j_state job \<noteq> JobRunning \<or> j_attempt job \<noteq> up_attempt u then tx_raise ErrFenced
     else UpsertArtifact (up_job u) (up_attempt u) (up_path u) (up_size u) (up_sha u) (up_ctype u))"

definition upload_end :: "upload \<Rightarrow> server \<Rightarrow> upload response \<times> server" where
  "upload_end u sv =
     (case Tx (upload_tx u) (st (sv_sched sv)) of
        (Inl e, s') \<Rightarrow>
          ((if e = ErrFenced then 409 else if e = ErrNotFound then 404 else 500, None),
           sv\<lparr>sv_sched := (sv_sched sv)\<lparr>st := s'\<rparr>, sv_artifacts := discard (up_key u) (sv_artifacts sv)\<rparr>)
      | (Inr _, s') \<Rightarrow> ((201, Some u), sv\<lparr>sv_sched := (sv_sched sv)\<lparr>st := s'\<rparr>\<rparr>))"

text \<open>The whole handler when no other request comes between.\<close>

definition handleUploadArtifact :: "(string \<Rightarrow> string) \<Rightarrow> string \<Rightarrow> param \<Rightarrow> string \<Rightarrow> int \<Rightarrow> string \<Rightarrow> reader \<Rightarrow> server
    \<Rightarrow> upload response \<times> server" where
  "handleUploadArtifact sha jobID attemptv path len ctype r sv =
     (case upload_begin sha jobID attemptv path len ctype r sv of
        (Inl c, sv') \<Rightarrow> ((c, None), sv')
      | (Inr u, sv') \<Rightarrow> upload_end u sv')"

definition handleListArtifacts :: "string \<Rightarrow> param \<Rightarrow> server \<Rightarrow> (int \<times> Artifact list) response \<times> server" where
  "handleListArtifacts jobID attemptv sv =
     (case fst (GetJob jobID (st (sv_sched sv))) of
        Inl e \<Rightarrow> ((storeError e, None), sv)
      | Inr job \<Rightarrow>
          (case attemptParam attemptv job of
             None \<Rightarrow> ((400, None), sv)
           | Some attempt \<Rightarrow> ((200, Some (attempt, listed (ListArtifacts (j_id job) attempt (st (sv_sched sv))))), sv)))"

text \<open>The stream with the headers taken from the row: content type, length and ETag.\<close>

definition handleGetArtifact :: "string \<Rightarrow> param \<Rightarrow> string \<Rightarrow> server \<Rightarrow> (Artifact \<times> bytes) response \<times> server" where
  "handleGetArtifact jobID attemptv path sv =
     (case fst (GetJob jobID (st (sv_sched sv))) of
        Inl e \<Rightarrow> ((storeError e, None), sv)
      | Inr job \<Rightarrow>
          (case attemptParam attemptv job of
             None \<Rightarrow> ((400, None), sv)
           | Some attempt \<Rightarrow>
               if ValidatePath path \<noteq> None then ((400, None), sv)
               else
                 (case fst (GetArtifact (j_id job) attempt path (st (sv_sched sv))) of
                    Inl e \<Rightarrow> ((storeError e, None), sv)
                  | Inr row \<Rightarrow>
                      (case local_Get (JobKey (j_run_id job) (j_id job) attempt path) (sv_artifacts sv) of
                         Inl ArtNotFound \<Rightarrow> ((404, None), sv)
                       | Inl _ \<Rightarrow> ((500, None), sv)
                       | Inr data \<Rightarrow> ((200, Some (row, data)), sv)))))"

definition handleGetSource :: "string \<Rightarrow> server \<Rightarrow> bytes response \<times> server" where
  "handleGetSource i sv =
     (case fst (GetRun i (st (sv_sched sv))) of
        Inl e \<Rightarrow> ((storeError e, None), sv)
      | Inr _ \<Rightarrow>
          (case local_Get (SourceKey i) (sv_artifacts sv) of
             Inl ArtNotFound \<Rightarrow> ((404, None), sv)
           | Inl _ \<Rightarrow> ((500, None), sv)
           | Inr data \<Rightarrow> ((200, Some data), sv)))"

end
