(* ===== verification/Submit.thy ===== *)
theory Submit
  imports Preserve Api Topo
begin

text \<open>
  Submission: the rows a validated pipeline becomes, and that storing them keeps the invariant of
  the control plane. Uniqueness of the new ids needs no assumption, because the store rejects a
  clash and rolls back.
\<close>


section \<open>The rows of a submission\<close>

lemma get_str_update [simp]: "get_str (AList.update k v m) = (get_str m)(k := v)"
  by (auto simp: get_str_def update_conv fun_eq_iff)

lemma submit_jobs_ids:
  "submit_jobs newID k roots mA pjs ids = Inr (js, ids') \<Longrightarrow> n \<notin> pj_name ` set pjs \<Longrightarrow>
     get_str ids' n = get_str ids n"
  by (induction newID k roots mA pjs ids arbitrary: js rule: submit_jobs.induct)
    (auto split: sum.splits prod.splits)

lemma submit_jobs_specs: "submit_jobs newID k roots mA pjs ids = Inr (js, ids') \<Longrightarrow> \<forall>j \<in> set js. ji_spec j \<noteq> None"
  by (induction newID k roots mA pjs ids arbitrary: js rule: submit_jobs.induct)
    (auto simp: job_init_def split: sum.splits prod.splits)

lemma submit_jobs_rows:
  assumes "submit_jobs newID k roots mA pjs ids = Inr (js, ids')" and "distinct (map pj_name pjs)"
  shows "js = map (\<lambda>pj. job_init (get_str ids' (pj_name pj)) pj (pj_name pj \<in> roots) mA) pjs"
  using assms
proof (induction newID k roots mA pjs ids arbitrary: js rule: submit_jobs.induct)
  case (2 newID k roots mA pj pjs ids)
  from 2(2) obtain spec where m: "marshal_job pj = Inr spec" by (auto split: sum.splits)
  then have spec: "spec = pj" by (auto simp: marshal_job_def split: if_splits)
  from 2(2) m obtain js1 where rest: "submit_jobs newID (Suc k) roots mA pjs (AList.update (pj_name pj) (newID k) ids)
      = Inr (js1, ids')" and js: "js = job_init (newID k) spec (pj_name pj \<in> roots) mA # js1"
    by (auto split: sum.splits prod.splits)
  from submit_jobs_ids [OF rest] 2(3) have "get_str ids' (pj_name pj) = newID k" by simp
  with 2(1) [OF m rest] 2(3) js spec show ?case by simp
qed simp

lemma submit_deps_set:
  "d \<in> set (submit_deps ids pjs) \<longleftrightarrow> (\<exists>pj \<in> set pjs. \<exists>need \<in> set (pj_needs pj).
     d = \<lparr>d_job_id = get_str ids (pj_name pj), d_needs_job_id = get_str ids need\<rparr>)"
  by (auto simp: submit_deps_def)

lemma create_jobs_Inr:
  assumes "create_jobs i now R js s = (Inr (), s')"
  shows "s' = s\<lparr>t_jobs := t_jobs s @ map (job_row now R) js\<rparr>"
    and "distinct (map j_id (t_jobs s)) \<Longrightarrow> distinct (map j_id (t_jobs s'))"
    and "distinct (map (\<lambda>j. (j_run_id j, j_name j)) (t_jobs s)) \<Longrightarrow>
      distinct (map (\<lambda>j. (j_run_id j, j_name j)) (t_jobs s'))"
    and "js \<noteq> [] \<Longrightarrow> R \<in> r_id ` set (t_runs s)"
  using assms
proof (atomize (full), induction js arbitrary: i s)
  case (Cons j js)
  from Cons.prems obtain s1 where one: "insert_job (job_row now R j) s = (Inr (), s1)"
    and rest: "create_jobs (i + 1) now R js s1 = (Inr (), s')"
    by (auto simp: tx_bind_eq_Inr split: if_splits)
  from one have s1: "s1 = s\<lparr>t_jobs := t_jobs s @ [job_row now R j]\<rparr>"
    and new: "j_id (job_row now R j) \<notin> j_id ` set (t_jobs s)"
      "(j_run_id (job_row now R j), j_name (job_row now R j)) \<notin> (\<lambda>q. (j_run_id q, j_name q)) ` set (t_jobs s)"
    and R: "R \<in> r_id ` set (t_runs s)"
    by (auto simp: insert_job_def job_row_def split: if_splits)
  have d1: "distinct (map j_id (t_jobs s)) \<longrightarrow> distinct (map j_id (t_jobs s1))"
    and d2: "distinct (map (\<lambda>j. (j_run_id j, j_name j)) (t_jobs s)) \<longrightarrow>
      distinct (map (\<lambda>j. (j_run_id j, j_name j)) (t_jobs s1))"
    using new by (simp_all add: s1)
  note ih = Cons.IH [rule_format, OF rest]
  have "s' = s\<lparr>t_jobs := t_jobs s @ map (job_row now R) (j # js)\<rparr>" using ih(1) s1 by simp
  with ih d1 d2 R show ?case by blast
qed simp

lemma create_deps_Inr:
  "create_deps R ids ds s = (Inr (), s') \<Longrightarrow>
     s' = s\<lparr>t_deps := t_deps s @ ds\<rparr> \<and> (\<forall>d \<in> set ds. d_job_id d \<in> ids \<and> d_needs_job_id d \<in> ids)"
proof (induction ds arbitrary: s)
  case (Cons d ds)
  from Cons.prems obtain s1 where "insert_dep d s = (Inr (), s1)" and rest: "create_deps R ids ds s1 = (Inr (), s')"
    and d: "d_job_id d \<in> ids" "d_needs_job_id d \<in> ids" by (auto simp: tx_bind_eq_Inr split: if_splits)
  then have "s1 = s\<lparr>t_deps := t_deps s @ [d]\<rparr>" by (auto simp: insert_dep_def split: if_splits)
  with Cons.IH [OF rest] d show ?case by auto
qed simp

text \<open>What a committed submission did to the store.\<close>

lemma submit_tx_Inr:
  assumes "submit_tx R p src js ds s = (Inr x, s')"
  obtains now where "t_runs s' = t_runs s @ [run_row now (run_init R src)]"
    and "t_jobs s' = t_jobs s @ map (job_row now R) js" and "t_deps s' = t_deps s @ ds" and "clock s' = clock s"
    and "R \<noteq> []" and "R \<notin> r_id ` set (t_runs s)"
    and "distinct (map j_id (t_jobs s)) \<Longrightarrow> distinct (map j_id (t_jobs s'))"
    and "distinct (map (\<lambda>j. (j_run_id j, j_name j)) (t_jobs s)) \<Longrightarrow>
      distinct (map (\<lambda>j. (j_run_id j, j_name j)) (t_jobs s'))"
    and "\<forall>d \<in> set ds. d_job_id d \<in> ji_id ` set js \<and> d_needs_job_id d \<in> ji_id ` set js"
    and "x = (run_row now (run_init R src), map (job_row now R) js)"
proof -
  from assms obtain s1 where create: "CreateRun (run_init R src) js ds s = (Inr x, s1)"
    and ev: "t_runs s' = t_runs s1" "t_jobs s' = t_jobs s1" "t_deps s' = t_deps s1" "clock s' = clock s1"
    by (auto simp: submit_tx_def tx_bind_eq_Inr AppendEvent_def Now_def split: if_splits)
  define now where "now = clock s (reads s)"
  define s0 where "s0 = s\<lparr>reads := Suc (reads s), t_runs := t_runs s @ [run_row now (run_init R src)]\<rparr>"
  from create have R: "R \<noteq> []" and R': "R \<notin> r_id ` set (t_runs s)"
    by (auto simp: CreateRun_def run_init_def run_row_def tx_bind_eq_Inr Now_def insert_run_def split: if_splits)
  from create obtain s2 where js: "create_jobs 0 now R js s0 = (Inr (), s2)"
    and ds: "create_deps R (ji_id ` set js) ds s2 = (Inr (), s1)"
    and x: "x = (run_row now (run_init R src), map (job_row now R) js)"
    by (auto simp: CreateRun_def tx_bind_eq_Inr Now_def insert_run_def s0_def now_def run_init_def split: if_splits)
  note j = create_jobs_Inr [OF js] and d = create_deps_Inr [OF ds]
  show thesis
    by (rule that [of now]) (use R R' x j d in \<open>simp_all add: ev s0_def\<close>)
qed



section \<open>The invariant after a submission\<close>

lemma ok_view_cong:
  "(\<And>v. v \<in> set V \<Longrightarrow> N (fst v) = N' (fst v)) \<Longrightarrow> ok_view V N rs = ok_view V N' rs"
  by (auto simp: ok_view_def)

lemma acyclic_image:
  assumes "finite r" and "acyclic r" and "inj_on f (Field r)"
  shows "acyclic (map_prod f f ` r)"
proof -
  have "wf r" by (rule finite_acyclic_wf [OF assms(1,2)])
  then have "wf (map_prod f f ` r)"
    by (rule wf_map_prod_image_Dom_Ran) (use assms(3) in \<open>auto simp: inj_on_def Field_def\<close>)
  then show ?thesis by (rule wf_acyclic)
qed

lemma acyclic_union:
  assumes "finite r" and "finite t" and "acyclic r" and "acyclic t" and "Field r \<inter> Field t = {}"
  shows "acyclic (r \<union> t)"
proof -
  have "wf r" and "wf t" using assms by (simp_all add: finite_acyclic_wf)
  then have "wf (r \<union> t)" by (rule wf_Un) (use assms(5) in \<open>auto simp: Field_def\<close>)
  then show ?thesis by (rule wf_acyclic)
qed

text \<open>A submission in progress: the jobs of a validated pipeline under pairwise different ids.\<close>

definition sub_jobs :: "(string \<Rightarrow> string) \<Rightarrow> int \<Rightarrow> PJob list \<Rightarrow> JobInit list" where
  "sub_jobs f mA pjs = map (\<lambda>pj. job_init (f (pj_name pj)) pj (pj_needs pj = []) mA) pjs"

definition sub_deps :: "(string \<Rightarrow> string) \<Rightarrow> PJob list \<Rightarrow> JobDep list" where
  "sub_deps f pjs = concat (map (\<lambda>pj. map (\<lambda>need.
     \<lparr>d_job_id = f (pj_name pj), d_needs_job_id = f need\<rparr>) (pj_needs pj)) pjs)"

definition names_ok :: "PJob list \<Rightarrow> bool" where
  "names_ok pjs \<longleftrightarrow> pjs \<noteq> [] \<and> distinct (map pj_name pjs) \<and>
     (\<forall>pj \<in> set pjs. set (pj_needs pj) \<subseteq> pj_name ` set pjs) \<and> acyclic (need_rel pjs)"

lemma job_row_init [simp]:
  "j_id (job_row now R (job_init i pj b mA)) = i" "j_run_id (job_row now R (job_init i pj b mA)) = R"
  "j_name (job_row now R (job_init i pj b mA)) = pj_name pj"
  "j_state (job_row now R (job_init i pj b mA)) = (if b then JobQueued else JobPending)"
  "j_spec (job_row now R (job_init i pj b mA)) = Some pj"
  by (simp_all add: job_row_def job_init_def)

lemma job_row_wf: "0 < mA \<Longrightarrow> job_wf (job_row now R (job_init i pj b mA))"
  by (auto simp: job_wf_def job_row_def job_init_def nullStr_def nullMillis_def)

lemma new_needs:
  assumes "inj_on f (pj_name ` set pjs)" and "distinct (map pj_name pjs)" and "pj \<in> set pjs"
  shows "d_needs_job_id ` {d \<in> set (sub_deps f pjs). d_job_id d = f (pj_name pj)} = f ` set (pj_needs pj)"
proof -
  have "q = pj" if "q \<in> set pjs" "f (pj_name q) = f (pj_name pj)" for q
    using that assms distinct_keys_eq [OF assms(2) that(1) assms(3)] by (auto simp: inj_on_def)
  then show ?thesis using assms(3) by (force simp: sub_deps_def image_iff)
qed

lemma new_deps_acyclic:
  assumes "inj_on f (pj_name ` set pjs)" and "names_ok pjs"
  shows "acyclic {(n, i). \<exists>d \<in> set (sub_deps f pjs). d_job_id d = i \<and> d_needs_job_id d = n}"
proof -
  have "{(n, i). \<exists>d \<in> set (sub_deps f pjs). d_job_id d = i \<and> d_needs_job_id d = n}
      = map_prod f f ` (need_rel pjs)\<inverse>"
    by (force simp: sub_deps_def need_rel_def)
  moreover have "Field (need_rel pjs) \<subseteq> pj_name ` set pjs"
    using assms(2) by (auto simp: names_ok_def need_rel_def Field_def)
  then have "inj_on f (Field ((need_rel pjs)\<inverse>))" using assms(1) by (simp add: inj_on_subset)
  moreover have "acyclic ((need_rel pjs)\<inverse>)" using assms(2) by (simp add: names_ok_def)
  ultimately show ?thesis using acyclic_image [of "(need_rel pjs)\<inverse>" f] finite_need_rel by simp
qed


definition submitted :: "string \<Rightarrow> (string \<Rightarrow> string) \<Rightarrow> int \<Rightarrow> PJob list \<Rightarrow> store \<Rightarrow> store \<Rightarrow> bool" where
  "submitted R f mA pjs s s' \<longleftrightarrow>
     (\<exists>run. t_runs s' = t_runs s @ [run] \<and> r_id run = R \<and> r_state run = RunPending) \<and>
     (\<exists>now. t_jobs s' = t_jobs s @ map (job_row now R) (sub_jobs f mA pjs)) \<and>
     t_deps s' = t_deps s @ sub_deps f pjs \<and> R \<noteq> [] \<and> R \<notin> r_id ` set (t_runs s) \<and>
     (distinct (map j_id (t_jobs s)) \<longrightarrow> distinct (map j_id (t_jobs s'))) \<and>
     (distinct (map (\<lambda>j. (j_run_id j, j_name j)) (t_jobs s)) \<longrightarrow>
        distinct (map (\<lambda>j. (j_run_id j, j_name j)) (t_jobs s')))"

lemma submitted_ids:
  assumes "submitted R f mA pjs s s'" and "store_inv s" and "names_ok pjs"
  shows "inj_on f (pj_name ` set pjs)" and "f ` pj_name ` set pjs \<inter> j_id ` set (t_jobs s) = {}"
proof -
  from assms(1) inv_distinct [OF assms(2)] obtain now
    where jobs: "t_jobs s' = t_jobs s @ map (job_row now R) (sub_jobs f mA pjs)"
      and dist: "distinct (map j_id (t_jobs s'))" unfolding submitted_def by blast
  have ids: "map j_id (map (job_row now R) (sub_jobs f mA pjs)) = map f (map pj_name pjs)"
    by (simp add: sub_jobs_def)
  from dist have "distinct (map f (map pj_name pjs))"
    unfolding jobs map_append ids by simp
  then show "inj_on f (pj_name ` set pjs)" by (simp add: distinct_map comp_def) (auto simp: inj_on_def)
  from dist have "j_id ` set (t_jobs s) \<inter> set (map f (map pj_name pjs)) = {}"
    unfolding jobs map_append ids by auto
  then show "f ` pj_name ` set pjs \<inter> j_id ` set (t_jobs s) = {}" by (auto simp: image_image)
qed

lemma sub_deps_ids:
  assumes "names_ok pjs" and "d \<in> set (sub_deps f pjs)"
  shows "d_job_id d \<in> f ` pj_name ` set pjs" and "d_needs_job_id d \<in> f ` pj_name ` set pjs"
proof -
  from assms(2) obtain pj need where pj: "pj \<in> set pjs" "need \<in> set (pj_needs pj)"
    and d: "d = \<lparr>d_job_id = f (pj_name pj), d_needs_job_id = f need\<rparr>" by (auto simp: sub_deps_def)
  with assms(1) have "need \<in> pj_name ` set pjs" by (auto simp: names_ok_def)
  with pj d show "d_job_id d \<in> f ` pj_name ` set pjs" and "d_needs_job_id d \<in> f ` pj_name ` set pjs" by simp_all
qed

lemma linked_dep_ids:
  assumes "linked s" and "d \<in> set (t_deps s)"
  shows "d_job_id d \<in> j_id ` set (t_jobs s)" and "d_needs_job_id d \<in> j_id ` set (t_jobs s)"
  using assms by (auto simp: linked_def image_iff) metis+

lemma submitted_needs:
  assumes sub: "submitted R f mA pjs s s'" and store_inv: "store_inv s" and ok: "names_ok pjs"
  shows "j \<in> set (t_jobs s) \<Longrightarrow> job_needs s' (j_id j) = job_needs s (j_id j)"
    and "pj \<in> set pjs \<Longrightarrow> job_needs s' (f (pj_name pj)) = f ` set (pj_needs pj)"
proof -
  note ids = submitted_ids [OF sub store_inv ok]
  from store_inv have lk: "linked s" by (simp add: store_inv_def base_def)
  from sub have deps: "t_deps s' = t_deps s @ sub_deps f pjs" by (simp add: submitted_def)
  { assume "j \<in> set (t_jobs s)"
    then have "d_job_id d \<noteq> j_id j" if "d \<in> set (sub_deps f pjs)" for d
      using sub_deps_ids(1) [OF ok that] ids(2) by auto
    then show "job_needs s' (j_id j) = job_needs s (j_id j)" by (auto simp: job_needs_def deps) }
  { assume pj: "pj \<in> set pjs"
    then have "d_job_id d \<noteq> f (pj_name pj)" if "d \<in> set (t_deps s)" for d
      using linked_dep_ids(1) [OF lk that] ids(2) by force
    then have "job_needs s' (f (pj_name pj)) =
        d_needs_job_id ` {d \<in> set (sub_deps f pjs). d_job_id d = f (pj_name pj)}"
      by (auto simp: job_needs_def deps)
    also have "\<dots> = f ` set (pj_needs pj)"
      by (rule new_needs [OF ids(1) _ pj]) (use ok in \<open>simp add: names_ok_def\<close>)
    finally show "job_needs s' (f (pj_name pj)) = f ` set (pj_needs pj)" . }
qed

lemma submitted_base:
  assumes sub: "submitted R f mA pjs s s'" and store_inv: "store_inv s" and ok: "names_ok pjs" and mA: "0 < mA"
  shows "base s'"
proof -
  note ids = submitted_ids [OF sub store_inv ok]
  from store_inv have b: "base s" and lk: "linked s" by (simp_all add: store_inv_def base_def)
  from sub obtain run now where runs: "t_runs s' = t_runs s @ [run]" "r_id run = R"
    and jobs: "t_jobs s' = t_jobs s @ map (job_row now R) (sub_jobs f mA pjs)"
    and deps: "t_deps s' = t_deps s @ sub_deps f pjs" and R: "R \<noteq> []" "R \<notin> r_id ` set (t_runs s)"
    unfolding submitted_def by blast
  have new: "\<exists>j \<in> set (t_jobs s'). j_id j = f n \<and> j_run_id j = R" if "n \<in> pj_name ` set pjs" for n
  proof -
    from that obtain pj where pj: "pj \<in> set pjs" "n = pj_name pj" by blast
    then have "job_row now R (job_init (f (pj_name pj)) pj (pj_needs pj = []) mA) \<in> set (t_jobs s')"
      by (simp add: jobs sub_jobs_def)
    then show ?thesis using pj(2) job_row_init(1,2) by blast
  qed
  have "\<exists>j \<in> set (t_jobs s'). \<exists>n \<in> set (t_jobs s'). j_id j = d_job_id d \<and> j_id n = d_needs_job_id d \<and> j_run_id n = j_run_id j"
    if "d \<in> set (t_deps s')" for d
  proof (cases "d \<in> set (sub_deps f pjs)")
    case True
    from sub_deps_ids [OF ok True] obtain a b where "a \<in> pj_name ` set pjs" "d_job_id d = f a"
      and "b \<in> pj_name ` set pjs" "d_needs_job_id d = f b" by blast
    with new [of a] new [of b] show ?thesis by metis
  next
    case False
    with that have "d \<in> set (t_deps s)" by (simp add: deps)
    moreover have "set (t_jobs s) \<subseteq> set (t_jobs s')" by (simp add: jobs)
    ultimately show ?thesis using lk unfolding linked_def by blast
  qed
  then have "linked s'"
    using lk sub R runs inv_distinct [OF store_inv] by (auto simp: linked_def submitted_def jobs sub_jobs_def)
  moreover have "acyclic (dep_rel s')"
  proof -
    have "dep_rel s' = dep_rel s \<union> {(n, i). \<exists>d \<in> set (sub_deps f pjs). d_job_id d = i \<and> d_needs_job_id d = n}"
      (is "_ = _ \<union> ?new") by (auto simp: dep_rel_def job_needs_def deps)
    moreover have "Field (dep_rel s) \<subseteq> j_id ` set (t_jobs s)"
      using linked_dep_ids [OF lk] by (auto simp: dep_rel_def job_needs_def Field_def)
    moreover have "Field ?new \<subseteq> f ` pj_name ` set pjs"
      using sub_deps_ids [OF ok] by (auto simp: Field_def)
    moreover have "finite ?new" by (rule finite_subset [of _ "(\<lambda>d. (d_needs_job_id d, d_job_id d)) ` set (sub_deps f pjs)"]) auto
    moreover have "acyclic (dep_rel s)" using b by (simp add: base_def)
    ultimately show ?thesis
      using acyclic_union [OF finite_dep_rel] new_deps_acyclic [OF ids(1) ok] ids(2) by (metis (no_types, lifting) Int_commute disjoint_iff subset_iff)
  qed
  ultimately show ?thesis
    using b sub job_row_wf [OF mA] by (auto simp: base_def submitted_def jobs sub_jobs_def)
qed


lemma submitted_ready:
  assumes sub: "submitted R f mA pjs s s'" and store_inv: "store_inv s" and ok: "names_ok pjs"
  shows "ready s'"
  unfolding ready_def
proof
  fix j assume j: "j \<in> set (t_jobs s')"
  from sub obtain now where jobs: "t_jobs s' = t_jobs s @ map (job_row now R) (sub_jobs f mA pjs)"
    unfolding submitted_def by blast
  note needs = submitted_needs [OF sub store_inv ok]
  have old: "job_states s n = Some fs \<Longrightarrow> job_states s' n = Some fs" for n fs
    by (simp add: job_states_def jobs map_add_Some_iff)
  show "(released (j_state j) \<longrightarrow> (\<forall>n \<in> job_needs s' (j_id j). job_states s' n = Some JobSucceeded)) \<and>
    (j_state j = JobSkipped \<longrightarrow> (\<exists>n \<in> job_needs s' (j_id j). bad (job_states s' n)))"
  proof (cases "j \<in> set (t_jobs s)")
    case True
    have "bad (job_states s n) \<Longrightarrow> bad (job_states s' n)" for n using old by (auto simp: bad_def)
    moreover have "ready s" using store_inv by (simp add: store_inv_def)
    ultimately show ?thesis using True old needs(1) [OF True] unfolding ready_def by metis
  next
    case False
    with j obtain pj where "pj \<in> set pjs" "j = job_row now R (job_init (f (pj_name pj)) pj (pj_needs pj = []) mA)"
      by (auto simp: jobs sub_jobs_def)
    with needs(2) [of pj] show ?thesis by (auto simp: released_def)
  qed
qed

lemma submitted_inv:
  assumes sub: "submitted R f mA pjs s s'" and store_inv: "store_inv s" and ok: "names_ok pjs" and mA: "0 < mA"
  shows "store_inv s'"
proof -
  from sub obtain run now where runs: "t_runs s' = t_runs s @ [run]" "r_id run = R" "r_state run = RunPending"
    and jobs: "t_jobs s' = t_jobs s @ map (job_row now R) (sub_jobs f mA pjs)"
    and R: "R \<notin> r_id ` set (t_runs s)" unfolding submitted_def by blast
  from store_inv have lk: "linked s" by (simp add: store_inv_def base_def)
  note needs = submitted_needs [OF sub store_inv ok]
  have old: "ok_view (view (r_id r) s') (job_needs s') (r_state r)" if r: "r \<in> set (t_runs s)" for r
  proof -
    have "r_id r \<noteq> R" using r R by auto
    then have "run_jobs (r_id r) s' = run_jobs (r_id r) s" by (auto simp: run_jobs_def jobs sub_jobs_def filter_map comp_def)
    then have V: "view (r_id r) s' = view (r_id r) s" by (simp add: view_def)
    have "ok_view (view (r_id r) s) (job_needs s) (r_state r)" using store_inv r by (simp add: store_inv_def)
    moreover have "job_needs s' (fst v) = job_needs s (fst v)" if "v \<in> set (view (r_id r) s)" for v
      using that needs(1) by (auto simp: view_def in_run_jobs)
    ultimately show ?thesis using ok_view_cong [of "view (r_id r) s" "job_needs s'" "job_needs s"] V by simp
  qed
  have none: "filter (\<lambda>j. j_run_id j = R) (t_jobs s) = []" using lk R by (auto simp: linked_def filter_empty_conv)
  have V: "view R s' = map (\<lambda>pj. (f (pj_name pj), if pj_needs pj = [] then JobRunning else JobPending)) pjs"
    by (simp add: view_def run_jobs_def jobs none sub_jobs_def filter_map comp_def)
  have fresh: "map_of (view R s') n \<noteq> Some JobSucceeded \<and> \<not> bad (map_of (view R s') n)" for n
    using map_of_SomeD [of "view R s'" n] by (cases "map_of (view R s') n") (auto simp: V bad_def split: if_splits)
  have "\<exists>n. n \<in> job_needs s' (f (pj_name pj))" if "pj \<in> set pjs" "pj_needs pj \<noteq> []" for pj
    using that needs(2) [OF that(1)] by (cases "pj_needs pj") auto
  then have "ok_view (view R s') (job_needs s') RunPending"
    unfolding ok_view_def using fresh ok by (fastforce simp: V names_ok_def split: if_splits)
  then have "\<forall>r \<in> set (t_runs s'). ok_view (view (r_id r) s') (job_needs s') (r_state r)"
    using old runs by auto
  with submitted_base [OF sub store_inv ok mA] submitted_ready [OF sub store_inv ok] show ?thesis by (simp add: store_inv_def)
qed

text \<open>A submission of a validated pipeline that commits.\<close>

lemma run_row_init: "r_id (run_row now (run_init R src)) = R" "r_state (run_row now (run_init R src)) = RunPending"
  by (simp_all add: run_row_def run_init_def)

lemma submit_rows_eq:
  assumes "finalize p0 = Inr p" and "submit_jobs newID k (set (Roots p)) mA (p_jobs p) [] = Inr (js, ids)"
  shows "names_ok (p_jobs p)" and "js = sub_jobs (get_str ids) mA (p_jobs p)"
proof -
  show names: "names_ok (p_jobs p)"
    using finalize_Inr_facts(1,2,3) [OF assms(1)] by (auto simp: names_ok_def well_formed_def needs_ok_def comp_def)
  then have dist: "distinct (map pj_name (p_jobs p))" by (simp add: names_ok_def)
  have root: "pj_name pj \<in> set (Roots p) \<longleftrightarrow> pj_needs pj = []" if "pj \<in> set (p_jobs p)" for pj
    using distinct_keys_eq [OF dist that] that by (auto simp: Roots_def)
  show "js = sub_jobs (get_str ids) mA (p_jobs p)"
    unfolding submit_jobs_rows [OF assms(2) dist] sub_jobs_def by (rule map_cong) (simp_all add: root)
qed

lemma submitRun_submitted:
  assumes fin: "finalize p0 = Inr p" and ok: "submitRun newID R p src mA s = (Inr (run, js), s')"
  shows "\<exists>f now. submitted R f mA (p_jobs p) s s' \<and> names_ok (p_jobs p) \<and> t_runs s' = t_runs s @ [run] \<and>
    run = run_row now (run_init R src) \<and> t_jobs s' = t_jobs s @ js \<and> js = map (job_row now R) (sub_jobs f mA (p_jobs p))"
proof -
  from ok obtain ins ids where sj: "submit_jobs newID 0 (set (Roots p)) mA (p_jobs p) [] = Inr (ins, ids)"
    and tx: "submit_tx R p src ins (submit_deps ids (p_jobs p)) s = (Inr (run, js), s')"
    by (auto simp: submitRun_def Tx_def split: sum.splits prod.splits)
  note rows = submit_rows_eq [OF fin sj]
  have ds: "submit_deps ids (p_jobs p) = sub_deps (get_str ids) (p_jobs p)" by (simp add: submit_deps_def sub_deps_def)
  show ?thesis
    by (rule submit_tx_Inr [OF tx], intro exI [of _ "get_str ids"]) (use rows ds in \<open>auto simp: submitted_def run_row_init\<close>)
qed

lemma submitRun_inv:
  assumes "finalize p0 = Inr p" and "submitRun newID R p src mA s = (Inr x, s')" and "store_inv s" and "0 < mA"
  shows "store_inv s'"
proof -
  obtain run js where "x = (run, js)" by (cases x)
  with submitRun_submitted [OF assms(1), of newID R src mA s run js s'] assms(2) submitted_inv assms(3,4) show ?thesis by blast
qed

end
