(* ===== verification/Tables.thy ===== *)
theory Tables
  imports Submit
begin

text \<open>
  The key constraints of the tables no state machine is about: runner ids and names, the keys of log
  chunks and artifacts with their references to jobs, and the audit log, whose ids count from one
  without a gap. Every transaction of the scheduler and the handlers keeps them.
\<close>

definition chunk_key :: "LogChunk \<Rightarrow> string \<times> int \<times> int" where
  "chunk_key c = (lc_job_id c, lc_attempt c, lc_seq c)"

definition artifact_key :: "Artifact \<Rightarrow> string \<times> int \<times> string" where
  "artifact_key a = (a_job_id a, a_attempt a, a_path a)"

definition numbered :: "Event list \<Rightarrow> bool" where
  "numbered evs \<longleftrightarrow> map e_id evs = map int [1..<Suc (length evs)]"

definition tables_ok :: "store \<Rightarrow> bool" where
  "tables_ok s \<longleftrightarrow>
     distinct (map rn_id (t_runners s)) \<and> distinct (map rn_name (t_runners s)) \<and>
     (\<forall>r \<in> set (t_runners s). rn_id r \<noteq> [] \<and> 1 \<le> rn_capacity r) \<and>
     distinct (map chunk_key (t_chunks s)) \<and> distinct (map artifact_key (t_artifacts s)) \<and>
     lc_job_id ` set (t_chunks s) \<union> a_job_id ` set (t_artifacts s) \<subseteq> j_id ` set (t_jobs s) \<and>
     numbered (t_events s) \<and> (\<forall>j \<in> set (t_jobs s). j_spec j \<noteq> None)"

abbreviation tidy :: "'a stx \<Rightarrow> bool" where
  "tidy \<equiv> tx_always tables_ok"

lemma tables_ok_reads [simp]: "tables_ok (s\<lparr>reads := n\<rparr>) = tables_ok s"
  by (simp add: tables_ok_def)

lemma tables_ok_runs: "tables_ok s \<Longrightarrow> tables_ok (s\<lparr>t_runs := rs\<rparr>)"
  by (simp add: tables_ok_def)

lemma tables_ok_jobs:
  "tables_ok s \<Longrightarrow> j_id ` set (t_jobs s) \<subseteq> j_id ` set js \<Longrightarrow> (\<forall>j \<in> set js. j_spec j \<noteq> None) \<Longrightarrow> tables_ok (s\<lparr>t_jobs := js\<rparr>)"
  unfolding tables_ok_def by simp (meson subset_trans)

lemma tables_ok_runners:
  assumes "tables_ok s" and "map rn_id rs = map rn_id (t_runners s)" and "map rn_name rs = map rn_name (t_runners s)"
    and "map rn_capacity rs = map rn_capacity (t_runners s)"
  shows "tables_ok (s\<lparr>t_runners := rs\<rparr>)"
proof -
  have "rn_id ` set rs = rn_id ` set (t_runners s)" "rn_capacity ` set rs = rn_capacity ` set (t_runners s)"
    using assms by (metis list.set_map)+
  then have "\<forall>r \<in> set rs. rn_id r \<noteq> [] \<and> 1 \<le> rn_capacity r"
    using assms(1) unfolding tables_ok_def by (metis imageE imageI)
  with assms show ?thesis by (simp add: tables_ok_def)
qed

lemma event_ids_snoc:
  assumes "numbered evs" and "e_id e = next_event_id evs"
  shows "numbered (evs @ [e])"
proof -
  have "next_event_id evs = int (Suc (length evs))"
  proof (cases "evs = []")
    case False
    then have "e_id (last evs) = last (map e_id evs)" by (simp add: last_map)
    also have "\<dots> = int (length evs)" using False assms(1) unfolding numbered_def by (cases "length evs") (simp_all add: last_map)
    finally show ?thesis using False by (simp add: next_event_id_def)
  qed (simp add: next_event_id_def)
  with assms show ?thesis by (simp add: numbered_def)
qed

lemma tidy_Now [intro, simp]: "tidy Now"
  by (simp add: tx_always_def Now_def)

lemma tidy_reads [intro, simp]:
  "tidy (GetJob i)" "tidy (GetRun i)" "tidy ListQueuedJobs" "tidy (ListJobs R)" "tidy (ListJobDeps R)"
  "tidy (ListExpiredLeases n)" "tidy ListRunningJobs" "tidy (ListEvents R a l)" "tidy (HasJobEvent R i t a)"
  "tidy (LogBytes i a)"
  by (simp_all add: tx_always_def GetJob_def GetRun_def ListQueuedJobs_def ListJobs_def ListJobDeps_def
      ListExpiredLeases_def ListRunningJobs_def ListEvents_def HasJobEvent_def LogBytes_def split: option.splits)

lemma tidy_spec [intro, simp]: "tidy (jobSpec j)" "tidy (specLabels j)"
proof -
  show "tidy (jobSpec j)" by (cases "j_spec j") (auto simp: jobSpec_def tx_always_raise tx_always_return)
  then show "tidy (specLabels j)" unfolding specLabels_def by (intro tx_always_bind tx_always_return)
qed

lemma tidy_event [intro, simp]: "tidy (AppendEvent R i t d)" "tidy (event R i t d)"
proof -
  have "tables_ok (s\<lparr>t_events := t_events s @ [e]\<rparr>)" if "tables_ok s" "e_id e = next_event_id (t_events s)" for s e
    using that event_ids_snoc [of "t_events s" e] by (simp add: tables_ok_def)
  then show "tidy (AppendEvent R i t d)"
    unfolding AppendEvent_def by (intro tx_always_if tx_always_bind tx_always_raise tidy_Now tx_always_modify) simp_all
  then show "tidy (event R i t d)" by (simp add: event_def)
qed

lemma tidy_UpsertRunner [intro, simp]: "tidy (UpsertRunner r)"
proof (rule tx_alwaysI)
  fix s assume ok: "tables_ok s"
  define row where "row = runner_row (clock s (reads s)) r"
  have row: "rn_id row = rr_id r" "rn_name row = rr_name r" "1 \<le> rn_capacity row"
    by (simp_all add: row_def runner_row_def)
  show "tables_ok (snd (UpsertRunner r s))"
  proof (cases "rr_id r = [] \<or> (\<exists>q \<in> set (t_runners s). rn_id q \<noteq> rn_id row \<and> rn_name q = rn_name row)")
    case True
    with ok show ?thesis by (auto simp: UpsertRunner_def tx_bind_run Now_def row_def [symmetric])
  next
    case False
    let ?upd = "\<lambda>q. row\<lparr>rn_registered_at := rn_registered_at q\<rparr>" and ?P = "\<lambda>q. rn_id q = rn_id row"
    have ids: "map rn_id (sql_update ?P ?upd rs) = map rn_id rs" for rs by (induction rs) auto
    have names: "distinct (map rn_name (sql_update ?P ?upd rs))"
      if "distinct (map rn_id rs)" "distinct (map rn_name rs)"
        "\<forall>q \<in> set rs. rn_name q = rn_name row \<longrightarrow> rn_id q = rn_id row" for rs
    proof -
      have "map rn_name (sql_update ?P ?upd rs) = map (\<lambda>q. if ?P q then rn_name row else rn_name q) rs"
        by (induction rs) auto
      moreover have "inj_on (\<lambda>q. if ?P q then rn_name row else rn_name q) (set rs)"
        using that by (fastforce simp: distinct_map inj_on_def)
      ultimately show ?thesis using that(1) by (simp add: distinct_map)
    qed
    show ?thesis
    proof (cases "rn_id row \<in> rn_id ` set (t_runners s)")
      case True
      have "\<forall>q \<in> set (sql_update ?P ?upd (t_runners s)). rn_id q \<noteq> [] \<and> 1 \<le> rn_capacity q"
        using ok row False unfolding tables_ok_def by (auto simp: set_sql_update)
      moreover have "distinct (map rn_name (sql_update ?P ?upd (t_runners s)))"
        using names [of "t_runners s"] ok False unfolding tables_ok_def by blast
      ultimately have "tables_ok (s\<lparr>reads := Suc (reads s), t_runners := sql_update ?P ?upd (t_runners s)\<rparr>)"
        using ok ids [of "t_runners s"] by (simp add: tables_ok_def)
      with True False ok show ?thesis
        unfolding UpsertRunner_def tx_bind_run Now_def Let_def by (simp add: row_def [symmetric])
    next
      case new: False
      then have "rn_id q \<noteq> rn_id row" if "q \<in> set (t_runners s)" for q using imageI [OF that, of rn_id] by auto
      with False have "rn_name row \<notin> rn_name ` set (t_runners s)" by (auto simp: image_iff)
      with new False ok row show ?thesis
        by (auto simp: UpsertRunner_def tx_bind_run Now_def row_def [symmetric] Let_def tables_ok_def)
    qed
  qed
qed

lemma tidy_TouchRunner [intro, simp]: "tidy (TouchRunner r)"
proof (rule tx_alwaysI)
  fix s assume ok: "tables_ok s"
  define s1 where "s1 = s\<lparr>reads := Suc (reads s),
    t_runners := sql_update (\<lambda>q. rn_id q = r) (touch_row (clock s (reads s))) (t_runners s)\<rparr>"
  have "map rn_name (sql_update P (touch_row n) rs) = map rn_name rs"
    and "map rn_capacity (sql_update P (touch_row n) rs) = map rn_capacity rs" for P n and rs :: "Runner list"
    by (induction rs) (simp_all add: row_simps touch_row_def)
  with ok have "tables_ok (s\<lparr>t_runners := sql_update (\<lambda>q. rn_id q = r) (touch_row (clock s (reads s))) (t_runners s)\<rparr>)"
    by (intro tables_ok_runners) (simp_all add: touch_upd.keys_kept)
  then have "tables_ok s1" by (simp add: s1_def tables_ok_def)
  moreover from this tidy_UpsertRunner have "tables_ok (snd (UpsertRunner u s1))" for u
    by (simp add: tx_always_def)
  ultimately show "tables_ok (snd (TouchRunner r s))"
    by (simp add: TouchRunner_def Now_def tx_bind_run s1_def [symmetric])
qed

lemma tidy_MarkRunnersOffline [intro, simp]: "tidy (MarkRunnersOffline b)"
proof -
  have "map rn_name (sql_update P (\<lambda>r. r\<lparr>rn_state := RunnerOffline\<rparr>) rs) = map rn_name rs"
    and "map rn_id (sql_update P (\<lambda>r. r\<lparr>rn_state := RunnerOffline\<rparr>) rs) = map rn_id rs"
    and "map rn_capacity (sql_update P (\<lambda>r. r\<lparr>rn_state := RunnerOffline\<rparr>) rs) = map rn_capacity rs"
    for P and rs :: "Runner list" by (induction rs) simp_all
  then show ?thesis unfolding MarkRunnersOffline_def
    by (intro tx_always_bind tx_always_fold tx_always_get tx_always_return tx_always_modify)
      (simp add: tables_ok_runners)
qed

lemma tidy_update_jobs:
  assumes "\<And>j. j_id (f j) = j_id j" and "\<And>j. j_spec (f j) = j_spec j"
  shows "tidy (update_jobs P f)"
proof (rule tx_alwaysI)
  fix s assume ok: "tables_ok s"
  have "map j_id (sql_update P f js) = map j_id js" for js using assms(1) by (induction js) simp_all
  then have "j_id ` set (sql_update P f (t_jobs s)) = j_id ` set (t_jobs s)" by (metis list.set_map)
  moreover have "\<forall>j \<in> set (sql_update P f (t_jobs s)). j_spec j \<noteq> None"
    using ok assms(2) by (auto simp: in_sql_update tables_ok_def)
  ultimately show "tables_ok (snd (update_jobs P f s))" using ok by (simp add: update_jobs_def tables_ok_jobs)
qed

lemma tidy_writes [intro, simp]:
  "tidy (ClaimJob i r l)" "tidy (ExtendLease i a r l)" "tidy (FinishJob i a fs k c m)" "tidy (RequeueJob i a m)"
  "tidy (TransitionPendingJob i to)" "tidy (CancelJob i m)" "tidy (RequestJobCancel i rs)"
  unfolding ClaimJob_def ExtendLease_def FinishJob_def RequeueJob_def TransitionPendingJob_def CancelJob_def
    RequestJobCancel_def
  by (auto intro!: tx_always_bind tx_always_if tidy_Now tidy_update_jobs tx_always_get tx_always_raise tx_always_return
      simp: row_simps split: option.splits job_state.splits)

lemma tidy_SetRunState [intro, simp]: "tidy (SetRunState R a b)"
  unfolding SetRunState_def
  by (intro tx_always_bind tidy_Now tx_alwaysI) (simp add: tables_ok_runs)

lemma tidy_InsertLogChunk [intro, simp]: "tidy (InsertLogChunk i a q d)"
  by (rule tx_alwaysI) (auto simp: InsertLogChunk_def tables_ok_def chunk_key_def)

lemma tidy_UpsertArtifact [intro, simp]: "tidy (UpsertArtifact i a p z h c)"
proof (rule tx_alwaysI)
  fix s assume ok: "tables_ok s"
  let ?row = "\<lparr>a_job_id = i, a_attempt = a, a_path = p, a_size_bytes = z, a_sha256 = h, a_content_type = c,
    a_created_at = clock s (reads s)\<rparr>"
  let ?P = "\<lambda>x. a_job_id x = i \<and> a_attempt x = a \<and> a_path x = p"
  have keys: "map artifact_key (sql_update ?P (\<lambda>_. ?row) rs) = map artifact_key rs" for rs
    by (induction rs) (auto simp: artifact_key_def)
  have ids: "map a_job_id (sql_update ?P (\<lambda>_. ?row) rs) = map a_job_id rs" for rs by (induction rs) auto
  then have ids: "a_job_id ` set (sql_update ?P (\<lambda>_. ?row) rs) = a_job_id ` set rs" for rs by (metis list.set_map)
  show "tables_ok (snd (UpsertArtifact i a p z h c s))"
  proof (cases "\<exists>x \<in> set (t_artifacts s). ?P x")
    case True
    with ok keys ids show ?thesis
      by (simp add: UpsertArtifact_def tx_bind_run Now_def Let_def tables_ok_def)
  next
    case False
    then have "artifact_key ?row \<notin> set (map artifact_key (t_artifacts s))" by (auto simp: artifact_key_def)
    with ok have "i \<in> j_id ` set (t_jobs s) \<Longrightarrow> tables_ok (s\<lparr>reads := Suc (reads s), t_artifacts := t_artifacts s @ [?row]\<rparr>)"
      by (simp add: tables_ok_def)
    with ok show ?thesis unfolding UpsertArtifact_def tx_bind_run Now_def Let_def using False by auto
  qed
qed

lemma tidy_CreateRun [intro, simp]:
  assumes "\<forall>j \<in> set js. ji_spec j \<noteq> None"
  shows "tidy (CreateRun r js ds)"
proof -
  have run: "tidy (insert_run x)" for x by (rule tx_alwaysI) (simp add: insert_run_def tables_ok_runs)
  have job: "tidy (insert_job (job_row now R x))" if "ji_spec x \<noteq> None" for now R x
    using that by (intro tx_alwaysI) (auto simp: insert_job_def job_row_def tables_ok_def intro!: tables_ok_jobs)
  have dep: "tidy (insert_dep x)" for x by (rule tx_alwaysI) (simp add: insert_dep_def tables_ok_def)
  have "tidy (create_jobs n now R js)" for n now R
    using assms
  proof (induction js arbitrary: n)
    case (Cons x xs)
    then show ?case by (simp only: create_jobs.simps) (intro tx_always_if tx_always_raise tx_always_bind job; simp)
  qed (simp only: create_jobs.simps tx_always_return)
  moreover have "tidy (create_deps R ids xs)" for R ids xs
    by (induction xs) (auto simp only: create_deps.simps intro!: tx_always_if tx_always_raise tx_always_return tx_always_bind dep)
  ultimately show ?thesis unfolding CreateRun_def
    by (intro tx_always_if tx_always_raise tx_always_bind tidy_Now run tx_always_return)
qed


section \<open>The transactions\<close>

lemmas tidy_intros = tx_always_bind tx_always_if tx_always_fold tx_always_return tx_always_raise tx_always_get
  tidy_Now tidy_reads tidy_spec tidy_event tidy_UpsertRunner tidy_TouchRunner tidy_MarkRunnersOffline tidy_writes
  tidy_SetRunState tidy_InsertLogChunk tidy_UpsertArtifact tidy_CreateRun

lemma tidy_advance_pass: "tidy (advance_pass R ns js m tr)"
  unfolding advance_pass_def advance_job_def advance_to_def
  by (intro tx_always_fold) (auto simp only: split: prod.splits intro!: tidy_intros)

lemma tidy_advance: "tidy (advance R tr)"
proof -
  have "tables_ok s \<Longrightarrow> tables_ok (snd (advance_loop R ns js m tr' s))" for ns js m tr' s
  proof (induction R ns js m tr' s rule: advance_loop.induct)
    case (1 r ns js m tr' s)
    obtain res s' where pass: "advance_pass r ns js m tr' s = (res, s')" by fastforce
    have "tables_ok s'" using tx_alwaysD [OF tidy_advance_pass 1(2) pass] .
    with 1(1) pass show ?case by (auto simp: advance_loop.simps [of r ns js m tr' s] split: sum.splits)
  qed
  then have "tidy (advance_loop R ns js m tr')" for ns js m tr' by (rule tx_alwaysI)
  moreover have "tidy (finalize_run R sts)" for sts
    unfolding finalize_run_def
    by (cases "final_loop sts RunSucceeded")
      (simp_all only: option.case tx_always_return, intro tidy_intros)
  ultimately show ?thesis unfolding advance_def
    by (intro tx_always_bind tidy_reads) (auto simp only: split: prod.splits intro!: tx_always_bind tx_always_return)
qed

lemma tidy_claim_tx: "tidy (claim_tx lease r)"
proof -
  have "tidy (claim_loop lease r q)" for q
    by (induction q) (auto simp only: claim_loop.simps split: prod.splits intro!: tidy_intros)
  then show ?thesis unfolding claim_tx_def by (intro tidy_intros)
qed

lemma tidy_heartbeat_tx: "tidy (heartbeat_tx lease r refs)"
  unfolding heartbeat_tx_def heartbeat_job_def
  by (auto simp only: split: prod.splits intro!: tidy_intros)

lemma tidy_complete_tx: "tidy (complete_tx i a v res)"
proof -
  have "tidy (complete_write job a v res tr)" for job tr
    unfolding complete_write_def finish_attempt_def by (cases v) (auto simp only: option.case intro!: tidy_intros)
  then show ?thesis unfolding complete_tx_def by (intro tidy_intros tidy_advance)
qed

lemma tidy_cancel_tx: "tidy (cancel_tx R)"
  unfolding cancel_tx_def cancel_one_def by (intro tidy_intros tidy_advance)

lemma tidy_tick_tx: "tidy (tick_tx g gr off)"
  unfolding tick_tx_def expire_one_def backstop_one_def
  by (auto simp only: split: prod.splits intro!: tidy_intros tidy_advance)

lemma tidy_append_tx: "tidy (append_tx cap i a cs)"
  unfolding append_tx_def append_chunk_def Let_def
  by (auto simp only: split: prod.splits intro!: tidy_intros)

lemma tidy_upload_tx: "tidy (upload_tx u)"
  unfolding upload_tx_def by (intro tidy_intros)

lemma tidy_submit_tx: "\<forall>j \<in> set js. ji_spec j \<noteq> None \<Longrightarrow> tidy (submit_tx R p src js ds)"
  unfolding submit_tx_def by (intro tidy_intros)

lemma tidy_register_tx: "tidy (register_tx fresh req)"
proof -
  have up: "tidy (tx_bind (UpsertRunner x) (\<lambda>_. tx_return y))" for x y by (intro tidy_intros)
  have "tables_ok s \<Longrightarrow> tables_ok (snd (tx_bind (UpsertRunner x) (\<lambda>_. tx_return y) s))" for x s and y :: string
    using up [of x y] unfolding tx_always_def by blast
  then show ?thesis
    by (intro tx_alwaysI) (simp add: register_tx_def split: prod.splits sum.splits err.splits)
qed

lemma tables_ok_Tx: "tidy m \<Longrightarrow> tables_ok s \<Longrightarrow> tables_ok (snd (Tx m s))"
  by (auto simp: tx_always_def Tx_def split: prod.splits sum.splits)

end
