(* ===== verification/ControlPlane.thy ===== *)
theory ControlPlane
  imports Tables
begin

text \<open>
  The control plane as a transition system: a server starts on an empty database and then serves
  authenticated requests, runs the lease monitor and restarts, in any order and with any
  arguments. The two halves of an artifact upload are separate steps, since other requests are
  served while the body streams. The invariant holds in every reachable state, and whatever a
  state recorded (the finished jobs and runs, the dependency edges, the audit log, the logs) is
  still there in all later ones.
\<close>


section \<open>The system\<close>

definition empty_store :: "(nat \<Rightarrow> int) \<Rightarrow> store" where
  "empty_store clk = \<lparr>t_runs = [], t_jobs = [], t_deps = [], t_runners = [], t_events = [], t_chunks = [],
     t_artifacts = [], clock = clk, reads = 0\<rparr>"

definition sys_init :: "server \<Rightarrow> bool" where
  "sys_init sv \<longleftrightarrow> (\<exists>clk cfg. sv_sched sv = New (empty_store clk) new_metrics cfg) \<and> fs_ok (sv_artifacts sv)"

inductive sys_step :: "(string \<Rightarrow> yaml_result) \<Rightarrow> server \<Rightarrow> server \<Rightarrow> bool" for decode where
  do_submit: "withToken sv hdr (handleSubmitRun decode newID b) = (resp, sv') \<Longrightarrow> sys_step decode sv sv'"
| do_cancel: "withToken sv hdr (handleCancelRun i) = (resp, sv') \<Longrightarrow> sys_step decode sv sv'"
| do_claim: "withToken sv hdr (handleClaim c) = (resp, sv') \<Longrightarrow> sys_step decode sv sv'"
| do_heartbeat: "withToken sv hdr (handleHeartbeat h) = (resp, sv') \<Longrightarrow> sys_step decode sv sv'"
| do_complete: "withToken sv hdr (handleComplete i d) = (resp, sv') \<Longrightarrow> sys_step decode sv sv'"
| do_register: "withToken sv hdr (handleRegister fresh q) = (resp, sv') \<Longrightarrow> sys_step decode sv sv'"
| do_logs: "withToken sv hdr (handleAppendLogs i l) = (resp, sv') \<Longrightarrow> sys_step decode sv sv'"
| do_upload: "requireToken (sv_token sv) hdr \<Longrightarrow> upload_begin sha i a path len ctype r sv = (res, sv') \<Longrightarrow>
    sys_step decode sv sv'"
| do_record: "upload_end u sv = (resp, sv') \<Longrightarrow> sys_step decode sv sv'"
| do_tick: "Tick (sv_sched sv) = (rep, sc) \<Longrightarrow> sys_step decode sv (sv\<lparr>sv_sched := sc\<rparr>)"
| do_restart: "sys_step decode sv (sv\<lparr>sv_sched := New (st (sv_sched sv)) new_metrics cfg\<rparr>)"


section \<open>What a state keeps of an earlier one\<close>

definition grows :: "store \<Rightarrow> store \<Rightarrow> bool" where
  "grows s s' \<longleftrightarrow>
     (\<exists>js. prefix js (t_jobs s') \<and> list_all2 job_step\<^sup>*\<^sup>* (t_jobs s) js) \<and>
     (\<exists>rs. prefix rs (t_runs s') \<and> list_all2 run_step\<^sup>*\<^sup>* (t_runs s) rs) \<and>
     prefix (t_deps s) (t_deps s') \<and> prefix (t_events s) (t_events s') \<and> prefix (t_chunks s) (t_chunks s') \<and>
     clock s' = clock s"

lemma evolves_grows: "evolves s s' \<Longrightarrow> grows s s'"
  by (auto simp: evolves_def grows_def)

lemma prefix_steps_trans:
  assumes "prefix ys (Y :: 'a list)" and "list_all2 R\<^sup>*\<^sup>* xs ys" and "prefix zs Z" and "list_all2 R\<^sup>*\<^sup>* Y zs"
  shows "\<exists>ws. prefix ws Z \<and> list_all2 R\<^sup>*\<^sup>* xs ws"
proof -
  from assms(1,4) obtain ws vs where "zs = ws @ vs" "list_all2 R\<^sup>*\<^sup>* ys ws"
    by (auto simp: prefix_def list_all2_append1)
  with assms(2,3) show ?thesis by (metis list_all2_rtranclp_trans prefixI prefix_order.trans)
qed

lemma grows_trans: "grows s t \<Longrightarrow> grows t u \<Longrightarrow> grows s u"
  unfolding grows_def
  by (elim conjE exE) (intro conjI; (rule prefix_order.trans | rule prefix_steps_trans | simp); assumption)

interpretation growth: state_order grows
  by unfold_locales (rule evolves_grows [OF evolves_refl], rule grows_trans)

lemma grows_submit_tx: "tx_within grows (submit_tx R p src js ds)"
proof -
  have run: "tx_within grows (insert_run x)" for x
    by (auto simp: tx_within_def insert_run_def grows_def intro: exI [of _ "t_runs s" for s] exI [of _ "t_jobs s" for s])
  have job: "tx_within grows (insert_job x)" for x
    by (auto simp: tx_within_def insert_job_def grows_def intro: exI [of _ "t_runs s" for s] exI [of _ "t_jobs s" for s])
  have dep: "tx_within grows (insert_dep x)" for x
    by (auto simp: tx_within_def insert_dep_def grows_def intro: exI [of _ "t_runs s" for s] exI [of _ "t_jobs s" for s])
  have now: "tx_within grows Now"
    using keeps_Now by (auto simp: tx_within_def intro: evolves_grows)
  have ev: "tx_within grows (AppendEvent R i t d)" for R i t d
    using keeps_event by (auto simp: tx_within_def event_def intro: evolves_grows)
  note i = growth.within_bind growth.within_if growth.within_raise growth.within_return
  have "tx_within grows (create_jobs n now R xs)" for n now R xs
    by (induction xs arbitrary: n) (simp_all only: create_jobs.simps, (intro i job; blast)+)
  moreover have "tx_within grows (create_deps R ids xs)" for R ids xs
    by (induction xs) (simp_all only: create_deps.simps, (intro i dep; blast)+)
  ultimately show ?thesis unfolding submit_tx_def CreateRun_def by (intro i run now ev)
qed


section \<open>Every transaction\<close>

text \<open>From a good database a transaction leads to a good one that keeps what was recorded.\<close>

definition sound :: "store \<Rightarrow> store \<Rightarrow> bool" where
  "sound s s' \<longleftrightarrow> (store_inv s \<and> tables_ok s \<longrightarrow> store_inv s' \<and> tables_ok s' \<and> grows s s')"

lemma inv_reads [simp]: "store_inv (s\<lparr>reads := n\<rparr>) = store_inv s"
proof -
  have "run_jobs R (s\<lparr>reads := n\<rparr>) = run_jobs R s" for R by (simp add: run_jobs_def)
  moreover have "job_needs (s\<lparr>reads := n\<rparr>) = job_needs s" by (simp add: job_needs_def fun_eq_iff)
  ultimately show ?thesis by (simp add: store_inv_def base_def linked_def view_def dep_rel_def ready_def job_states_def)
qed

lemma sound_Tx:
  assumes "tidy m" and "store_inv s \<Longrightarrow> grows s (snd (m s))" and "\<And>x s'. store_inv s \<Longrightarrow> m s = (Inr x, s') \<Longrightarrow> store_inv s'"
  shows "sound s (snd (Tx m s))"
proof -
  have "store_inv (snd (Tx m s)) \<and> grows s (snd (Tx m s))" if i: "store_inv s"
  proof (cases "m s")
    case (Pair r s1)
    show ?thesis
    proof (cases r)
      case (Inl e)
      with Pair i show ?thesis by (simp add: Tx_def evolves_grows)
    next
      case (Inr x)
      with Pair i assms(2) assms(3) show ?thesis by (simp add: Tx_def)
    qed
  qed
  with tables_ok_Tx [OF assms(1)] show ?thesis by (simp add: sound_def)
qed

lemma sound_calm:
  assumes "tidy m" and "keeps m" and "calms m"
  shows "sound s (snd (Tx m s))"
proof (rule sound_Tx [OF assms(1)])
  show "grows s (snd (m s))" using assms(2) by (simp add: tx_within_def evolves_grows)
  show "store_inv s'" if "store_inv s" "m s = (Inr x, s')" for x s'
    using inv_calm [OF that(1)] keepsD [OF assms(2) that(2)] calmness.withinD [OF assms(3) that(2)] by blast
qed

lemma sound_txs:
  "sound s (snd (Tx (claim_tx lease r) s))" "sound s (snd (Tx (heartbeat_tx lease q refs) s))"
  "sound s (snd (Tx (append_tx cap i a cs) s))"
  by (intro sound_calm tidy_claim_tx keeps_claim_tx calms_claim_tx tidy_heartbeat_tx keeps_heartbeat_tx
      calms_heartbeat_tx tidy_append_tx keeps_append_tx calms_append_tx)+

lemma sound_complete: "sound s (snd (Tx (complete_tx i a v res) s))"
  by (rule sound_Tx [OF tidy_complete_tx]) (auto intro: evolves_grows complete_tx_evolves inv_distinct complete_tx_inv)

lemma sound_cancel: "sound s (snd (Tx (cancel_tx R) s))"
  by (rule sound_Tx [OF tidy_cancel_tx])
    (use keeps_cancel_tx in \<open>auto simp: tx_within_def intro: evolves_grows cancel_tx_inv\<close>)

lemma sound_tick: "sound s (snd (Tx (tick_tx g gr off) s))"
  by (rule sound_Tx [OF tidy_tick_tx]) (auto intro: evolves_grows tick_tx_evolves inv_distinct tick_tx_inv)

lemma calm_keeps_upload: "keeps (upload_tx u)" "calms (upload_tx u)"
proof -
  have "keeps (UpsertArtifact i a p z h c)" "calms (UpsertArtifact i a p z h c)" for i a p z h c
    by (auto simp: tx_within_def UpsertArtifact_def tx_bind_run Now_def Let_def evolves_def intro!: calm_same_tables)
  note up = this
  show "keeps (upload_tx u)" unfolding upload_tx_def by (intro keeps_bind keeps_if keeps_GetJob keeps_raise up)
  show "calms (upload_tx u)" unfolding upload_tx_def by (intro calms_intros calms_reads up)
qed

lemma calm_keeps_register: "keeps (register_tx fresh req)" "calms (register_tx fresh req)"
proof -
  have "keeps (tx_bind (UpsertRunner x) (\<lambda>_. tx_return y))" for x and y :: string
    by (intro keeps_bind keeps_UpsertRunner keeps_return)
  moreover have "calms (tx_bind (UpsertRunner x) (\<lambda>_. tx_return y))" for x and y :: string
    by (intro calms_intros calms_UpsertRunner)
  ultimately have "evolves s (snd (tx_bind (UpsertRunner x) (\<lambda>_. tx_return y) s))"
    "calm s (snd (tx_bind (UpsertRunner x) (\<lambda>_. tx_return y) s))" for x s and y :: string
    by (auto simp only: tx_within_def)
  then show "keeps (register_tx fresh req)" "calms (register_tx fresh req)"
    by (simp_all add: tx_within_def register_tx_def calmness.R_refl split: prod.splits sum.splits err.splits)
qed

lemmas sound_upload = sound_calm [OF tidy_upload_tx calm_keeps_upload]
lemmas sound_register = sound_calm [OF tidy_register_tx calm_keeps_register]

lemma submitRun_sound:
  assumes "finalize p0 = Inr p" and "0 < mA"
  shows "sound s (snd (submitRun newID R p src mA s))"
proof (cases "submit_jobs newID 0 (set (Roots p)) mA (p_jobs p) []")
  case (Inl e)
  then show ?thesis by (simp add: submitRun_def sound_def growth.R_refl)
next
  case (Inr y)
  obtain js ids where y: "y = (js, ids)" by (cases y)
  let ?m = "submit_tx R p src js (submit_deps ids (p_jobs p))"
  have eq: "submitRun newID R p src mA s = Tx ?m s" using Inr y by (simp add: submitRun_def)
  have "store_inv s'" if "store_inv s" "?m s = (Inr x, s')" for x s'
    using submitRun_inv [OF assms(1) _ that(1) assms(2), of newID R src x s'] that(2) eq by (simp add: Tx_def)
  then have "sound s (snd (Tx ?m s))"
    using grows_submit_tx submit_jobs_specs Inr y by (intro sound_Tx tidy_submit_tx) (auto simp: tx_within_def)
  with eq show ?thesis by simp
qed


section \<open>Every step\<close>

definition sys_inv :: "server \<Rightarrow> bool" where
  "sys_inv sv \<longleftrightarrow> store_inv (st (sv_sched sv)) \<and> tables_ok (st (sv_sched sv)) \<and> 0 < maxAttempts (sv_sched sv) \<and>
     fs_ok (sv_artifacts sv)"

definition sys_grows :: "server \<Rightarrow> server \<Rightarrow> bool" where
  "sys_grows sv sv' \<longleftrightarrow> grows (st (sv_sched sv)) (st (sv_sched sv'))"

text \<open>What each handler does to the database is a transaction; it leaves the configuration alone.\<close>

definition good_step :: "server \<Rightarrow> server \<Rightarrow> bool" where
  "good_step sv sv' \<longleftrightarrow> (sys_inv sv \<longrightarrow>
     sound (st (sv_sched sv)) (st (sv_sched sv')) \<and> 0 < maxAttempts (sv_sched sv') \<and> fs_ok (sv_artifacts sv'))"

lemma good_stepD: "good_step sv sv' \<Longrightarrow> sys_inv sv \<Longrightarrow> sys_inv sv' \<and> sys_grows sv sv'"
  by (auto simp: good_step_def sys_inv_def sys_grows_def sound_def)

lemma sound_refl [simp]: "sound s s" "sound s (s\<lparr>reads := n\<rparr>)"
  by (simp_all add: sound_def evolves_grows)

lemma good_refl [simp]: "good_step sv sv"
  by (simp add: good_step_def sys_inv_def)

lemma good_sched:
  assumes "sound (st (sv_sched sv)) (st sc)" and "maxAttempts sc = maxAttempts (sv_sched sv)"
  shows "good_step sv (sv\<lparr>sv_sched := sc\<rparr>)"
  using assms by (simp add: good_step_def sys_inv_def)

lemma scheduler_config:
  "Claim sc r = (x1, sc1) \<Longrightarrow> maxAttempts sc1 = maxAttempts sc"
  "Heartbeat sc i refs = (x2, sc2) \<Longrightarrow> maxAttempts sc2 = maxAttempts sc"
  "Complete sc i a res = (x3, sc3) \<Longrightarrow> maxAttempts sc3 = maxAttempts sc"
  "CancelRun sc R = (x4, sc4) \<Longrightarrow> maxAttempts sc4 = maxAttempts sc"
  "Tick sc = (x5, sc5) \<Longrightarrow> maxAttempts sc5 = maxAttempts sc"
  "AppendLogs sc i a cs = (x6, sc6) \<Longrightarrow> maxAttempts sc6 = maxAttempts sc"
  by (auto simp: Claim_def Heartbeat_def Complete_def CancelRun_def Tick_def AppendLogs_def Let_def
      split: if_splits prod.splits sum.splits option.splits)

lemma snd_eqI: "m s = (r, s') \<Longrightarrow> sound s (snd (m s)) \<Longrightarrow> sound s s'"
  by simp

lemma scheduler_sound:
  "Claim sc r = (x1, sc1) \<Longrightarrow> sound (st sc) (st sc1)"
  "Heartbeat sc i refs = (x2, sc2) \<Longrightarrow> sound (st sc) (st sc2)"
  "Complete sc i a res = (x3, sc3) \<Longrightarrow> sound (st sc) (st sc3)"
  "CancelRun sc R = (x4, sc4) \<Longrightarrow> sound (st sc) (st sc4)"
  "Tick sc = (x5, sc5) \<Longrightarrow> sound (st sc) (st sc5)"
  "AppendLogs sc i a cs = (x6, sc6) \<Longrightarrow> sound (st sc) (st sc6)"
  by (auto simp: Claim_def Heartbeat_def Complete_def CancelRun_def Tick_def AppendLogs_def Let_def
      split: if_splits prod.splits sum.splits option.splits
      elim!: snd_eqI intro: sound_txs sound_complete sound_cancel sound_tick)

lemmas good_scheduler = good_sched [OF scheduler_sound(1) scheduler_config(1)]
  good_sched [OF scheduler_sound(2) scheduler_config(2)] good_sched [OF scheduler_sound(3) scheduler_config(3)]
  good_sched [OF scheduler_sound(4) scheduler_config(4)] good_sched [OF scheduler_sound(5) scheduler_config(5)]
  good_sched [OF scheduler_sound(6) scheduler_config(6)]

lemma good_handlers:
  "handleCancelRun i sv = (x1, sv1) \<Longrightarrow> good_step sv sv1"
  "handleClaim c sv = (x2, sv2) \<Longrightarrow> good_step sv sv2"
  "handleHeartbeat h sv = (x3, sv3) \<Longrightarrow> good_step sv sv3"
  "handleComplete i d sv = (x4, sv4) \<Longrightarrow> good_step sv sv4"
  "handleAppendLogs i l sv = (x5, sv5) \<Longrightarrow> good_step sv sv5"
  by (auto simp: handleCancelRun_def handleClaim_def handleHeartbeat_def handleComplete_def handleAppendLogs_def
      split: if_splits prod.splits sum.splits option.splits intro: good_scheduler)

lemma good_register: "handleRegister fresh q sv = (x, sv') \<Longrightarrow> good_step sv sv'"
  by (auto simp: handleRegister_def split: if_splits prod.splits sum.splits
      intro!: good_sched elim!: snd_eqI intro: sound_register)

lemma good_files:
  assumes "fs_ok (sv_artifacts sv) \<Longrightarrow> fs_ok fs"
  shows "good_step sv (sv\<lparr>sv_artifacts := fs\<rparr>)"
  using assms by (simp add: good_step_def sys_inv_def)

lemma good_upload_begin:
  assumes "upload_begin sha i a path len ctype r sv = (res, sv')"
  shows "good_step sv sv'"
proof -
  have "fs_ok (sv_artifacts sv) \<Longrightarrow> fs_ok fs" if "local_Put k rd n (sv_artifacts sv) = (x, fs)" for k rd n x fs
    using local_Put_ok [of "sv_artifacts sv" k rd n] that by simp
  with assms show ?thesis
    by (auto simp: upload_begin_def Let_def split: param.splits if_splits prod.splits sum.splits art_error.splits
        read_error.splits intro!: good_files)
qed

lemma good_upload_end: "upload_end u sv = (resp, sv') \<Longrightarrow> good_step sv sv'"
  by (auto simp: upload_end_def good_step_def sys_inv_def discard_def split: prod.splits sum.splits
      elim!: snd_eqI intro: sound_upload local_Delete_ok)

lemma good_restart: "good_step sv (sv\<lparr>sv_sched := New (st (sv_sched sv)) m cfg\<rparr>)"
  by (simp add: good_step_def sys_inv_def New_def Let_def or_default_def DefaultMaxAttempts_def)

lemma Parse_finalize: "Parse decode src = Inr p \<Longrightarrow> \<exists>p0. finalize p0 = Inr p"
  by (auto simp: Parse_def split: yaml_result.splits if_splits)

lemma readMultipart_ok:
  "readMultipartSubmit R ps src stored fs = (x, stored', fs') \<Longrightarrow> fs_ok fs \<Longrightarrow> fs_ok fs'"
proof (induction R ps src stored fs rule: readMultipartSubmit.induct)
  case (2 R p ps src stored fs)
  have "fs_ok (snd (local_Put k rd n fs))" for k rd n using local_Put_ok [OF 2(4)] .
  with 2 show ?case
    by (cases p) (auto split: sum.splits if_splits prod.splits art_error.splits, (metis snd_conv)+)
qed (auto split: option.splits)

lemma good_submit:
  assumes "handleSubmitRun decode newID b sv = (resp, sv')"
  shows "good_step sv sv'"
proof -
  obtain x stored fs where rd: "read_submit (newID 0) b (sv_artifacts sv) = (x, stored, fs)" by (metis prod_cases3)
  have fs: "fs_ok fs" if "fs_ok (sv_artifacts sv)"
    using rd that by (auto simp: read_submit_def split: submit_body.splits dest: readMultipart_ok)
  then have dis: "fs_ok (discard_if stored k fs)" if "fs_ok (sv_artifacts sv)" for k
    using that by (simp add: discard_if_def discard_def local_Delete_ok)
  have sub: "sound (st (sv_sched sv)) s'" if "Parse decode src = Inr p" "0 < maxAttempts (sv_sched sv)"
      "submitRun f R p src (maxAttempts (sv_sched sv)) (st (sv_sched sv)) = (y, s')" for src p f R y s'
    using Parse_finalize [OF that(1)] submitRun_sound that(2,3) by (metis snd_conv)
  show ?thesis
    using assms rd fs dis sub
    by (auto simp: handleSubmitRun_def Let_def good_step_def sys_inv_def split: sum.splits read_error.splits prod.splits)
qed

lemma good_token:
  assumes "withToken sv hdr h = (resp, sv')" and "\<And>x sv1. h sv = (x, sv1) \<Longrightarrow> good_step sv sv1"
  shows "good_step sv sv'"
  using assms by (auto simp: withToken_def split: if_splits)

lemma sys_step_good: "sys_step decode sv sv' \<Longrightarrow> good_step sv sv'"
proof (induction rule: sys_step.induct)
  case (do_upload sv hdr sha i a path len ctype r res sv')
  then show ?case by (simp add: good_upload_begin)
next
  case (do_record u sv resp sv')
  then show ?case by (rule good_upload_end)
next
  case (do_tick sv rep sc)
  show ?case by (rule good_scheduler(5) [OF do_tick do_tick])
next
  case (do_restart sv cfg)
  show ?case by (rule good_restart)
qed (erule good_token, erule good_submit good_handlers good_register)+

interpretation control_plane: growing_system sys_init "sys_step decode" sys_inv sys_grows
proof
  fix sv sv' sv'' :: server
  show "sys_inv sv" if "sys_init sv"
    using that by (auto simp: sys_init_def sys_inv_def New_def Let_def empty_store_def store_inv_def base_def linked_def ready_def
        tables_ok_def numbered_def dep_rel_def job_needs_def or_default_def DefaultMaxAttempts_def acyclic_def)
  show "sys_inv sv'" if "sys_inv sv" "sys_step decode sv sv'"
    using good_stepD [OF sys_step_good [OF that(2)] that(1)] by blast
  show "sys_grows sv sv'" if "sys_inv sv" "sys_step decode sv sv'"
    using good_stepD [OF sys_step_good [OF that(2)] that(1)] by blast
  show "sys_grows sv sv" by (simp add: sys_grows_def growth.R_refl)
  show "sys_grows sv sv''" if "sys_grows sv sv'" "sys_grows sv' sv''"
    using that growth.R_trans by (simp add: sys_grows_def)
qed

end
