(* ===== verification/Demo.thy ===== *)
theory Demo
  imports ControlPlane
begin

text \<open>
  A small execution of the control plane, evaluated: a server on an empty database, the submission
  of the example pipeline, a claim, a completion. The states are the inputs on which the
  properties with hypotheses are instantiated.
\<close>

definition demo_clock :: "nat \<Rightarrow> int" where
  "demo_clock n = 1000 + int n"

definition demo_cfg :: Config where
  "demo_cfg = \<lparr>c_lease_ttl = 0, c_log_cap_bytes = 4, c_max_attempts = 2, c_monitor_interval = 0,
     c_runner_offline_after = 0, c_timeout_grace = 0\<rparr>"

definition demo_decode :: "string \<Rightarrow> yaml_result" where
  "demo_decode src = YamlDoc demo_pipeline"

definition demo_ids :: "nat \<Rightarrow> string" where
  "demo_ids n = Itoa (int n)"

definition demo_header :: "string option" where
  "demo_header = Some ''Bearer token''"

definition demo_sv0 :: server where
  "demo_sv0 = \<lparr>sv_sched = New (empty_store demo_clock) new_metrics demo_cfg,
     sv_artifacts = \<lparr>lf_files = [], lf_dirs = []\<rparr>, sv_token = ''token''\<rparr>"

definition demo_runner :: RunnerInfo where
  "demo_runner = \<lparr>ru_id = ''r1'', ru_name = ''one'', ru_labels = [], ru_capacity = 1, ru_version = ''v''\<rparr>"

definition demo_body :: submit_body where
  "demo_body = RawBody \<lparr>rd_bytes = ''jobs'', rd_error = None\<rparr>"

definition demo_sv1 :: server where
  "demo_sv1 = snd (withToken demo_sv0 demo_header (handleSubmitRun demo_decode demo_ids demo_body))"

definition demo_sv2 :: server where
  "demo_sv2 = snd (withToken demo_sv1 demo_header (handleClaim (BodyOK demo_runner)))"

definition demo_result :: "string \<Rightarrow> string \<Rightarrow> Result" where
  "demo_result status kind = \<lparr>res_status = status, res_failure_kind = kind, res_exit_code = None, res_error = []\<rparr>"

definition demo_sv3 :: server where
  "demo_sv3 = snd (withToken demo_sv2 demo_header
     (handleComplete ''4'' (BodyOK (''r1'', 1, demo_result ''failed'' ''infra''))))"

definition demo_sv4 :: server where
  "demo_sv4 = snd (withToken demo_sv3 demo_header (handleClaim (BodyOK demo_runner)))"

definition demo_sv5 :: server where
  "demo_sv5 = snd (withToken demo_sv4 demo_header
     (handleComplete ''4'' (BodyOK (''r1'', 2, demo_result ''succeeded'' []))))"

lemma demo_steps:
  "sys_step demo_decode demo_sv0 demo_sv1" "sys_step demo_decode demo_sv1 demo_sv2"
  "sys_step demo_decode demo_sv2 demo_sv3" "sys_step demo_decode demo_sv3 demo_sv4"
  "sys_step demo_decode demo_sv4 demo_sv5"
  unfolding demo_sv1_def demo_sv2_def demo_sv3_def demo_sv4_def demo_sv5_def
  by (rule do_submit do_claim do_complete, rule surjective_pairing)+

lemma demo_reach:
  "(sys_step demo_decode)\<^sup>*\<^sup>* demo_sv0 demo_sv1" "(sys_step demo_decode)\<^sup>*\<^sup>* demo_sv0 demo_sv2"
  "(sys_step demo_decode)\<^sup>*\<^sup>* demo_sv0 demo_sv3" "(sys_step demo_decode)\<^sup>*\<^sup>* demo_sv0 demo_sv4"
  "(sys_step demo_decode)\<^sup>*\<^sup>* demo_sv0 demo_sv5" "(sys_step demo_decode)\<^sup>*\<^sup>* demo_sv2 demo_sv4"
  using demo_steps by (auto intro: rtranclp.rtrancl_into_rtrancl)

lemma demo_sv0_init: "sys_init demo_sv0"
  by (auto simp: sys_init_def demo_sv0_def fs_ok_def)

text \<open>The submission, evaluated up to the transaction.\<close>

definition demo_submit :: "(err + Run \<times> Job list) \<times> store" where
  "demo_submit = submitRun (demo_ids \<circ> Suc) (demo_ids 0) demo_final ''jobs'' 2 (st (sv_sched demo_sv0))"

lemma demo_submit_ok: "fst demo_submit = Inr (the (find (\<lambda>_. True) (t_runs (snd demo_submit))), t_jobs (snd demo_submit))"
  by code_simp

lemma demo_submission:
  obtains run js s where "demo_submit = (Inr (run, js), s)"
    and "handleSubmitRun demo_decode demo_ids demo_body demo_sv0 = ((201, Some (run, js)),
      demo_sv0\<lparr>sv_sched := (sv_sched demo_sv0)\<lparr>st := s, mx := count_queued js new_metrics\<rparr>\<rparr>)"
proof -
  have max: "maxAttempts (sv_sched demo_sv0) = 2" "mx (sv_sched demo_sv0) = new_metrics"
    by (simp_all add: demo_sv0_def New_def Let_def or_default_def demo_cfg_def)
  have read: "read_submit i demo_body fs = (Inr ''jobs'', False, fs)" for i fs
    by (simp add: read_submit_def read_max_def demo_body_def MaxPipelineBytes_def)
  have parse: "Parse demo_decode ''jobs'' = Inr demo_final"
    by (simp add: Parse_def demo_decode_def demo_finalize)
  obtain x y s where sub: "demo_submit = (Inr (x, y), s)" using demo_submit_ok by (metis prod.collapse)
  then have "submitRun (demo_ids \<circ> Suc) (demo_ids 0) demo_final ''jobs'' 2 (st (sv_sched demo_sv0)) = (Inr (x, y), s)"
    by (simp add: demo_submit_def)
  then show thesis by (intro that [OF sub]) (simp add: handleSubmitRun_def read parse max)
qed

lemma demo_sv1_code [code]:
  "demo_sv1 = (case demo_submit of (Inr (run, js), s) \<Rightarrow>
     demo_sv0\<lparr>sv_sched := (sv_sched demo_sv0)\<lparr>st := s, mx := count_queued js new_metrics\<rparr>\<rparr> | _ \<Rightarrow> demo_sv0)"
proof -
  have tok: "requireToken (sv_token demo_sv0) demo_header" by code_simp
  obtain run js s where sub: "demo_submit = (Inr (run, js), s)"
    and resp: "handleSubmitRun demo_decode demo_ids demo_body demo_sv0 = ((201, Some (run, js)),
      demo_sv0\<lparr>sv_sched := (sv_sched demo_sv0)\<lparr>st := s, mx := count_queued js new_metrics\<rparr>\<rparr>)" by (rule demo_submission)
  show ?thesis unfolding sub demo_sv1_def withToken_def by (simp add: tok resp)
qed

definition demo_glance :: "Scheduler \<Rightarrow> (string \<times> job_state \<times> int) list \<times> LogChunk list \<times> int" where
  "demo_glance sc = (map (\<lambda>j. (j_id j, j_state j, j_attempt j)) (t_jobs (st sc)), t_chunks (st sc), logCap sc)"

lemma demo_glances:
  "demo_glance (sv_sched demo_sv2) = ([(''1'', JobPending, 0), (''2'', JobPending, 0), (''3'', JobPending, 0), (''4'', JobRunning, 1)], [], 4)"
  "demo_glance (sv_sched demo_sv4) = ([(''1'', JobPending, 0), (''2'', JobPending, 0), (''3'', JobPending, 0), (''4'', JobRunning, 2)], [], 4)"
  by code_simp+

lemma demo_jobs:
  "map (\<lambda>j. (j_id j, j_state j, j_attempt j)) (t_jobs (st (sv_sched demo_sv2))) =
     [(''1'', JobPending, 0), (''2'', JobPending, 0), (''3'', JobPending, 0), (''4'', JobRunning, 1)]"
  "map (\<lambda>j. (j_id j, j_state j, j_attempt j)) (t_jobs (st (sv_sched demo_sv4))) =
     [(''1'', JobPending, 0), (''2'', JobPending, 0), (''3'', JobPending, 0), (''4'', JobRunning, 2)]"
  "t_chunks (st (sv_sched demo_sv4)) = []" "logCap (sv_sched demo_sv4) = 4"
  using demo_glances unfolding demo_glance_def prod.inject by - (elim conjE; assumption)+

text \<open>The tables after the last step, evaluated once.\<close>

definition demo_view :: "store \<Rightarrow> (string \<times> job_state \<times> string) list \<times> (string \<times> run_state) list \<times> JobDep list \<times>
    (string \<times> string) list" where
  "demo_view s = (map (\<lambda>j. (j_id j, j_state j, j_run_id j)) (t_jobs s), map (\<lambda>r. (r_id r, r_state r)) (t_runs s),
     t_deps s, map (\<lambda>e. (e_run_id e, e_type e)) (t_events s))"

lemma demo_tables:
  "demo_view (st (sv_sched demo_sv5)) =
   ([(''1'', JobPending, ''0''), (''2'', JobQueued, ''0''), (''3'', JobQueued, ''0''), (''4'', JobSucceeded, ''0'')],
    [(''0'', RunRunning)], [\<lparr>d_job_id = ''1'', d_needs_job_id = ''2''\<rparr>, \<lparr>d_job_id = ''1'', d_needs_job_id = ''3''\<rparr>,
     \<lparr>d_job_id = ''2'', d_needs_job_id = ''4''\<rparr>, \<lparr>d_job_id = ''3'', d_needs_job_id = ''4''\<rparr>],
    [(''0'', ''run.created''), (''0'', ''run.started''), (''0'', ''job.claimed''), (''0'', ''job.requeued''),
     (''0'', ''job.claimed''), (''0'', ''job.succeeded''), (''0'', ''job.queued''), (''0'', ''job.queued'')])"
  by code_simp

lemma demo_final_tables:
  "map (\<lambda>j. (j_id j, j_state j, j_run_id j)) (t_jobs (st (sv_sched demo_sv5))) =
     [(''1'', JobPending, ''0''), (''2'', JobQueued, ''0''), (''3'', JobQueued, ''0''), (''4'', JobSucceeded, ''0'')]"
  "map (\<lambda>r. (r_id r, r_state r)) (t_runs (st (sv_sched demo_sv5))) = [(''0'', RunRunning)]"
  "t_deps (st (sv_sched demo_sv5)) = [\<lparr>d_job_id = ''1'', d_needs_job_id = ''2''\<rparr>, \<lparr>d_job_id = ''1'', d_needs_job_id = ''3''\<rparr>,
     \<lparr>d_job_id = ''2'', d_needs_job_id = ''4''\<rparr>, \<lparr>d_job_id = ''3'', d_needs_job_id = ''4''\<rparr>]"
  "map (\<lambda>e. (e_run_id e, e_type e)) (t_events (st (sv_sched demo_sv5))) =
     [(''0'', ''run.created''), (''0'', ''run.started''), (''0'', ''job.claimed''), (''0'', ''job.requeued''),
      (''0'', ''job.claimed''), (''0'', ''job.succeeded''), (''0'', ''job.queued''), (''0'', ''job.queued'')]"
  using demo_tables unfolding demo_view_def prod.inject by - (elim conjE; assumption)+

end
