(* ===== verification/Fencing.thy ===== *)
theory Fencing
  imports Demo
begin

text \<open>
  Fencing: the writes a runner makes for an attempt (its completion, its log chunks, its artifact
  rows) are accepted only from the attempt that is current and running. The interface
  \<open>fenced_write\<close> states what the three have in common, and the client's lemma lifts it to
  executions: an attempt that was superseded once stays locked out for ever.
\<close>

definition holds :: "string \<Rightarrow> int \<Rightarrow> store \<Rightarrow> bool" where
  "holds i a s \<longleftrightarrow> (\<exists>j. find (\<lambda>j. j_id j = i) (t_jobs s) = Some j \<and> j_state j = JobRunning \<and> j_attempt j = a)"

lemma grows_row:
  assumes "grows s s'" and "j \<in> set (t_jobs s)"
  shows "\<exists>q \<in> set (t_jobs s'). job_step\<^sup>*\<^sup>* j q"
proof -
  from assms(1) obtain js where "prefix js (t_jobs s')" "list_all2 job_step\<^sup>*\<^sup>* (t_jobs s) js"
    unfolding grows_def by blast
  with assms(2) show ?thesis using list_all2_in_left set_mono_prefix by (metis subsetD)
qed

locale fenced_write =
  fixes wr :: "string \<Rightarrow> int \<Rightarrow> 'a stx"
  assumes idle: "\<not> holds i a s \<Longrightarrow> snd (wr i a s) = s"
    and stale: "find (\<lambda>j. j_id j = i) (t_jobs s) = Some j \<Longrightarrow> a < j_attempt j \<Longrightarrow> wr i a s = (Inl ErrFenced, s)"
begin

lemma stale_Tx:
  assumes "find (\<lambda>j. j_id j = i) (t_jobs s) = Some j" and "a < j_attempt j"
  shows "Tx (wr i a) s = (Inl ErrFenced, s)"
  using stale [OF assms] by (simp add: Tx_def)

lemma idle_Tx: "\<not> holds i a s \<Longrightarrow> snd (Tx (wr i a) s) = s"
  using idle [of i a s] by (auto simp: Tx_def split: prod.splits sum.splits)

text \<open>Rows keep their place and attempts only grow, so a superseded attempt never comes back.\<close>

lemma locked_out:
  assumes "grows s s'" and "distinct (map j_id (t_jobs s'))" and "j \<in> set (t_jobs s)" and "a < j_attempt j"
  shows "Tx (wr (j_id j) a) s' = (Inl ErrFenced, s')"
proof -
  from grows_row [OF assms(1,3)] obtain q where q: "q \<in> set (t_jobs s')" "job_step\<^sup>*\<^sup>* j q" by blast
  with job_steps_static [OF q(2)] assms(4) have "j_id q = j_id j" "a < j_attempt q" by auto
  with find_keyed_Some [OF assms(2) q(1)] show ?thesis using stale_Tx by metis
qed

end

lemma complete_tx_fence:
  assumes "find (\<lambda>j. j_id j = i) (t_jobs s) = Some j" and "\<not> (j_state j = JobRunning \<and> j_attempt j = a)"
  shows "complete_tx i a v res s =
    (if j_attempt j = a \<and> isTerminal (j_state j) then (Inr (j, no_transitions), s) else (Inl ErrFenced, s))"
  using assms by (auto simp: complete_tx_def GetJob_def tx_bind_run)

interpretation complete_write: fenced_write "\<lambda>i a. complete_tx i a v res"
proof
  show "snd (complete_tx i a v res s) = s" if "\<not> holds i a s" for i a s
    using that complete_tx_fence [of i s _ a v res]
    by (cases "find (\<lambda>j. j_id j = i) (t_jobs s)") (auto simp: holds_def complete_tx_def GetJob_def tx_bind_run)
  show "complete_tx i a v res s = (Inl ErrFenced, s)"
    if "find (\<lambda>j. j_id j = i) (t_jobs s) = Some j" "a < j_attempt j" for i a s j
    using complete_tx_fence [OF that(1)] that(2) by simp
qed

interpretation logs_write: fenced_write "\<lambda>i a. append_tx cap i a cs"
  by unfold_locales (auto simp: holds_def append_tx_def GetJob_def tx_bind_run split: option.splits)

interpretation artifact_write: fenced_write "\<lambda>i a. upload_tx (u\<lparr>up_job := i, up_attempt := a\<rparr>)"
  by unfold_locales (auto simp: holds_def upload_tx_def GetJob_def tx_bind_run split: option.splits)

lemma reachable_distinct:
  "sys_init sv \<Longrightarrow> (sys_step decode)\<^sup>*\<^sup>* sv sv' \<Longrightarrow> distinct (map j_id (t_jobs (st (sv_sched sv'))))"
  using control_plane.reachable_I [of sv decode sv'] by (simp add: sys_inv_def inv_distinct)

lemma reachable_grows:
  assumes "sys_init sv0" and "(sys_step decode)\<^sup>*\<^sup>* sv0 sv" and "(sys_step decode)\<^sup>*\<^sup>* sv sv'"
  shows "grows (st (sv_sched sv)) (st (sv_sched sv'))"
  using control_plane.steps_R [OF assms(3) control_plane.reachable_I [OF assms(1,2)]] by (simp add: sys_grows_def)

lemmas later_distinct = reachable_distinct [OF _ rtranclp_trans]

text \<open>In the example execution job 4 was claimed a second time before \<open>demo_sv4\<close>.\<close>

lemma demo_second_attempt:
  obtains j where "j \<in> set (t_jobs (st (sv_sched demo_sv4)))" and "j_id j = ''4''" and "1 < j_attempt j"
proof -
  have "(''4'', JobRunning, 2) \<in> set (map (\<lambda>j. (j_id j, j_state j, j_attempt j)) (t_jobs (st (sv_sched demo_sv4))))"
    unfolding demo_jobs(2) by simp
  then show thesis using that by auto
qed

lemma demo_reach_45: "(sys_step demo_decode)\<^sup>*\<^sup>* demo_sv4 demo_sv5"
  using demo_steps(5) by blast

text \<open>
  C3. Fencing of completions. Once any reachable state has a job at an attempt beyond \<open>a\<close>, a
  report for attempt \<open>a\<close> is answered 409 in every later state and changes nothing at all: not
  the database, not the metrics, not the stored artifacts.
\<close>

theorem stale_complete_rejected:
  assumes "sys_init sv0" and "(sys_step decode)\<^sup>*\<^sup>* sv0 sv" and "(sys_step decode)\<^sup>*\<^sup>* sv sv'"
    and "j \<in> set (t_jobs (st (sv_sched sv)))" and "a < j_attempt j"
    and "runnerID \<noteq> []" and "0 < a" and "check_result res = Inr v"
  shows "handleComplete (j_id j) (BodyOK (runnerID, a, res)) sv' = ((409, None), sv')"
proof -
  note fence = complete_write.locked_out [OF reachable_grows [OF assms(1-3)] later_distinct [OF assms(1-3)] assms(4,5)]
  show ?thesis using assms(6,7,8) fence
    by (simp add: handleComplete_def decodeBody_def Complete_def runner_status_def)
qed

theorem stale_complete_rejected_witness:
  "handleComplete ''4'' (BodyOK (''r1'', 1, demo_result ''succeeded'' [])) demo_sv5 = ((409, None), demo_sv5)"
proof -
  obtain j where "j \<in> set (t_jobs (st (sv_sched demo_sv4)))" "j_id j = ''4''" "1 < j_attempt j"
    by (rule demo_second_attempt)
  then show ?thesis
    using stale_complete_rejected [OF demo_sv0_init demo_reach(4) demo_reach_45, of j 1 "''r1''" "demo_result ''succeeded'' []" None]
    by (simp add: check_result_def demo_result_def)
qed

text \<open>The same for log chunks.\<close>

theorem stale_logs_rejected:
  assumes "sys_init sv0" and "(sys_step decode)\<^sup>*\<^sup>* sv0 sv" and "(sys_step decode)\<^sup>*\<^sup>* sv sv'"
    and "j \<in> set (t_jobs (st (sv_sched sv)))" and "a < j_attempt j"
    and "runnerID \<noteq> []" and "0 < a" and "\<forall>c \<in> set chunks. 1 \<le> fst c"
  shows "handleAppendLogs (j_id j) (BodyOK (runnerID, a, chunks)) sv' = ((409, None), sv')"
proof -
  note fence = logs_write.locked_out [OF reachable_grows [OF assms(1-3)] later_distinct [OF assms(1-3)] assms(4,5)]
  have "find (\<lambda>c. fst c < 1) chunks = None" using assms(8) by (auto simp: find_None_iff)
  with assms(6,7) fence show ?thesis
    by (simp add: handleAppendLogs_def decodeBody_def AppendLogs_def runner_status_def)
qed

theorem stale_logs_rejected_witness:
  "handleAppendLogs ''4'' (BodyOK (''r1'', 1, [(1, ''late'')])) demo_sv5 = ((409, None), demo_sv5)"
proof -
  obtain j where "j \<in> set (t_jobs (st (sv_sched demo_sv4)))" "j_id j = ''4''" "1 < j_attempt j"
    by (rule demo_second_attempt)
  then show ?thesis
    using stale_logs_rejected [OF demo_sv0_init demo_reach(4) demo_reach_45, of j 1 "''r1''" "[(1, ''late'')]"]
    by simp
qed

lemma discard_objects:
  "fs_ok fs \<Longrightarrow> objects local_Get (discard k fs) = (objects local_Get fs)(k := None)"
  by (simp add: discard_def local_Delete_objects)



end
