(* ===== verification/Dispatch.thy ===== *)
theory Dispatch
  imports Fencing
begin

text \<open>
  What \<open>Claim\<close> and \<open>Heartbeat\<close> do: the specification of the row a claim hands out, that
  no attempt is handed out twice, and the directives of a heartbeat with the leases it extends.
\<close>


section \<open>Claim\<close>

definition queue :: "store \<Rightarrow> Job list" where
  "queue s = sort_key j_queued_at (filter (\<lambda>j. j_state j = JobQueued) (t_jobs s))"

text \<open>
  A runner fits a job when it carries every label the job asks for with the value asked for; a
  label asked for with the empty value is also met by a runner that does not have it.
\<close>

definition fits :: "RunnerInfo \<Rightarrow> Job \<Rightarrow> bool" where
  "fits r j = (case j_spec j of
     None \<Rightarrow> False
   | Some spec \<Rightarrow> (\<forall>(k, v) \<in> set (pj_labels spec).
       case map_of (ru_labels r) k of Some w \<Rightarrow> w = v | None \<Rightarrow> v = []))"

lemma fits_labelsSubset:
  "j_spec j = Some spec \<Longrightarrow> fits r j \<longleftrightarrow> labelsSubset (pj_labels spec) (ru_labels r)"
  by (auto simp: fits_def labelsSubset_def get_str_def split: option.splits)

text \<open>Transactions that leave the job table alone.\<close>

definition same_jobs :: "store \<Rightarrow> store \<Rightarrow> bool" where
  "same_jobs s s' \<longleftrightarrow> t_jobs s' = t_jobs s"

interpretation jobs_apart: state_order same_jobs
  by unfold_locales (simp_all add: same_jobs_def)

lemma same_jobs_prims [simp]:
  "tx_within same_jobs (SetRunState R f t)" "tx_within same_jobs (event R i ty d)" "tx_within same_jobs Now"
  "tx_within same_jobs (UpsertRunner u)" "tx_within same_jobs (TouchRunner i)" "tx_within same_jobs (GetJob i)"
  by (auto simp: tx_within_def same_jobs_def SetRunState_def event_def AppendEvent_def Now_def UpsertRunner_def
      TouchRunner_def GetJob_def Let_def tx_bind_run split: option.splits)

lemmas same_jobs_intros = jobs_apart.within_bind jobs_apart.within_if jobs_apart.within_return jobs_apart.within_raise

lemma ClaimJob_run:
  assumes "distinct (map j_id (t_jobs s))" and "q \<in> set (t_jobs s)" and "j_state q = JobQueued"
  shows "\<exists>s'. ClaimJob (j_id q) rid l s = (Inr (j_attempt q + 1, True), s') \<and>
    t_jobs s' = sql_update (\<lambda>j. j_id j = j_id q) (claim_row rid l (clock s (reads s))) (t_jobs s)"
proof -
  have eq: "sql_update (\<lambda>j. j_id j = j_id q \<and> j_state j = JobQueued) f (t_jobs s) =
      sql_update (\<lambda>j. j_id j = j_id q) f (t_jobs s)" for f
    unfolding sql_update_def by (rule map_cong [OF refl]) (use distinct_keys_eq [OF assms(1) _ assms(2)] assms(3) in auto)
  have "find (\<lambda>j. j_id j = j_id q) (sql_update (\<lambda>j. j_id j = j_id q) (claim_row rid l n) (t_jobs s)) =
      Some (claim_row rid l n q)" for n
    using find_keyed_Some [OF assms(1,2)] by (simp add: claim_upd.find_sql_update)
  then show ?thesis
    using sql_affected_keyed [OF assms(1,2) refl, of "\<lambda>j. j_state j = JobQueued"] assms(3)
    by (simp add: ClaimJob_def tx_bind_run Now_def update_jobs_def eq claim_row_def)
qed

lemma claim_loop_spec:
  assumes "distinct (map j_id (t_jobs s))" and "\<forall>q \<in> set qs. q \<in> set (t_jobs s) \<and> j_state q = JobQueued"
    and "claim_loop lease r qs s = (Inr res, s')"
  shows "case find (fits r) qs of
      None \<Rightarrow> res = None \<and> s' = s
    | Some q \<Rightarrow> let row = claim_row (ru_id r) (clock s (reads s) + lease) (clock s (Suc (reads s))) in
        res = Some (row q) \<and> t_jobs s' = sql_update (\<lambda>j. j_id j = j_id q) row (t_jobs s)"
  using assms
proof (induction qs)
  case (Cons q qs)
  from Cons.prems(3) obtain spec where spec: "j_spec q = Some spec"
    by (cases "j_spec q") (auto simp: specLabels_def jobSpec_def)
  show ?case
  proof (cases "labelsSubset (pj_labels spec) (ru_labels r)")
    case False
    with Cons spec show ?thesis by (simp add: specLabels_def jobSpec_def fits_labelsSubset)
  next
    case True
    define row where "row = claim_row (ru_id r) (clock s (reads s) + lease) (clock s (Suc (reads s)))"
    define s1 where "s1 = s\<lparr>reads := Suc (reads s)\<rparr>"
    from Cons.prems ClaimJob_run [of s1 q "ru_id r" "clock s (reads s) + lease"] obtain s2
      where claim: "ClaimJob (j_id q) (ru_id r) (clock s (reads s) + lease) s1 = (Inr (j_attempt q + 1, True), s2)"
        and jobs: "t_jobs s2 = sql_update (\<lambda>j. j_id j = j_id q) row (t_jobs s)"
      by (auto simp: s1_def row_def)
    define rest where "rest = tx_bind (SetRunState (j_run_id q) RunPending RunRunning) (\<lambda>started.
      tx_bind (if started then event (j_run_id q) [] ''run.started'' [] else tx_return ()) (\<lambda>_.
      event (j_run_id q) (j_id q) ''job.claimed''
        [(''runner_id'', JStr (ru_id r)), (''attempt'', JInt (j_attempt q + 1))]))"
    have eq: "claim_loop lease r (q # qs) s = tx_bind rest (\<lambda>_. tx_bind (GetJob (j_id q)) (\<lambda>claimed. tx_return (Some claimed))) s2"
      using True spec claim
      by (simp add: specLabels_def jobSpec_def Now_def s1_def [symmetric] tx_bind_run [of Now] rest_def tx_bind_assoc)
    have "tx_bind rest (\<lambda>_. tx_bind (GetJob (j_id q)) (\<lambda>claimed. tx_return (Some claimed))) s2 = (Inr res, s')"
      unfolding eq [symmetric] by (rule Cons.prems(3))
    then obtain s3 claimed where r3: "rest s2 = (Inr (), s3)"
      and got: "GetJob (j_id q) s3 = (Inr claimed, s')" and res: "res = Some claimed"
      by (auto simp: tx_bind_eq_Inr)
    have "tx_within same_jobs rest" unfolding rest_def by (intro same_jobs_intros same_jobs_prims)
    then have j3: "t_jobs s3 = t_jobs s2" using jobs_apart.withinD r3 by (fastforce simp: same_jobs_def)
    have "find (\<lambda>j. j_id j = j_id q) (t_jobs s3) = Some (row q)"
      using find_keyed_Some [OF Cons.prems(1), of q] Cons.prems(2)
      by (simp add: j3 jobs row_def claim_upd.find_sql_update)
    with got have "claimed = row q" "s' = s3" by (simp_all add: GetJob_def)
    then have "res = Some (row q) \<and> t_jobs s' = sql_update (\<lambda>j. j_id j = j_id q) row (t_jobs s)"
      using res jobs j3 by simp
    moreover have "find (fits r) (q # qs) = Some q" using True spec by (simp add: fits_labelsSubset)
    ultimately show ?thesis unfolding row_def Let_def by (simp only: option.case)
  qed
qed simp

lemma UpsertRunner_Inr:
  assumes "UpsertRunner u s = (Inr x, s')"
  shows "t_jobs s' = t_jobs s" and "reads s' = Suc (reads s)" and "clock s' = clock s"
proof -
  have s': "s' = snd (UpsertRunner u s)" using assms by simp
  have "rr_id u \<noteq> []" using assms by (auto simp: UpsertRunner_def)
  then show "t_jobs s' = t_jobs s" "reads s' = Suc (reads s)" "clock s' = clock s"
    unfolding s' by (simp_all add: UpsertRunner_def tx_bind_run Now_def Let_def)
qed

lemma queue_rows: "q \<in> set (queue s) \<Longrightarrow> q \<in> set (t_jobs s) \<and> j_state q = JobQueued"
  by (simp add: queue_def)

lemma claim_tx_spec:
  assumes "distinct (map j_id (t_jobs s))" and "claim_tx lease r s = (Inr res, s')"
  shows "case find (fits r) (queue s) of
      None \<Rightarrow> res = None \<and> t_jobs s' = t_jobs s
    | Some q \<Rightarrow> let row = claim_row (ru_id r) (clock s (reads s + 1) + lease) (clock s (reads s + 2)) in
        res = Some (row q) \<and> t_jobs s' = sql_update (\<lambda>j. j_id j = j_id q) row (t_jobs s)"
proof -
  from assms(2) obtain u s1 where up: "UpsertRunner u s = (Inr (), s1)"
    and loop: "claim_loop lease r (queue s1) s1 = (Inr res, s')"
    by (auto simp: claim_tx_def tx_bind_eq_Inr ListQueuedJobs_def queue_def)
  note same = UpsertRunner_Inr [OF up]
  have q: "queue s1 = queue s" by (simp add: queue_def same)
  show ?thesis
    using claim_loop_spec [OF _ _ loop] assms(1) queue_rows [of _ s1] unfolding q
    by (auto simp: same Let_def split: option.splits)
qed

lemma fits_name [simp]: "fits (r\<lparr>ru_name := n\<rparr>) = fits r"
  by (simp add: fits_def fun_eq_iff split: option.split)

lemma Claim_Inr:
  assumes "Claim sc r = (Inr res, sc')"
  obtains r' where "claim_tx (ttl sc) r' (st sc) = (Inr res, st sc')" and "fits r' = fits r" and "ru_id r' = ru_id r"
  using assms by (auto simp: Claim_def Let_def Tx_def split: if_splits prod.splits sum.splits option.splits
      intro: that [of r] that [of "r\<lparr>ru_name := ru_id r\<rparr>"])


lemma demo_claim_answered: "fst (fst (handleClaim (BodyOK demo_runner) demo_sv1)) = 200"
  by code_simp

lemma demo_Claim: "\<exists>res sc'. Claim (sv_sched demo_sv1) demo_runner = (Inr res, sc')"
proof -
  have body: "decodeBody (BodyOK demo_runner) = Inr demo_runner" by (simp add: decodeBody_def)
  show ?thesis using demo_claim_answered unfolding handleClaim_def body
    by (auto simp: storeError_def split: sum.splits prod.splits if_splits option.splits)
qed


text \<open>The row a claim answers with is stored, running, and one attempt ahead of a row that was there before.\<close>

lemma handleClaim_row:
  assumes "sys_inv sv" and "handleClaim (BodyOK c) sv = ((200, Some (x, y)), sv')"
  shows "\<exists>q. q \<in> set (t_jobs (st (sv_sched sv))) \<and> j_id x = j_id q \<and> j_attempt x = j_attempt q + 1 \<and>
    j_state x = JobRunning \<and> x \<in> set (t_jobs (st (sv_sched sv')))"
proof -
  from assms(2) obtain sc where cl: "Claim (sv_sched sv) c = (Inr (Some x), sc)" and b: "sv' = sv\<lparr>sv_sched := sc\<rparr>"
    by (auto simp: handleClaim_def decodeBody_def split: if_splits prod.splits sum.splits option.splits)
  from Claim_Inr [OF cl] obtain c' where tx: "claim_tx (ttl (sv_sched sv)) c' (st (sv_sched sv)) = (Inr (Some x), st sc)" .
  have "distinct (map j_id (t_jobs (st (sv_sched sv))))" using assms(1) by (simp add: sys_inv_def inv_distinct)
  from claim_tx_spec [OF this tx] obtain q f g where q: "find (fits c') (queue (st (sv_sched sv))) = Some q"
    and x: "x = claim_row (ru_id c') f g q"
    and jobs: "t_jobs (st sc) = sql_update (\<lambda>j. j_id j = j_id q) (claim_row (ru_id c') f g) (t_jobs (st (sv_sched sv)))"
    by (auto simp: Let_def split: option.splits)
  from q have "q \<in> set (t_jobs (st (sv_sched sv)))" using queue_rows by (metis find_Some_iff nth_mem)
  with x jobs b show ?thesis by (auto simp: row_simps in_sql_update intro!: exI [of _ q])
qed

text \<open>
  C6. No attempt is handed out twice: when the same job is claimed again anywhere later, the
  second claim has a larger attempt number, whatever happened in between.
\<close>

theorem claims_exclusive:
  assumes "sys_init sv0" and "(sys_step decode)\<^sup>*\<^sup>* sv0 sv"
    and first: "handleClaim (BodyOK r) sv = ((200, Some (j, l)), sv1)"
    and between: "(sys_step decode)\<^sup>*\<^sup>* sv1 sv2"
    and second: "handleClaim (BodyOK r') sv2 = ((200, Some (j', l')), sv3)" and "j_id j' = j_id j"
  shows "j_attempt j < j_attempt j'"
proof -
  from control_plane.reachable_I [OF assms(1,2)] have inv: "sys_inv sv" .
  from good_stepD [OF good_handlers(2) [OF first] inv] have inv1: "sys_inv sv1" by blast
  from control_plane.steps_I [OF between inv1] have inv2: "sys_inv sv2" .
  from handleClaim_row [OF inv first] have j: "j \<in> set (t_jobs (st (sv_sched sv1)))" by blast
  from handleClaim_row [OF inv2 second] obtain q where q: "q \<in> set (t_jobs (st (sv_sched sv2)))" "j_id j' = j_id q"
    "j_attempt j' = j_attempt q + 1" by blast
  from control_plane.steps_R [OF between inv1] j obtain k where k: "k \<in> set (t_jobs (st (sv_sched sv2)))" "job_step\<^sup>*\<^sup>* j k"
    by (auto simp: sys_grows_def dest: grows_row)
  have "distinct (map j_id (t_jobs (st (sv_sched sv2))))" using inv2 by (simp add: sys_inv_def inv_distinct)
  from distinct_keys_eq [OF this q(1) k(1)] have "q = k" using q(2) assms(6) job_steps_static [OF k(2)] by simp
  with q(3) job_steps_static [OF k(2)] show ?thesis by simp
qed

definition demo_claimed :: "server \<Rightarrow> Job" where
  "demo_claimed sv = fst (the (snd (fst (handleClaim (BodyOK demo_runner) sv))))"

lemma demo_claim:
  assumes "requireToken (sv_token sv) demo_header" and "fst (fst (handleClaim (BodyOK demo_runner) sv)) = 200"
  shows "\<exists>l. handleClaim (BodyOK demo_runner) sv =
    ((200, Some (demo_claimed sv, l)), snd (withToken sv demo_header (handleClaim (BodyOK demo_runner))))"
  using assms by (auto simp: withToken_def demo_claimed_def handleClaim_def decodeBody_def demo_runner_def
      split: prod.splits sum.splits option.splits)

theorem claims_exclusive_witness:
  "j_id (demo_claimed demo_sv1) = ''4'' \<and> j_id (demo_claimed demo_sv3) = ''4'' \<and>
   j_attempt (demo_claimed demo_sv1) < j_attempt (demo_claimed demo_sv3)"
proof -
  have tok: "requireToken (sv_token demo_sv1) demo_header" "requireToken (sv_token demo_sv3) demo_header" by code_simp+
  have ids: "j_id (demo_claimed demo_sv1) = ''4''" "j_id (demo_claimed demo_sv3) = ''4''" by code_simp+
  from demo_claim [OF tok(1) demo_claim_answered] obtain l where one:
    "handleClaim (BodyOK demo_runner) demo_sv1 = ((200, Some (demo_claimed demo_sv1, l)), demo_sv2)"
    by (auto simp: demo_sv2_def)
  have "fst (fst (handleClaim (BodyOK demo_runner) demo_sv3)) = 200" by code_simp
  from demo_claim [OF tok(2) this] obtain l' where two:
    "handleClaim (BodyOK demo_runner) demo_sv3 = ((200, Some (demo_claimed demo_sv3, l')), demo_sv4)"
    by (auto simp: demo_sv4_def)
  have "(sys_step demo_decode)\<^sup>*\<^sup>* demo_sv2 demo_sv3" using demo_steps(3) by blast
  from claims_exclusive [OF demo_sv0_init demo_reach(1) one this two] ids show ?thesis by simp
qed


section \<open>Heartbeat\<close>

text \<open>The runner holds the attempt: the job runs, at that attempt, under its id.\<close>

definition held :: "string \<Rightarrow> string \<times> int \<Rightarrow> Job \<Rightarrow> bool" where
  "held r ref j \<longleftrightarrow> j_id j = fst ref \<and> j_state j = JobRunning \<and> j_attempt j = snd ref \<and> j_runner_id j = Some r"

definition directive_of :: "store \<Rightarrow> string \<Rightarrow> string \<times> int \<Rightarrow> directive" where
  "directive_of s r ref = (case find (held r ref) (t_jobs s) of
     None \<Rightarrow> DirectiveAbort
   | Some j \<Rightarrow> if null_int (j_cancel_requested_at j) \<noteq> 0 then DirectiveCancel else DirectiveContinue)"

lemma held_lease [simp]: "held r ref (lease_row l j) = held r ref j"
  by (simp add: held_def lease_row_def)

lemma find_lease:
  "find (held r ref) (sql_update P (lease_row l) js) =
     map_option (\<lambda>j. if P j then lease_row l j else j) (find (held r ref) js)"
  by (induction js) auto

lemma directive_lease:
  assumes "t_jobs s' = sql_update P (lease_row l) (t_jobs s)"
  shows "directive_of s' r ref = directive_of s r ref"
  by (auto simp: directive_of_def assms find_lease lease_row_def split: option.splits)

lemma heartbeat_job_run:
  assumes "distinct (map j_id (t_jobs s))"
  shows "\<exists>s'. heartbeat_job lease r ref out s = (Inr (out @ [(fst ref, snd ref, directive_of s r ref)]), s') \<and>
    t_jobs s' = sql_update (held r ref) (lease_row (clock s (reads s) + lease)) (t_jobs s) \<and> clock s' = clock s"
proof -
  obtain i a where ref: "ref = (i, a)" by (cases ref)
  have P: "(\<lambda>j. j_id j = i \<and> j_state j = JobRunning \<and> j_attempt j = a \<and> j_runner_id j = Some r) = held r ref"
    by (auto simp: held_def ref)
  show ?thesis
  proof (cases "find (held r ref) (t_jobs s)")
    case None
    then have "sql_affected (held r ref) (t_jobs s) = 0" by (auto simp: sql_affected_def find_None_iff filter_empty_conv)
    with None show ?thesis
      by (simp add: heartbeat_job_def ref Now_def tx_bind_run ExtendLease_def update_jobs_def directive_of_def P [unfolded ref])
  next
    case (Some j)
    then have j: "j \<in> set (t_jobs s)" "held r ref j" by (auto simp: find_Some_iff)
    have "sql_affected (held r ref) (t_jobs s) = 1"
      using sql_affected_keyed [OF assms j(1) refl, of "\<lambda>j. j_state j = JobRunning \<and> j_attempt j = a \<and> j_runner_id j = Some r"] j(2)
      unfolding P [symmetric] by (simp add: held_def ref)
    moreover have "find (\<lambda>j. j_id j = i) (sql_update (held r ref) (lease_row l) (t_jobs s)) = Some (lease_row l j)" for l
    proof -
      have "find (\<lambda>j. j_id j = i) (t_jobs s) = Some j"
        using find_keyed_Some [OF assms j(1)] j(2) by (simp add: held_def ref)
      with j(2) show ?thesis by (simp add: lease_upd.find_sql_update)
    qed
    ultimately show ?thesis using Some
      by (simp add: heartbeat_job_def ref Now_def tx_bind_run ExtendLease_def update_jobs_def directive_of_def
          P [unfolded ref] GetJob_def lease_row_def)
  qed
qed

text \<open>What a heartbeat may do to a row: extend the lease of a held attempt, to a time read from the clock.\<close>

definition renewed :: "(nat \<Rightarrow> int) \<Rightarrow> int \<Rightarrow> bool \<Rightarrow> Job \<Rightarrow> Job \<Rightarrow> bool" where
  "renewed clk lease h j j' \<longleftrightarrow> (if h then \<exists>n. j' = j\<lparr>j_lease_expires_at := Some (clk n + lease)\<rparr> else j' = j)"

lemma heartbeat_fold_run:
  assumes "distinct (map j_id (t_jobs s))"
  shows "\<exists>s'. tx_fold (heartbeat_job lease r) refs out s =
      (Inr (out @ map (\<lambda>ref. (fst ref, snd ref, directive_of s r ref)) refs), s') \<and> clock s' = clock s \<and>
    list_all2 (\<lambda>j j'. renewed (clock s) lease (\<exists>ref \<in> set refs. held r ref j) j j') (t_jobs s) (t_jobs s')"
  using assms
proof (induction refs arbitrary: s out)
  case Nil
  then show ?case by (simp add: renewed_def list_all2_refl)
next
  case (Cons ref refs)
  from heartbeat_job_run [OF Cons.prems] obtain s1
    where one: "heartbeat_job lease r ref out s = (Inr (out @ [(fst ref, snd ref, directive_of s r ref)]), s1)"
      and jobs: "t_jobs s1 = sql_update (held r ref) (lease_row (clock s (reads s) + lease)) (t_jobs s)"
      and clk: "clock s1 = clock s" by blast
  have "distinct (map j_id (t_jobs s1))" using Cons.prems by (simp add: jobs lease_upd.keys_kept)
  from Cons.IH [OF this] obtain s' where rest: "tx_fold (heartbeat_job lease r) refs (out @ [(fst ref, snd ref, directive_of s r ref)]) s1 =
      (Inr ((out @ [(fst ref, snd ref, directive_of s r ref)]) @ map (\<lambda>ref. (fst ref, snd ref, directive_of s1 r ref)) refs), s')"
    and clk': "clock s' = clock s1"
    and rows: "list_all2 (\<lambda>j j'. renewed (clock s1) lease (\<exists>ref \<in> set refs. held r ref j) j j') (t_jobs s1) (t_jobs s')" by blast
  have "list_all2 (\<lambda>j j'. renewed (clock s) lease (\<exists>x \<in> set (ref # refs). held r x j) j j') (t_jobs s) (t_jobs s')"
    using rows unfolding jobs clk sql_update_def list_all2_map1
    by (rule list_all2_mono) (auto simp: renewed_def lease_row_def held_def split: if_splits)
  with one rest clk clk' directive_lease [OF jobs] show ?case by simp
qed

lemma TouchRunner_Inr:
  assumes "TouchRunner i s = (Inr x, s')"
  shows "t_jobs s' = t_jobs s" and "clock s' = clock s"
proof -
  have s': "s' = snd (TouchRunner i s)" using assms by simp
  show "t_jobs s' = t_jobs s" "clock s' = clock s"
    unfolding s' by (simp_all add: TouchRunner_def UpsertRunner_def tx_bind_run Now_def Let_def)
qed

text \<open>
  C7. A heartbeat answers every reported attempt in order: abort when the runner does not hold it, cancel
  when it holds it and a cancellation is pending, continue otherwise. It renews exactly the leases
  of the reported attempts that are held, and changes nothing else of any job.
\<close>

theorem Heartbeat_directives:
  assumes "distinct (map j_id (t_jobs (st sc)))" and "Heartbeat sc r refs = (Inr ds, sc')"
  shows "ds = map (\<lambda>ref. (fst ref, snd ref, directive_of (st sc) r ref)) refs \<and>
    list_all2 (\<lambda>j j'. renewed (clock (st sc)) (ttl sc) (\<exists>ref \<in> set refs. held r ref j) j j')
      (t_jobs (st sc)) (t_jobs (st sc'))"
proof -
  from assms(2) have "heartbeat_tx (ttl sc) r refs (st sc) = (Inr ds, st sc')"
    by (auto simp: Heartbeat_def Tx_def split: if_splits prod.splits sum.splits)
  then obtain u s1 where touch: "TouchRunner r (st sc) = (Inr u, s1)"
    and fold: "tx_fold (heartbeat_job (ttl sc) r) refs [] s1 = (Inr ds, st sc')"
    by (auto simp: heartbeat_tx_def tx_bind_eq_Inr)
  note same = TouchRunner_Inr [OF touch]
  have "directive_of s1 r ref = directive_of (st sc) r ref" for ref by (simp add: directive_of_def same)
  with heartbeat_fold_run [of s1 "ttl sc" r refs "[]"] fold assms(1) show ?thesis by (auto simp: same)
qed

theorem Heartbeat_directives_witness:
  "\<exists>sc'. Heartbeat (sv_sched demo_sv2) ''r1'' [(''4'', 1), (''4'', 2)] =
     (Inr [(''4'', 1, DirectiveContinue), (''4'', 2, DirectiveAbort)], sc')"
proof -
  let ?sc = "sv_sched demo_sv2" and ?refs = "[(''4'', 1), (''4'', 2)]"
  have d: "distinct (map j_id (t_jobs (st ?sc)))" by code_simp
  have ds: "map (\<lambda>ref. (fst ref, snd ref, directive_of (st ?sc) ''r1'' ref)) ?refs =
      [(''4'', 1, DirectiveContinue), (''4'', 2, DirectiveAbort)]" by code_simp
  have "\<not> isl (fst (Heartbeat ?sc ''r1'' ?refs))" by code_simp
  then obtain out sc' where hb: "Heartbeat ?sc ''r1'' ?refs = (Inr out, sc')"
    by (metis isl_def prod.collapse sum.collapse(2))
  from Heartbeat_directives [OF d hb] ds hb show ?thesis by auto
qed

end
