(* ===== verification/Reachable.thy ===== *)
theory Reachable
  imports Fencing
begin

text \<open>
  What holds in every state the control plane can reach, whatever requests, monitor ticks and
  restarts led there: the order of the DAG, the verdicts of runs, progress, the shape of the
  rows, and the permanence of what was recorded.
\<close>

lemma reach_inv:
  assumes "sys_init sv0" and "(sys_step decode)\<^sup>*\<^sup>* sv0 sv"
  shows "store_inv (st (sv_sched sv))" and "tables_ok (st (sv_sched sv))" and "linked (st (sv_sched sv))"
    and "distinct (map j_id (t_jobs (st (sv_sched sv))))"
  using control_plane.reachable_I [OF assms] by (simp_all add: sys_inv_def store_inv_def base_def linked_def)

text \<open>A need is the row of another job of the same run.\<close>

lemma need_row:
  assumes "store_inv s" and "j \<in> set (t_jobs s)" and "n \<in> job_needs s (j_id j)"
  obtains k where "k \<in> set (t_jobs s)" and "j_id k = n" and "j_run_id k = j_run_id j"
    and "job_states s n = Some (j_state k)"
proof -
  from assms(1) have lk: "linked s" by (simp add: store_inv_def base_def)
  from linked_needs [OF lk assms(2,3)] obtain k where k: "k \<in> set (t_jobs s)" "j_id k = n" "j_run_id k = j_run_id j" .
  with job_states_at [OF inv_distinct [OF assms(1)] k(1)] show thesis using that by simp
qed

text \<open>
  C10. The DAG is respected. In every reachable state a job that was released to the runners, whether it is
  queued, running, succeeded or failed, depends only on jobs that succeeded, and a job was
  skipped only if one of its needs failed, was cancelled or was skipped itself.
\<close>

theorem dag_order:
  assumes "sys_init sv0" and "(sys_step decode)\<^sup>*\<^sup>* sv0 sv"
    and "d \<in> set (t_deps (st (sv_sched sv)))" and "j \<in> set (t_jobs (st (sv_sched sv)))" and "j_id j = d_job_id d"
    and "j_state j \<in> {JobQueued, JobRunning, JobSucceeded, JobFailed}"
  shows "\<exists>k \<in> set (t_jobs (st (sv_sched sv))). j_id k = d_needs_job_id d \<and> j_run_id k = j_run_id j \<and> j_state k = JobSucceeded"
proof -
  note inv = reach_inv(1) [OF assms(1,2)]
  have n: "d_needs_job_id d \<in> job_needs (st (sv_sched sv)) (j_id j)" using assms(3,5) by (auto simp: job_needs_def)
  from need_row [OF inv assms(4) n] obtain k where k: "k \<in> set (t_jobs (st (sv_sched sv)))"
    "j_id k = d_needs_job_id d" "j_run_id k = j_run_id j"
    "job_states (st (sv_sched sv)) (d_needs_job_id d) = Some (j_state k)" .
  have "ready (st (sv_sched sv))" using inv by (simp add: store_inv_def)
  with assms(4,6) n k(4) have "j_state k = JobSucceeded" by (auto simp: ready_def released_def)
  with k show ?thesis by blast
qed

theorem dag_order_witness:
  "\<exists>k \<in> set (t_jobs (st (sv_sched demo_sv5))). j_id k = ''4'' \<and> j_state k = JobSucceeded"
proof -
  have "(''2'', JobQueued, ''0'') \<in> set (map (\<lambda>j. (j_id j, j_state j, j_run_id j)) (t_jobs (st (sv_sched demo_sv5))))"
    unfolding demo_final_tables(1) by simp
  then obtain j where j: "j \<in> set (t_jobs (st (sv_sched demo_sv5)))" "j_id j = ''2''" "j_state j = JobQueued" by auto
  have "\<lparr>d_job_id = ''2'', d_needs_job_id = ''4''\<rparr> \<in> set (t_deps (st (sv_sched demo_sv5)))"
    unfolding demo_final_tables(3) by simp
  from dag_order [OF demo_sv0_init demo_reach(5) this j(1)] j(2,3) show ?thesis by auto
qed

text \<open>The final state of a run by the states of its jobs.\<close>

lemma view_states:
  assumes "store_inv s" and "r \<in> set (t_runs s)"
  shows "run_over (r_state r) \<longleftrightarrow> (\<forall>j \<in> set (run_jobs (r_id r) s). isTerminal (j_state j))"
    and "run_over (r_state r) \<Longrightarrow> r_state r = run_verdict (j_state ` set (run_jobs (r_id r) s))"
proof -
  have ok: "ok_view (view (r_id r) s) (job_needs s) (r_state r)" using assms by (simp add: store_inv_def)
  then show over: "run_over (r_state r) \<longleftrightarrow> (\<forall>j \<in> set (run_jobs (r_id r) s). isTerminal (j_state j))"
    by (auto simp: ok_view_def view_def)
  assume "run_over (r_state r)"
  with over have "phase (j_state j) = j_state j" if "j \<in> set (run_jobs (r_id r) s)" for j
    using that by (auto simp: phase_def)
  then have "snd ` set (view (r_id r) s) = j_state ` set (run_jobs (r_id r) s)" by (force simp: view_def)
  with ok \<open>run_over (r_state r)\<close> show "r_state r = run_verdict (j_state ` set (run_jobs (r_id r) s))"
    by (simp add: ok_view_def)
qed

text \<open>Only a failure or a cancellation starts a chain of skipped jobs.\<close>

lemma skipped_cause:
  assumes "store_inv s" and "j \<in> set (t_jobs s)" and "j_state j = JobSkipped"
  shows "\<exists>k \<in> set (t_jobs s). j_run_id k = j_run_id j \<and> (j_state k = JobFailed \<or> j_state k = JobCancelled)"
proof -
  have "wf (dep_rel s)" using assms(1) finite_dep_rel by (intro finite_acyclic_wf) (auto simp: store_inv_def base_def)
  then show ?thesis using assms(2,3)
  proof (induction "j_id j" arbitrary: j rule: wf_induct_rule)
    case less
    have "ready s" using assms(1) by (simp add: store_inv_def)
    with less(2,3) obtain n where n: "n \<in> job_needs s (j_id j)" "bad (job_states s n)" unfolding ready_def by blast
    from need_row [OF assms(1) less(2) n(1)] obtain k where k: "k \<in> set (t_jobs s)" "j_id k = n"
      "j_run_id k = j_run_id j" "job_states s n = Some (j_state k)" .
    have "(j_id k, j_id j) \<in> dep_rel s" using n(1) k(2) by (simp add: dep_rel_def)
    from less(1) [OF this k(1)] n(2) k show ?case by (auto simp: bad_def)
  qed
qed

text \<open>
  C11. Verdicts. In every reachable state a run is finished exactly when all its jobs are. A finished run
  has failed if some job failed, was cancelled if none failed and some was cancelled, and
  succeeded only if every one of its jobs succeeded.
\<close>

theorem run_verdicts:
  assumes "sys_init sv0" and "(sys_step decode)\<^sup>*\<^sup>* sv0 sv" and "r \<in> set (t_runs (st (sv_sched sv)))"
  shows "let js = {j \<in> set (t_jobs (st (sv_sched sv))). j_run_id j = r_id r} in
    (r_state r \<in> {RunPending, RunRunning} \<longleftrightarrow> (\<exists>j \<in> js. j_state j \<in> {JobPending, JobQueued, JobRunning})) \<and>
    (r_state r = RunFailed \<longrightarrow> (\<exists>j \<in> js. j_state j = JobFailed)) \<and>
    (r_state r = RunCancelled \<longrightarrow> (\<exists>j \<in> js. j_state j = JobCancelled) \<and> (\<forall>j \<in> js. j_state j \<noteq> JobFailed)) \<and>
    (r_state r = RunSucceeded \<longrightarrow> (\<forall>j \<in> js. j_state j = JobSucceeded))"
proof -
  let ?s = "st (sv_sched sv)"
  note inv = reach_inv(1) [OF assms(1,2)] and v = view_states [OF reach_inv(1) [OF assms(1,2)] assms(3)]
  have js: "{j \<in> set (t_jobs ?s). j_run_id j = r_id r} = set (run_jobs (r_id r) ?s)" by (auto simp: run_jobs_def)
  have open_st: "\<not> isTerminal fs \<longleftrightarrow> fs \<in> {JobPending, JobQueued, JobRunning}" for fs by (cases fs) auto
  have "j_state j = JobSucceeded" if "r_state r = RunSucceeded" "j \<in> set (run_jobs (r_id r) ?s)" for j
  proof -
    have none: "JobFailed \<notin> j_state ` set (run_jobs (r_id r) ?s)" "JobCancelled \<notin> j_state ` set (run_jobs (r_id r) ?s)"
      using v(2) that(1) by (auto simp: run_verdict_def split: if_splits)
    have "j_state j \<noteq> JobSkipped"
    proof
      assume "j_state j = JobSkipped"
      with skipped_cause [OF inv, of j] that(2) obtain k where k: "k \<in> set (t_jobs ?s)" "j_run_id k = j_run_id j"
        "j_state k = JobFailed \<or> j_state k = JobCancelled" by (auto simp: in_run_jobs)
      with that(2) have "k \<in> set (run_jobs (r_id r) ?s)" by (simp add: in_run_jobs)
      with k(3) none show False by force
    qed
    moreover have "isTerminal (j_state j)" using v(1) that by simp
    ultimately show ?thesis using none that(2) by (metis imageI isTerminal_cases)
  qed
  moreover have "r_state r \<in> {RunPending, RunRunning} \<longleftrightarrow> (\<exists>j \<in> set (run_jobs (r_id r) ?s). j_state j \<in> {JobPending, JobQueued, JobRunning})"
    using v(1) open_st by (cases "r_state r") auto
  moreover have "\<exists>j \<in> set (run_jobs (r_id r) ?s). j_state j = JobFailed" if "r_state r = RunFailed"
  proof -
    have "JobFailed \<in> j_state ` set (run_jobs (r_id r) ?s)" using v(2) that by (auto simp: run_verdict_def split: if_splits)
    then show ?thesis by (metis imageE)
  qed
  moreover have "(\<exists>j \<in> set (run_jobs (r_id r) ?s). j_state j = JobCancelled) \<and>
      (\<forall>j \<in> set (run_jobs (r_id r) ?s). j_state j \<noteq> JobFailed)" if "r_state r = RunCancelled"
  proof -
    have "JobCancelled \<in> j_state ` set (run_jobs (r_id r) ?s) \<and> JobFailed \<notin> j_state ` set (run_jobs (r_id r) ?s)"
      using v(2) that by (auto simp: run_verdict_def split: if_splits)
    then show ?thesis by (metis imageE imageI)
  qed
  ultimately show ?thesis unfolding js Let_def by blast
qed

lemma demo_run:
  obtains r where "r \<in> set (t_runs (st (sv_sched demo_sv5)))" and "r_id r = ''0''" and "r_state r = RunRunning"
proof -
  have "(''0'', RunRunning) \<in> set (map (\<lambda>r. (r_id r, r_state r)) (t_runs (st (sv_sched demo_sv5))))"
    unfolding demo_final_tables(2) by simp
  then show thesis using that by auto
qed

theorem run_verdicts_witness:
  "\<exists>r \<in> set (t_runs (st (sv_sched demo_sv5))). r_state r \<in> {RunPending, RunRunning}"
proof -
  obtain r where r: "r \<in> set (t_runs (st (sv_sched demo_sv5)))" "r_id r = ''0''" by (rule demo_run)
  have "(''2'', JobQueued, ''0'') \<in> set (map (\<lambda>j. (j_id j, j_state j, j_run_id j)) (t_jobs (st (sv_sched demo_sv5))))"
    unfolding demo_final_tables(1) by simp
  then have "\<exists>j \<in> set (t_jobs (st (sv_sched demo_sv5))). j_run_id j = r_id r \<and> j_state j = JobQueued" using r(2) by auto
  then show ?thesis using run_verdicts [OF demo_sv0_init demo_reach(5) r(1)] r(1) unfolding Let_def by blast
qed

text \<open>
  C12. No run gets stuck. In every reachable state an unfinished run has a job a runner can claim or is
  running, and every pending job waits for a job of its run that is itself unfinished.
\<close>

theorem no_deadlock:
  assumes "sys_init sv0" and "(sys_step decode)\<^sup>*\<^sup>* sv0 sv" and "r \<in> set (t_runs (st (sv_sched sv)))"
    and "r_state r \<in> {RunPending, RunRunning}"
  shows "(\<exists>j \<in> set (t_jobs (st (sv_sched sv))). j_run_id j = r_id r \<and> j_state j \<in> {JobQueued, JobRunning}) \<and>
    (\<forall>j \<in> set (t_jobs (st (sv_sched sv))). j_run_id j = r_id r \<and> j_state j = JobPending \<longrightarrow>
      (\<exists>k \<in> set (t_jobs (st (sv_sched sv))). j_run_id k = r_id r \<and> \<not> isTerminal (j_state k) \<and>
        \<lparr>d_job_id = j_id j, d_needs_job_id = j_id k\<rparr> \<in> set (t_deps (st (sv_sched sv)))))"
proof -
  note inv = reach_inv(1) [OF assms(1,2)]
  have "\<not> run_over (r_state r)" using assms(4) by auto
  from open_run_active [OF inv assms(3) this]
  have "\<exists>j \<in> set (t_jobs (st (sv_sched sv))). j_run_id j = r_id r \<and> j_state j \<in> {JobQueued, JobRunning}" by auto
  moreover have "\<exists>k \<in> set (t_jobs (st (sv_sched sv))). j_run_id k = r_id r \<and> \<not> isTerminal (j_state k) \<and>
        \<lparr>d_job_id = j_id j, d_needs_job_id = j_id k\<rparr> \<in> set (t_deps (st (sv_sched sv)))"
    if "j \<in> set (t_jobs (st (sv_sched sv)))" "j_run_id j = r_id r" "j_state j = JobPending" for j
  proof -
    have "j \<in> set (run_jobs (r_id r) (st (sv_sched sv)))" using that by (simp add: in_run_jobs)
    from inv_view_job [OF inv assms(3) this that(3)] obtain k where k: "k \<in> set (run_jobs (r_id r) (st (sv_sched sv)))"
      "j_id k \<in> job_needs (st (sv_sched sv)) (j_id j)" "\<not> isTerminal (j_state k)" by blast
    from k(2) obtain d where "d \<in> set (t_deps (st (sv_sched sv)))" "d_job_id d = j_id j" "d_needs_job_id d = j_id k"
      by (auto simp: job_needs_def)
    moreover have "d = \<lparr>d_job_id = d_job_id d, d_needs_job_id = d_needs_job_id d\<rparr>" by simp
    ultimately have "\<lparr>d_job_id = j_id j, d_needs_job_id = j_id k\<rparr> \<in> set (t_deps (st (sv_sched sv)))" by metis
    with k show ?thesis by (auto simp: in_run_jobs)
  qed
  ultimately show ?thesis by blast
qed


theorem no_deadlock_witness:
  "\<exists>j \<in> set (t_jobs (st (sv_sched demo_sv5))). j_run_id j = ''0'' \<and> j_state j \<in> {JobQueued, JobRunning}"
proof -
  obtain r where "r \<in> set (t_runs (st (sv_sched demo_sv5)))" "r_id r = ''0''" "r_state r = RunRunning" by (rule demo_run)
  with no_deadlock [OF demo_sv0_init demo_reach(5), of r] show ?thesis by auto
qed

text \<open>
  C13. Shape of the rows. In every reachable state a job has used at most its attempts; it has a lease, a
  runner and a start time while it runs and a finish time exactly when it is finished; a queued
  job has an attempt left and no runner; a job failed for a stated kind, which is the
  cancellation kind exactly for cancelled jobs.
\<close>

theorem job_rows_well_formed:
  assumes "sys_init sv0" and "(sys_step decode)\<^sup>*\<^sup>* sv0 sv" and "j \<in> set (t_jobs (st (sv_sched sv)))"
  shows "0 \<le> j_attempt j \<and> j_attempt j \<le> j_max_attempts j \<and>
    (j_lease_expires_at j \<noteq> None \<longleftrightarrow> j_state j = JobRunning) \<and>
    (j_state j = JobRunning \<longrightarrow> j_runner_id j \<noteq> None \<and> j_started_at j \<noteq> None \<and> 1 \<le> j_attempt j) \<and>
    (j_finished_at j \<noteq> None \<longleftrightarrow> isTerminal (j_state j)) \<and>
    (j_state j = JobQueued \<longrightarrow> j_attempt j < j_max_attempts j \<and> j_runner_id j = None) \<and>
    (j_state j = JobFailed \<longrightarrow> j_failure_kind j \<noteq> None) \<and>
    (j_state j = JobCancelled \<longleftrightarrow> j_failure_kind j = Some FailureCancelled)"
proof -
  have "job_wf j" using reach_inv(1) [OF assms(1,2)] assms(3) by (simp add: store_inv_def base_def)
  then show ?thesis by (auto simp: job_wf_def)
qed

theorem job_rows_well_formed_witness:
  "\<exists>j \<in> set (t_jobs (st (sv_sched demo_sv4))). j_state j = JobRunning \<and> j_lease_expires_at j \<noteq> None \<and> 2 \<le> j_max_attempts j"
proof -
  have "(''4'', JobRunning, 2) \<in> set (map (\<lambda>j. (j_id j, j_state j, j_attempt j)) (t_jobs (st (sv_sched demo_sv4))))"
    unfolding demo_jobs(2) by simp
  then obtain j where j: "j \<in> set (t_jobs (st (sv_sched demo_sv4)))" "j_state j = JobRunning" "j_attempt j = 2" by auto
  with job_rows_well_formed [OF demo_sv0_init demo_reach(4) j(1)] show ?thesis by (intro bexI [of _ j]) auto
qed

text \<open>
  C14. Permanence. What was recorded stays: a finished job or run is found unchanged in every later state,
  no job or run disappears, attempts never decrease, and the audit log, the stored logs and the
  dependency edges are only appended to.
\<close>

theorem records_permanent:
  assumes "sys_init sv0" and "(sys_step decode)\<^sup>*\<^sup>* sv0 sv" and "(sys_step decode)\<^sup>*\<^sup>* sv sv'"
  shows "let s = st (sv_sched sv); s' = st (sv_sched sv') in
    {j \<in> set (t_jobs s). isTerminal (j_state j)} \<subseteq> set (t_jobs s') \<and>
    {r \<in> set (t_runs s). run_over (r_state r)} \<subseteq> set (t_runs s') \<and>
    list_all2 (\<lambda>j j'. j_id j' = j_id j \<and> j_run_id j' = j_run_id j \<and> j_spec j' = j_spec j \<and> j_attempt j \<le> j_attempt j')
      (t_jobs s) (take (length (t_jobs s)) (t_jobs s')) \<and>
    prefix (map r_id (t_runs s)) (map r_id (t_runs s')) \<and> prefix (t_events s) (t_events s') \<and>
    prefix (t_chunks s) (t_chunks s') \<and> prefix (t_deps s) (t_deps s')"
proof -
  let ?s = "st (sv_sched sv)" and ?t = "st (sv_sched sv')"
  note g = reachable_grows [OF assms, unfolded grows_def]
  from g obtain js rs where js: "prefix js (t_jobs ?t)" "list_all2 job_step\<^sup>*\<^sup>* (t_jobs ?s) js"
    and rs: "prefix rs (t_runs ?t)" "list_all2 run_step\<^sup>*\<^sup>* (t_runs ?s) rs" by blast
  have "take (length (t_jobs ?s)) (t_jobs ?t) = js"
    using js by (auto simp: prefix_def dest: list_all2_lengthD)
  with js(2) have rows: "list_all2 (\<lambda>j j'. j_id j' = j_id j \<and> j_run_id j' = j_run_id j \<and> j_spec j' = j_spec j \<and>
      j_attempt j \<le> j_attempt j') (t_jobs ?s) (take (length (t_jobs ?s)) (t_jobs ?t))"
    by (auto elim!: list_all2_mono dest: job_steps_static)
  have "list_all2 (\<lambda>r r'. r_id r = r_id r') (t_runs ?s) rs"
    using rs(2) by (auto elim!: list_all2_mono dest: run_steps_static)
  then have "map r_id (t_runs ?s) = map r_id rs" by (induction rule: list_all2_induct) simp_all
  then have runs: "prefix (map r_id (t_runs ?s)) (map r_id (t_runs ?t))" using rs(1) by (simp add: map_mono_prefix)
  have "j \<in> set (t_jobs ?t)" if "j \<in> set (t_jobs ?s)" "isTerminal (j_state j)" for j
    using grows_row [OF reachable_grows [OF assms] that(1)] terminal_stuck [OF _ that(2)] by blast
  moreover have "r \<in> set (t_runs ?t)" if "r \<in> set (t_runs ?s)" "run_over (r_state r)" for r
    using list_all2_in_left [OF rs(2) that(1)] run_stuck [OF _ that(2)] set_mono_prefix [OF rs(1)] by blast
  ultimately show ?thesis using rows runs g unfolding Let_def by blast
qed

lemma demo_events: "length (t_events (st (sv_sched demo_sv2))) = 3"
  by code_simp

theorem records_permanent_witness:
  "prefix (t_events (st (sv_sched demo_sv2))) (t_events (st (sv_sched demo_sv4))) \<and> length (t_events (st (sv_sched demo_sv2))) = 3"
proof -
  have "length (t_events (st (sv_sched demo_sv2))) = 3" by (rule demo_events)
  with records_permanent [OF demo_sv0_init demo_reach(2) demo_reach(6)] show ?thesis by (simp add: Let_def)
qed

text \<open>
  Keys of the other tables. In every reachable state runner ids and names are unique, a log chunk is stored once per
  job, attempt and sequence number, an artifact once per job, attempt and path, both for jobs
  that exist, and the audit log is numbered from one without a gap.
\<close>

theorem keys_unique:
  assumes "sys_init sv0" and "(sys_step decode)\<^sup>*\<^sup>* sv0 sv"
  shows "let s = st (sv_sched sv) in
    distinct (map rn_id (t_runners s)) \<and> distinct (map rn_name (t_runners s)) \<and>
    distinct (map (\<lambda>c. (lc_job_id c, lc_attempt c, lc_seq c)) (t_chunks s)) \<and>
    distinct (map (\<lambda>a. (a_job_id a, a_attempt a, a_path a)) (t_artifacts s)) \<and>
    (\<forall>c \<in> set (t_chunks s). lc_job_id c \<in> j_id ` set (t_jobs s)) \<and>
    (\<forall>a \<in> set (t_artifacts s). a_job_id a \<in> j_id ` set (t_jobs s)) \<and>
    map e_id (t_events s) = map int [1..<Suc (length (t_events s))]"
proof -
  have "chunk_key = (\<lambda>c. (lc_job_id c, lc_attempt c, lc_seq c))" "artifact_key = (\<lambda>a. (a_job_id a, a_attempt a, a_path a))"
    by (simp_all add: fun_eq_iff chunk_key_def artifact_key_def)
  with reach_inv(2) [OF assms] show ?thesis unfolding Let_def tables_ok_def numbered_def by auto
qed

theorem keys_unique_witness:
  "map e_id (t_events (st (sv_sched demo_sv2))) = [1, 2, 3]"
proof -
  have "map int [1..<Suc 3] = [1, 2, 3]" by code_simp
  with keys_unique [OF demo_sv0_init demo_reach(2)] show ?thesis unfolding Let_def demo_events by simp
qed

end
