(* ===== verification/Settle.thy ===== *)
theory Settle
  imports Reachable
begin

text \<open>
  What the three handlers that settle jobs do, on every branch: completion reports, cancellation
  and the monitor's tick. Each writes the rows it is about and lets \<open>advance\<close> move the rest of
  the run; repeated deliveries find the state they left behind.
\<close>


section \<open>advance\<close>

text \<open>On an acyclic graph the equations of \<open>next_state\<close> have one solution.\<close>

lemma next_state_unique:
  assumes lk: "linked s" and ac: "acyclic (dep_rel s)"
    and a: "\<forall>j \<in> set (t_jobs s). j_run_id j = R \<longrightarrow> \<sigma> (j_id j) = Some (next_state \<sigma> (job_needs s (j_id j)) (j_state j))"
    and b: "\<forall>j \<in> set (t_jobs s). j_run_id j = R \<longrightarrow> \<tau> (j_id j) = Some (next_state \<tau> (job_needs s (j_id j)) (j_state j))"
    and j: "j \<in> set (t_jobs s)" and R: "j_run_id j = R"
  shows "\<sigma> (j_id j) = \<tau> (j_id j)"
proof -
  have "wf (dep_rel s)" by (rule finite_acyclic_wf [OF finite_dep_rel ac])
  then show ?thesis using j R
  proof (induction "j_id j" arbitrary: j rule: wf_induct_rule)
    case less
    have "next_state \<sigma> (job_needs s (j_id j)) (j_state j) = next_state \<tau> (job_needs s (j_id j)) (j_state j)"
    proof (rule next_state_cong)
      fix n assume n: "n \<in> job_needs s (j_id j)"
      from linked_needs [OF lk less(2) n] obtain k where "k \<in> set (t_jobs s)" "j_id k = n" "j_run_id k = j_run_id j" .
      with less(1) [of k] less(3) n show "\<sigma> n = \<tau> n" by (auto simp: dep_rel_def)
    qed
    with a b less(2,3) show ?case by simp
  qed
qed

text \<open>
  C15. The DAG step. On well-linked, acyclic tables the loop ends and returns without an error; the states
  it leaves are the one solution of the equations "a pending job is skipped when a need ended
  badly, queued when all needs succeeded, pending otherwise"; only pending jobs of the run
  changed; and the run is closed, with its verdict, exactly when all its jobs are finished.
\<close>

theorem advance_fixpoint:
  assumes "linked s" and "acyclic (dep_rel s)" and "R \<in> r_id ` set (t_runs s)"
  shows "\<exists>tr' s'. advance R tr s = (Inr tr', s') \<and>
    (\<forall>\<sigma>. (\<forall>j \<in> set (t_jobs s). j_run_id j = R \<longrightarrow>
        \<sigma> (j_id j) = Some (next_state \<sigma> (job_needs s (j_id j)) (j_state j))) \<longrightarrow>
      (\<forall>j \<in> set (t_jobs s). j_run_id j = R \<longrightarrow> \<sigma> (j_id j) = job_states s' (j_id j))) \<and>
    (\<forall>j \<in> set (t_jobs s). j_run_id j = R \<longrightarrow>
      job_states s' (j_id j) = Some (next_state (job_states s') (job_needs s (j_id j)) (j_state j))) \<and>
    list_all2 (\<lambda>j j'. j_run_id j = R \<and> j_state j = JobPending \<or> j' = j) (t_jobs s) (t_jobs s') \<and>
    (\<exists>n. t_runs s' = (if \<forall>j \<in> set (t_jobs s'). j_run_id j = R \<longrightarrow> isTerminal (j_state j)
      then map (\<lambda>r. if r_id r = R \<and> \<not> run_over (r_state r)
        then run_state_row (run_verdict (j_state ` {j \<in> set (t_jobs s'). j_run_id j = R})) n r else r) (t_runs s)
      else t_runs s))"
proof -
  from advance_advanced [OF assms(1,3), of tr] obtain tr' s' where adv: "advance R tr s = (Inr tr', s')" "advanced R s s'" by blast
  have sol: "\<forall>j \<in> set (t_jobs s). j_run_id j = R \<longrightarrow>
      job_states s' (j_id j) = Some (next_state (job_states s') (job_needs s (j_id j)) (j_state j))"
    using adv(2) by (simp add: advanced_def)
  note uniq = next_state_unique [OF assms(1,2) _ sol]
  from adv sol show ?thesis
    unfolding advanced_def rows_kept_def over_rows_def sql_update_def using uniq by blast
qed

theorem advance_fixpoint_witness:
  "\<exists>tr s. advance ''0'' no_transitions (st (sv_sched demo_sv5)) = (Inr tr, s)"
proof -
  obtain r where r: "r \<in> set (t_runs (st (sv_sched demo_sv5)))" "r_id r = ''0''" by (rule demo_run)
  note inv = reach_inv [OF demo_sv0_init demo_reach(5)]
  have ac: "acyclic (dep_rel (st (sv_sched demo_sv5)))" using inv(1) by (simp add: store_inv_def base_def)
  have "''0'' \<in> r_id ` set (t_runs (st (sv_sched demo_sv5)))" using r by (metis imageI)
  from advance_fixpoint [OF inv(3) ac this, of no_transitions] show ?thesis by blast
qed


text \<open>What \<open>advance\<close> does to the rows: only pending jobs of the run move, to queued or skipped.\<close>

lemma advanced_rows:
  assumes "advanced R s s'" and "distinct (map j_id (t_jobs s))"
  shows "list_all2 (\<lambda>k k'. k' = k \<or> j_run_id k = R \<and> j_state k = JobPending \<and> j_id k' = j_id k \<and>
      j_state k' \<in> {JobPending, JobQueued, JobSkipped}) (t_jobs s) (t_jobs s')"
proof -
  from assms(1) have ev: "evolves s s'" and kept: "rows_kept R s s'" by (simp_all add: advanced_def)
  have dist: "distinct (map j_id (t_jobs s'))" using evolves_ids [OF ev] assms(2) by simp
  have len: "length (t_jobs s) = length (t_jobs s')" using evolves_ids [OF ev] by (metis length_map)
  show ?thesis
  proof (rule list_all2_all_nthI [OF len])
    fix n assume n: "n < length (t_jobs s)"
    let ?k = "t_jobs s ! n" and ?k' = "t_jobs s' ! n"
    have id: "j_id ?k' = j_id ?k" using evolves_ids [OF ev] n len by (metis nth_map)
    have "j_run_id ?k = R \<and> j_state ?k = JobPending \<or> ?k' = ?k"
      using kept n by (simp add: rows_kept_def list_all2_conv_all_nth)
    moreover have "j_state ?k' \<in> {JobPending, JobQueued, JobSkipped}" if "j_run_id ?k = R" "j_state ?k = JobPending"
    proof -
      have "job_states s' (j_id ?k) = Some (next_state (job_states s') (job_needs s (j_id ?k)) (j_state ?k))"
        using assms(1) n that(1) by (simp add: advanced_def)
      moreover have "job_states s' (j_id ?k) = Some (j_state ?k')" using job_states_at [OF dist, of ?k'] n len id by simp
      ultimately show ?thesis using that(2) by (auto simp: next_state_def)
    qed
    ultimately show "?k' = ?k \<or> j_run_id ?k = R \<and> j_state ?k = JobPending \<and> j_id ?k' = j_id ?k \<and>
        j_state ?k' \<in> {JobPending, JobQueued, JobSkipped}" using id by blast
  qed
qed


section \<open>Complete\<close>

text \<open>The row the code writes for a report, by the verdict and what the job has left.\<close>

definition settled_row :: "Job \<Rightarrow> failure_kind option \<Rightarrow> Result \<Rightarrow> int \<Rightarrow> Job" where
  "settled_row job v res now =
     (if v = None then finish_row JobSucceeded None (res_exit_code res) [] now job
      else if v = Some FailureCancelled \<and> j_cancel_reason job = Some CancelReasonTimeout
      then finish_row JobFailed (Some FailureTimeout) (res_exit_code res) ''job timed out (server backstop)'' now job
      else if v = Some FailureCancelled
      then finish_row JobCancelled (Some FailureCancelled) (res_exit_code res) (res_error res) now job
      else if v \<in> {Some FailureInfra, Some FailureLostRunner} \<and> j_attempt job < j_max_attempts job \<and>
        null_int (j_cancel_requested_at job) = 0
      then requeue_row (res_error res) now job
      else finish_row JobFailed v (res_exit_code res) (res_error res) now job)"

lemma settled_row_fields:
  "j_id (settled_row j v res n) = j_id j" "j_run_id (settled_row j v res n) = j_run_id j"
  "j_attempt (settled_row j v res n) = j_attempt j"
  "j_state (settled_row j v res n) = JobQueued \<or> isTerminal (j_state (settled_row j v res n))"
  "j_state (settled_row j v res n) \<noteq> JobPending" "j_state (settled_row j v res n) \<noteq> JobRunning"
  by (simp_all add: settled_row_def row_simps)

text \<open>
  What a report means, column by column and without the updates of the store: the row a running
  job becomes. A finished row has the exit code, the time and no lease; a requeued one
  gives up its runner, its lease and its start and goes to the end of the queue.
\<close>

definition report_ok :: "Result \<Rightarrow> bool" where
  "report_ok res \<longleftrightarrow> res_status res = ''succeeded'' \<or>
     res_status res = ''failed'' \<and> res_failure_kind res \<in> {''exit_code'', ''timeout'', ''infra'', ''cancelled''}"

definition outcome :: "Job \<Rightarrow> Result \<Rightarrow> int \<Rightarrow> Job" where
  "outcome job res now =
     (let kind = res_failure_kind res;
          msg = (if res_error res = [] then None else Some (res_error res));
          over = job\<lparr>j_exit_code := res_exit_code res, j_lease_expires_at := None, j_finished_at := Some now\<rparr>
      in if res_status res = ''succeeded''
         then over\<lparr>j_state := JobSucceeded, j_failure_kind := None, j_error := None\<rparr>
         else if kind = ''cancelled'' \<and> j_cancel_reason job = Some CancelReasonTimeout
         then over\<lparr>j_state := JobFailed, j_failure_kind := Some FailureTimeout,
           j_error := Some ''job timed out (server backstop)''\<rparr>
         else if kind = ''cancelled''
         then over\<lparr>j_state := JobCancelled, j_failure_kind := Some FailureCancelled, j_error := msg\<rparr>
         else if kind = ''infra'' \<and> j_attempt job < j_max_attempts job \<and> j_cancel_requested_at job \<in> {None, Some 0}
         then job\<lparr>j_state := JobQueued, j_runner_id := None, j_lease_expires_at := None, j_started_at := None,
           j_error := msg, j_queued_at := now\<rparr>
         else over\<lparr>j_state := JobFailed, j_error := msg,
           j_failure_kind := Some (if kind = ''exit_code'' then FailureExitCode
             else if kind = ''timeout'' then FailureTimeout else FailureInfra)\<rparr>)"

lemma null_int_zero: "null_int x = 0 \<longleftrightarrow> x \<in> {None, Some 0}"
  by (cases x) (simp_all add: null_int_def)

lemma report_verdict:
  assumes "report_ok res"
  obtains v where "check_result res = Inr v" and "\<And>j now. settled_row j v res now = outcome j res now"
proof -
  note defs = settled_row_def outcome_def Let_def finish_row_def requeue_row_def nullStr_def null_int_zero
  consider "res_status res = ''succeeded''"
    | "res_status res = ''failed''" "res_failure_kind res = ''exit_code''"
    | "res_status res = ''failed''" "res_failure_kind res = ''timeout''"
    | "res_status res = ''failed''" "res_failure_kind res = ''infra''"
    | "res_status res = ''failed''" "res_failure_kind res = ''cancelled''"
    using assms by (auto simp: report_ok_def)
  then show thesis
  proof cases
    case 1 then show thesis by (intro that [of None]) (simp_all add: check_result_def defs)
  next
    case 2 then show thesis by (intro that [of "Some FailureExitCode"]) (simp_all add: check_result_def defs)
  next
    case 3 then show thesis by (intro that [of "Some FailureTimeout"]) (simp_all add: check_result_def defs)
  next
    case 4 then show thesis by (intro that [of "Some FailureInfra"]) (auto simp: check_result_def defs)
  next
    case 5 then show thesis by (intro that [of "Some FailureCancelled"]) (simp_all add: check_result_def defs)
  qed
qed

lemma row_update_eq:
  assumes "distinct (map j_id (t_jobs s))" and "job \<in> set (t_jobs s)" and "P job"
    and "\<And>j. P j \<Longrightarrow> j_id j = j_id job" and "f job = row"
  shows "sql_update P f (t_jobs s) = sql_update (\<lambda>j. j = job) (\<lambda>_. row) (t_jobs s)"
proof -
  have "P j \<longleftrightarrow> j = job" if "j \<in> set (t_jobs s)" for j
    using assms(3,4) distinct_keys_eq [OF assms(1) that assms(2)] by blast
  then show ?thesis unfolding sql_update_def assms(5) [symmetric] by (intro map_cong) simp_all
qed

lemma finish_attempt_run:
  assumes "distinct (map j_id (t_jobs s))" and "job \<in> set (t_jobs s)" and "j_state job = JobRunning"
    and "j_run_id job \<noteq> []" and "typ \<noteq> []"
  shows "\<exists>tr' s'. finish_attempt job (j_attempt job) fs k c m typ d tr s = (Inr tr', s') \<and>
    t_jobs s' = sql_update (\<lambda>j. j = job) (\<lambda>_. finish_row fs k c m (clock s (reads s)) job) (t_jobs s)"
  using assms row_update_eq [OF assms(1,2), of "\<lambda>j. j_id j = j_id job \<and> j_state j = JobRunning \<and> j_attempt j = j_attempt job"
      "finish_row fs k c m (clock s (reads s))"]
  by (simp add: finish_attempt_def FinishJob_def tx_bind_run Now_def update_jobs_def event_run)

lemma complete_write_run:
  assumes "distinct (map j_id (t_jobs s))" and "job \<in> set (t_jobs s)" and "j_state job = JobRunning"
    and "j_run_id job \<noteq> []"
  shows "\<exists>tr' s'. complete_write job (j_attempt job) v res tr s = (Inr tr', s') \<and>
    t_jobs s' = sql_update (\<lambda>j. j = job) (\<lambda>_. settled_row job v res (clock s (reads s))) (t_jobs s)"
proof -
  note fin = finish_attempt_run [OF assms]
  have req: "sql_update (\<lambda>j. j_id j = j_id job \<and> j_state j = JobRunning \<and> j_attempt j = j_attempt job)
      (requeue_row m n) (t_jobs s) = sql_update (\<lambda>j. j = job) (\<lambda>_. requeue_row m n job) (t_jobs s)" for m n
    by (rule row_update_eq [OF assms(1,2)]) (simp_all add: assms(3))
  show ?thesis
  proof (cases v)
    case None
    then show ?thesis using fin by (simp add: complete_write_def settled_row_def)
  next
    case (Some k)
    show ?thesis
    proof (cases "k \<noteq> FailureCancelled \<and> retryable k \<and> j_attempt job < j_max_attempts job \<and> null_int (j_cancel_requested_at job) = 0")
      case True
      then show ?thesis using Some req assms(4)
        by (auto simp: complete_write_def settled_row_def retryable_def RequeueJob_def tx_bind_run Now_def update_jobs_def event_run
            split: failure_kind.splits)
    next
      case False
      then show ?thesis using Some fin
        by (cases k) (auto simp: complete_write_def settled_row_def retryable_def)
    qed
  qed
qed

lemma inv_run_id: "store_inv s \<Longrightarrow> job \<in> set (t_jobs s) \<Longrightarrow> j_run_id job \<noteq> []"
  by (auto simp: store_inv_def base_def linked_def)

lemma complete_tx_run:
  fixes v :: "failure_kind option" and res :: Result
  assumes inv: "store_inv s" and job: "job \<in> set (t_jobs s)" and running: "j_state job = JobRunning"
  defines "out \<equiv> settled_row job v res (clock s (reads s))"
  obtains tr s1 s2 where "complete_tx (j_id job) (j_attempt job) v res s = (Inr (out, tr), s2)"
    and "t_jobs s1 = sql_update (\<lambda>j. j = job) (\<lambda>_. out) (t_jobs s)" and "advanced (j_run_id job) s1 s2"
    and "find (\<lambda>j. j_id j = j_id job) (t_jobs s2) = Some out"
proof -
  let ?w = "complete_write job (j_attempt job) v res no_transitions s"
  note dist = inv_distinct [OF inv]
  from complete_write_run [OF dist job running inv_run_id [OF inv job], of v res no_transitions] obtain tr1 s1
    where w: "?w = (Inr tr1, s1)" and s1: "t_jobs s1 = sql_update (\<lambda>j. j = job) (\<lambda>_. out) (t_jobs s)"
    by (auto simp: out_def)
  from running_run_open [OF inv job] running obtain run where run: "run \<in> set (t_runs s)"
    "r_id run = j_run_id job" "\<not> run_over (r_state run)" by auto
  have ev: "evolves s s1" using complete_write_evolves [OF dist job running refl, of v res no_transitions] w by simp
  from inv_then_advance [OF inv ev touching.withinD [OF complete_write_touches w] _ run(1,3), of tr1]
  obtain tr s2 where adv: "advance (j_run_id job) tr1 s1 = (Inr tr, s2)" "advanced (j_run_id job) s1 s2" "store_inv s2"
    using one_job [OF inv job] run(2) by auto
  have "out \<in> set (t_jobs s1)" using job by (auto simp: s1 in_sql_update)
  moreover have "j_state out \<noteq> JobPending" by (simp add: out_def settled_row_fields)
  ultimately have "out \<in> set (t_jobs s2)" using tx_alwaysD [OF stays_advance _ adv(1)] by blast
  then have f: "find (\<lambda>j. j_id j = j_id job) (t_jobs s2) = Some out"
    using find_keyed_Some [OF inv_distinct [OF adv(3)], of out] by (simp add: out_def settled_row_fields)
  have "complete_tx (j_id job) (j_attempt job) v res s = (Inr (out, tr), s2)"
    using find_keyed_Some [OF dist job] w adv(1) f running by (simp add: complete_tx_def GetJob_def tx_bind_run)
  with s1 adv(2) f show ?thesis by (intro that)
qed

lemma Complete_outcome:
  assumes inv: "store_inv (st sc)" and j: "j \<in> set (t_jobs (st sc))" "j_state j = JobRunning" and "report_ok res"
  defines "out \<equiv> outcome j res (clock (st sc) (reads (st sc)))"
  shows "\<exists>sc'. Complete sc (j_id j) (j_attempt j) res = (Inr out, sc') \<and> out \<in> set (t_jobs (st sc')) \<and>
    list_all2 (\<lambda>k k'. k' = (if k = j then out else k) \<or>
        j_run_id k = j_run_id j \<and> j_state k = JobPending \<and> j_id k' = j_id k \<and> j_state k' \<in> {JobPending, JobQueued, JobSkipped})
      (t_jobs (st sc)) (t_jobs (st sc'))"
proof -
  let ?s = "st sc"
  from report_verdict [OF assms(4)] obtain v where v: "check_result res = Inr v"
    and row: "\<And>j now. settled_row j v res now = outcome j res now" by metis
  have out: "out = settled_row j v res (clock ?s (reads ?s))" by (simp add: out_def row)
  from complete_tx_run [OF inv j, of v res] obtain tr s1 s2
    where run: "complete_tx (j_id j) (j_attempt j) v res ?s = (Inr (out, tr), s2)"
      and s1: "t_jobs s1 = sql_update (\<lambda>k. k = j) (\<lambda>_. out) (t_jobs ?s)" and adv: "advanced (j_run_id j) s1 s2"
      and find: "find (\<lambda>k. j_id k = j_id j) (t_jobs s2) = Some out" by (metis out)
  have "list_all2 (\<lambda>k k'. k' = k \<or> j_run_id k = j_run_id j \<and> j_state k = JobPending \<and> j_id k' = j_id k \<and>
      j_state k' \<in> {JobPending, JobQueued, JobSkipped}) (t_jobs s1) (t_jobs s2)"
  proof (rule advanced_rows [OF adv])
    have "map j_id (t_jobs s1) = map j_id (t_jobs ?s)"
      unfolding s1 by (rule map_sql_update) (simp add: out settled_row_fields)
    then show "distinct (map j_id (t_jobs s1))" using inv_distinct [OF inv] by simp
  qed
  moreover have "j_state out \<noteq> JobPending" by (simp add: out settled_row_fields)
  ultimately have "list_all2 (\<lambda>k k'. k' = (if k = j then out else k) \<or>
        j_run_id k = j_run_id j \<and> j_state k = JobPending \<and> j_id k' = j_id k \<and> j_state k' \<in> {JobPending, JobQueued, JobSkipped})
      (t_jobs ?s) (t_jobs s2)"
    unfolding s1 sql_update_def list.rel_map by (auto elim!: list_all2_mono split: if_splits)
  moreover have "Complete sc (j_id j) (j_attempt j) res = (Inr out, sc\<lparr>st := s2, mx := tr_apply tr (mx sc)\<rparr>)"
    using run v by (simp add: Complete_def Tx_def)
  moreover have "out \<in> set (t_jobs s2)" using find by (auto simp: find_Some_iff)
  ultimately show ?thesis by fastforce
qed

text \<open>
  C16. Reports. In every reachable state a report for the running attempt with a known status and failure kind
  is accepted, and the row of the job becomes exactly the outcome of the report, every column of
  it: succeeded; cancelled, or timed out when the server had asked for the stop; queued again
  without runner, lease and start for an infrastructure failure with attempts left and no
  cancel request; failed with the kind reported otherwise, each with the exit code, the message
  and the time. Other rows stay as they are, except pending jobs of the same run, which may be
  queued or skipped.
\<close>

theorem Complete_settles:
  assumes "sys_init sv0" and "(sys_step decode)\<^sup>*\<^sup>* sv0 sv" and "j \<in> set (t_jobs (st (sv_sched sv)))"
    and "j_state j = JobRunning" and "report_ok res"
    and "out = outcome j res (clock (st (sv_sched sv)) (reads (st (sv_sched sv))))"
  shows "\<exists>sc'. Complete (sv_sched sv) (j_id j) (j_attempt j) res = (Inr out, sc') \<and>
    out \<in> set (t_jobs (st sc')) \<and>
    list_all2 (\<lambda>k k'. k' = (if k = j then out else k) \<or>
        j_run_id k = j_run_id j \<and> j_state k = JobPending \<and> j_id k' = j_id k \<and> j_state k' \<in> {JobPending, JobQueued, JobSkipped})
      (t_jobs (st (sv_sched sv))) (t_jobs (st sc'))"
  unfolding assms(6) by (rule Complete_outcome [OF reach_inv(1) [OF assms(1,2)] assms(3-5)])

lemma demo_running:
  obtains j where "j \<in> set (t_jobs (st (sv_sched demo_sv4)))" and "j_id j = ''4''" and "j_state j = JobRunning" and "j_attempt j = 2"
proof -
  have "(''4'', JobRunning, 2) \<in> set (map (\<lambda>j. (j_id j, j_state j, j_attempt j)) (t_jobs (st (sv_sched demo_sv4))))"
    unfolding demo_jobs(2) by simp
  then show thesis using that by auto
qed

lemma demo_completion:
  obtains out sc where "Complete (sv_sched demo_sv4) ''4'' 2 (demo_result ''succeeded'' []) = (Inr out, sc)"
    and "j_state out = JobSucceeded"
proof -
  obtain j where j: "j \<in> set (t_jobs (st (sv_sched demo_sv4)))" "j_id j = ''4''" "j_state j = JobRunning" "j_attempt j = 2"
    by (rule demo_running)
  have v: "check_result (demo_result ''succeeded'' []) = Inr None" by (simp add: check_result_def demo_result_def)
  obtain tr s2 where "complete_tx (j_id j) (j_attempt j) None (demo_result ''succeeded'' []) (st (sv_sched demo_sv4)) =
      (Inr (settled_row j None (demo_result ''succeeded'' []) (clock (st (sv_sched demo_sv4)) (reads (st (sv_sched demo_sv4)))), tr), s2)"
    by (rule complete_tx_run [OF reach_inv(1) [OF demo_sv0_init demo_reach(4)] j(1,3)])
  then show thesis using that v j(2,4) by (simp add: Complete_def Tx_def settled_row_def row_simps)
qed

theorem Complete_settles_witness:
  "\<exists>out sc. Complete (sv_sched demo_sv4) ''4'' 2 (demo_result ''failed'' ''exit_code'') = (Inr out, sc) \<and>
     j_state out = JobFailed \<and> j_failure_kind out = Some FailureExitCode \<and> j_lease_expires_at out = None"
proof -
  obtain j where j: "j \<in> set (t_jobs (st (sv_sched demo_sv4)))" "j_id j = ''4''" "j_state j = JobRunning" "j_attempt j = 2"
    by (rule demo_running)
  have "report_ok (demo_result ''failed'' ''exit_code'')" by (simp add: report_ok_def demo_result_def)
  from Complete_settles [OF demo_sv0_init demo_reach(4) j(1,3) this refl] j(2,4) show ?thesis
    by (auto simp: outcome_def demo_result_def Let_def)
qed

text \<open>
  Redelivery of a report. Delivering an accepted report a second time changes nothing at all, the
  metrics included: a finished job is returned again as it is, and a requeued one fences the
  second delivery off.
\<close>

theorem Complete_redelivered:
  assumes "store_inv (st sc)" and "Complete sc i a res = (Inr out, sc')"
  shows "Complete sc' i a res = (if isTerminal (j_state out) then Inr out else Inl ErrFenced, sc')"
proof -
  from assms(2) obtain v tr s2 where v: "check_result res = Inr v"
    and tx: "complete_tx i a v res (st sc) = (Inr (out, tr), s2)" and sc': "sc' = sc\<lparr>st := s2, mx := tr_apply tr (mx sc)\<rparr>"
    by (auto simp: Complete_def Tx_def split: sum.splits prod.splits)
  from tx obtain job where f: "find (\<lambda>j. j_id j = i) (t_jobs (st sc)) = Some job"
    by (auto simp: complete_tx_def GetJob_def tx_bind_run split: option.splits)
  then have job: "job \<in> set (t_jobs (st sc))" "j_id job = i" by (auto simp: find_Some_iff)
  have "find (\<lambda>j. j_id j = i) (t_jobs s2) = Some out \<and> j_attempt out = a \<and> j_state out \<noteq> JobRunning"
  proof (cases "j_state job = JobRunning \<and> j_attempt job = a")
    case True
    with complete_tx_run [OF assms(1) job(1), of v res] job(2) tx show ?thesis
      by (metis settled_row_fields(3,6) Inr_inject Pair_inject)
  next
    case False
    with complete_tx_fence [OF f False, of v res] tx f show ?thesis by (auto split: if_splits)
  qed
  moreover have "tr_apply no_transitions m = m" for m by (simp add: tr_apply_def no_transitions_def)
  ultimately show ?thesis using v sc' complete_tx_fence [of i s2 out a v res]
    by (auto simp: Complete_def Tx_def)
qed

theorem Complete_redelivered_witness:
  "\<exists>out sc. Complete (sv_sched demo_sv4) ''4'' 2 (demo_result ''succeeded'' []) = (Inr out, sc) \<and>
     Complete sc ''4'' 2 (demo_result ''succeeded'' []) = (Inr out, sc)"
proof -
  obtain out sc where c: "Complete (sv_sched demo_sv4) ''4'' 2 (demo_result ''succeeded'' []) = (Inr out, sc)"
    and "j_state out = JobSucceeded" by (rule demo_completion)
  with Complete_redelivered [OF reach_inv(1) [OF demo_sv0_init demo_reach(4)] c] show ?thesis by auto
qed

end
