(* ===== verification/Cancel.thy ===== *)
theory Cancel
  imports Settle
begin

text \<open>
  Cancelling a run: what becomes of each job, when the run closes at once, and that asking twice
  is the same as asking once.
\<close>


section \<open>The rows\<close>

definition cancelled :: "Job \<Rightarrow> Job \<Rightarrow> bool" where
  "cancelled j j' \<longleftrightarrow> (\<exists>n. j' =
     (if j_state j \<in> {JobPending, JobQueued} then cancel_row ''cancelled by user'' n j
      else if j_state j = JobRunning \<and> j_cancel_requested_at j = None then request_cancel_row CancelReasonUser n j
      else j))"

lemma cancelled_fields:
  assumes "cancelled j j'"
  shows "j_id j' = j_id j" and "j_run_id j' = j_run_id j" and "j_state j' \<noteq> JobPending" and "j_state j' \<noteq> JobQueued"
    and "isTerminal (j_state j') \<longleftrightarrow> j_state j \<noteq> JobRunning"
proof -
  from assms obtain n where j': "j' =
     (if j_state j \<in> {JobPending, JobQueued} then cancel_row ''cancelled by user'' n j
      else if j_state j = JobRunning \<and> j_cancel_requested_at j = None then request_cancel_row CancelReasonUser n j
      else j)" unfolding cancelled_def by blast
  show "j_id j' = j_id j" and "j_run_id j' = j_run_id j" and "j_state j' \<noteq> JobPending" and "j_state j' \<noteq> JobQueued"
    and "isTerminal (j_state j') \<longleftrightarrow> j_state j \<noteq> JobRunning"
    unfolding j' by (cases "j_state j"; simp add: row_simps)+
qed

lemma list_all2_Ball:
  "list_all2 Q xs ys \<Longrightarrow> (\<And>x y. Q x y \<Longrightarrow> P x \<longleftrightarrow> P' y) \<Longrightarrow> (\<forall>x \<in> set xs. P x) \<longleftrightarrow> (\<forall>y \<in> set ys. P' y)"
  by (induction rule: list_all2_induct) auto

lemma one_row:
  assumes "distinct (map j_id (t_jobs s))" and "k \<in> set (t_jobs s)"
    and "\<And>j. P j \<Longrightarrow> j_id j = j_id k" and "P k \<Longrightarrow> Q (f k)" and "\<not> P k \<Longrightarrow> Q k"
  shows "list_all2 (\<lambda>j j'. if j = k then Q j' else j' = j) (t_jobs s) (sql_update P f (t_jobs s))"
proof -
  have "P j \<longrightarrow> j = k" if "j \<in> set (t_jobs s)" for j
    using assms(3) distinct_keys_eq [OF assms(1) that assms(2)] by blast
  then show ?thesis using assms(4,5) by (auto simp: sql_update_def list.rel_map intro!: list.rel_refl_strong)
qed

lemma cancel_one_run:
  assumes dist: "distinct (map j_id (t_jobs s))" and k: "k \<in> set (t_jobs s)" and R: "R \<noteq> []"
  shows "\<exists>tr' s'. cancel_one R k tr s = (Inr tr', s') \<and>
    list_all2 (\<lambda>j j'. if j = k then cancelled k j' else j' = j) (t_jobs s) (t_jobs s')"
proof -
  let ?n = "clock s (reads s)"
  consider (dead) "j_state k \<in> {JobPending, JobQueued}" | (live) "j_state k = JobRunning"
    | (over) "j_state k \<notin> {JobPending, JobQueued, JobRunning}" by blast
  then show ?thesis
  proof cases
    case dead
    let ?P = "\<lambda>j. j_id j = j_id k \<and> (j_state j = JobPending \<or> j_state j = JobQueued)"
    have "list_all2 (\<lambda>j j'. if j = k then cancelled k j' else j' = j) (t_jobs s)
        (sql_update ?P (cancel_row ''cancelled by user'' ?n) (t_jobs s))"
      by (rule one_row [OF dist k]) (use dead in \<open>auto simp: cancelled_def\<close>)
    with dead R show ?thesis
      by (auto simp: cancel_one_def CancelJob_def tx_bind_run Now_def update_jobs_def event_run)
  next
    case live
    let ?P = "\<lambda>j. j_id j = j_id k \<and> j_state j = JobRunning \<and> j_cancel_requested_at j = None"
    have "list_all2 (\<lambda>j j'. if j = k then cancelled k j' else j' = j) (t_jobs s)
        (sql_update ?P (request_cancel_row CancelReasonUser ?n) (t_jobs s))"
      by (rule one_row [OF dist k]) (use live in \<open>auto simp: cancelled_def\<close>)
    with live R show ?thesis
      by (auto simp: cancel_one_def RequestJobCancel_def tx_bind_run Now_def update_jobs_def event_run)
  next
    case over
    then have "cancelled k k" by (auto simp: cancelled_def)
    with over show ?thesis by (auto simp: cancel_one_def intro!: list.rel_refl_strong)
  qed
qed

lemma cancel_fold_run:
  assumes "distinct (map j_id (t_jobs s))" and "set js \<subseteq> set (t_jobs s)" and "distinct (map j_id js)" and "R \<noteq> []"
  shows "\<exists>tr' s'. tx_fold (cancel_one R) js tr s = (Inr tr', s') \<and>
    list_all2 (\<lambda>j j'. if j \<in> set js then cancelled j j' else j' = j) (t_jobs s) (t_jobs s')"
  using assms
proof (induction js arbitrary: s tr)
  case Nil
  then show ?case by (auto intro!: list.rel_refl_strong)
next
  case (Cons k ks)
  from cancel_one_run [OF Cons.prems(1) _ Cons.prems(4), of k tr] Cons.prems(2) obtain tr1 s1
    where one: "cancel_one R k tr s = (Inr tr1, s1)"
      and rows: "list_all2 (\<lambda>j j'. if j = k then cancelled k j' else j' = j) (t_jobs s) (t_jobs s1)" by auto
  have "list_all2 (\<lambda>j j'. j_id j = j_id j') (t_jobs s) (t_jobs s1)"
    using rows by (rule list_all2_mono) (auto split: if_splits dest: cancelled_fields)
  then have ids: "map j_id (t_jobs s1) = map j_id (t_jobs s)" by (induction rule: list_all2_induct) simp_all
  have new: "k \<notin> set ks" using Cons.prems(3) by auto
  have "j \<in> set (t_jobs s1)" if "j \<in> set ks" for j
  proof -
    have "j \<noteq> k" and "j \<in> set (t_jobs s)" using that new Cons.prems(2) by auto
    with list_all2_in_left [OF rows, of j] show ?thesis by auto
  qed
  with Cons.IH [of s1 tr1] Cons.prems ids obtain tr2 s2 where rest: "tx_fold (cancel_one R) ks tr1 s1 = (Inr tr2, s2)"
    and rows2: "list_all2 (\<lambda>j j'. if j \<in> set ks then cancelled j j' else j' = j) (t_jobs s1) (t_jobs s2)" by auto
  have "list_all2 (\<lambda>j j'. if j \<in> set (k # ks) then cancelled j j' else j' = j) (t_jobs s) (t_jobs s2)"
  proof (rule list_all2_trans [OF _ rows rows2])
    fix a b c assume ab: "if a = k then cancelled k b else b = a" and bc: "if b \<in> set ks then cancelled b c else c = b"
    have "b \<notin> set ks" if "a = k" using that ab cancelled_fields(1) [of k b] Cons.prems(3) by (auto simp: image_iff)
    with ab bc show "if a \<in> set (k # ks) then cancelled a c else c = a" by (auto split: if_splits)
  qed
  with one rest show ?case by auto
qed


section \<open>CancelRun\<close>

text \<open>Whether a cancel of the run is in the audit log, as the handler asks.\<close>

definition cancel_logged :: "string \<Rightarrow> store \<Rightarrow> bool" where
  "cancel_logged R s \<longleftrightarrow> (\<exists>e \<in> set (t_events s). e_run_id e = R \<and> e_type e = ''run.cancel_requested'')"

lemma cancel_logged_query:
  assumes "tables_ok s"
  shows "(\<exists>e \<in> set (take_limit 0 (sort_key e_id (filter (\<lambda>e. e_run_id e = R \<and> 0 < e_id e) (t_events s)))).
      e_type e = ''run.cancel_requested'') \<longleftrightarrow> cancel_logged R s"
proof -
  have "map e_id (t_events s) = map int [1..<Suc (length (t_events s))]" using assms by (simp add: tables_ok_def numbered_def)
  then have "e_id ` set (t_events s) = int ` {1..<Suc (length (t_events s))}" by (metis list.set_map set_upt)
  then have "0 < e_id e" if "e \<in> set (t_events s)" for e using that by (metis (no_types, lifting) atLeastLessThan_iff imageE imageI of_nat_0_less_iff less_le_trans zero_less_one)
  then show ?thesis by (auto simp: cancel_logged_def take_limit_def)
qed

lemma inv_find_run:
  assumes "store_inv s" and "run \<in> set (t_runs s)"
  shows "find (\<lambda>r. r_id r = r_id run) (t_runs s) = Some run"
proof (rule find_keyed_Some [OF _ assms(2)])
  show "distinct (map r_id (t_runs s))" using assms(1) by (simp add: store_inv_def base_def linked_def)
qed

lemma cancel_tx_again:
  assumes "tables_ok s" and "find (\<lambda>r. r_id r = R) (t_runs s) = Some run" and "cancel_logged R s \<or> run_over (r_state run)"
  shows "cancel_tx R s = (if run_over (r_state run) then Inl ErrRunFinished else Inr (run, no_transitions), s)"
  using assms cancel_logged_query [OF assms(1), of R]
  by (auto simp: cancel_tx_def GetRun_def ListEvents_def tx_bind_run run_over_def cong: if_cong)

lemma cancel_tx_run:
  assumes inv: "store_inv s" and tab: "tables_ok s" and run: "run \<in> set (t_runs s)" "\<not> run_over (r_state run)"
    and new: "\<not> cancel_logged (r_id run) s"
  obtains out tr s' where "cancel_tx (r_id run) s = (Inr (out, tr), s')"
    and "list_all2 (\<lambda>j j'. if j_run_id j = r_id run then cancelled j j' else j' = j) (t_jobs s) (t_jobs s')"
    and "find (\<lambda>r. r_id r = r_id run) (t_runs s') = Some out" and "cancel_logged (r_id run) s'"
proof -
  let ?R = "r_id run" and ?ev = "\<lambda>s. event (r_id run) [] ''run.cancel_requested'' [] s"
  note dist = inv_distinct [OF inv]
  have R: "?R \<noteq> []" using inv run(1) by (simp add: store_inv_def base_def linked_def)
  have "distinct (map j_id (run_jobs ?R s))" using dist by (simp add: run_jobs_def distinct_map inj_on_def)
  from cancel_fold_run [OF dist _ this R, of no_transitions] obtain tr1 s1
    where fold: "tx_fold (cancel_one ?R) (run_jobs ?R s) no_transitions s = (Inr tr1, s1)"
      and rows: "list_all2 (\<lambda>j j'. if j \<in> set (run_jobs ?R s) then cancelled j j' else j' = j) (t_jobs s) (t_jobs s1)"
    by (auto simp: run_jobs_def)
  define s2 where "s2 = logged ?R [] ''run.cancel_requested'' [] s1"
  have ev: "?ev s1 = (Inr (), s2)" unfolding s2_def by (rule event_run) (use R in simp_all)
  have rows2: "list_all2 (\<lambda>j j'. if j_run_id j = ?R then cancelled j j' else j' = j) (t_jobs s) (t_jobs s2)"
    using rows unfolding s2_def logged_fields by (rule list.rel_mono_strong) (simp add: in_run_jobs)
  define m where "m = tx_bind (tx_fold (cancel_one ?R) (run_jobs ?R s) no_transitions) (\<lambda>tr. tx_bind ?ev (\<lambda>_. tx_return tr))"
  have m: "m s = (Inr tr1, s2)" unfolding m_def using fold ev by simp
  have "keeps m" unfolding m_def by (intro keeps_bind keeps_fold keeps_cancel_one keeps_event keeps_return)
  then have grow: "evolves s s2" using keepsD m by blast
  have "tx_within (touches (j_id ` set (run_jobs ?R s))) m"
    unfolding m_def by (intro touching_intros cancel_fold_touches touching_reads)
  then have ts: "touches (j_id ` set (run_jobs ?R s)) s s2" using touching.withinD m by blast
  have "j_run_id j = ?R" if "j \<in> set (t_jobs s)" "j_id j \<in> j_id ` set (run_jobs ?R s)" for j
    using one_job [OF inv _ that(1)] that(2) by (auto simp: in_run_jobs)
  from inv_then_advance [OF inv grow ts this run, of tr1] obtain tr s3
    where adv: "advance ?R tr1 s2 = (Inr tr, s3)" "advanced ?R s2 s3" by blast
  have "j_state k \<noteq> JobPending" if "k \<in> set (t_jobs s2)" "j_run_id k = ?R" for k
    using list_all2_in_right [OF rows2 that(1)] that(2) cancelled_fields by (metis (full_types))
  then have same: "t_jobs s3 = t_jobs s2"
    using advanced_rows [OF adv(2)] evolves_ids [OF grow] dist by (auto simp: list_all2_conv_all_nth list_eq_iff_nth_eq)
  have e3: "evolves s2 s3" using adv(2) by (simp add: advanced_def)
  have "?R \<in> set (map r_id (t_runs s3))" using run(1) evolves_runs [OF evolves_trans [OF grow e3]] by simp
  then have "find (\<lambda>r. r_id r = ?R) (t_runs s3) \<noteq> None" by (auto simp: find_None_iff)
  then obtain out where out: "find (\<lambda>r. r_id r = ?R) (t_runs s3) = Some out" by blast
  have "cancel_logged ?R s2" by (simp add: cancel_logged_def s2_def logged_def)
  with e3 have "cancel_logged ?R s3" by (auto simp: cancel_logged_def evolves_def dest: set_mono_prefix)
  moreover have "cancel_tx ?R s = (Inr (out, tr), s3)"
    using new run(2) inv_find_run [OF inv run(1)] fold ev adv(1) out cancel_logged_query [OF tab, of ?R]
    by (auto simp: cancel_tx_def GetRun_def ListEvents_def ListJobs_def tx_bind_run run_over_def run_jobs_def)
  ultimately show thesis using that rows2 same out by simp
qed

lemma CancelRun_run:
  assumes "sys_init sv0" and "(sys_step decode)\<^sup>*\<^sup>* sv0 sv" and "run \<in> set (t_runs (st (sv_sched sv)))"
    and "\<not> run_over (r_state run)" and "\<not> cancel_logged (r_id run) (st (sv_sched sv))"
  obtains out sc' where "CancelRun (sv_sched sv) (r_id run) = (Inr out, sc')"
    and "list_all2 (\<lambda>j j'. if j_run_id j = r_id run then cancelled j j' else j' = j)
      (t_jobs (st (sv_sched sv))) (t_jobs (st sc'))"
    and "find (\<lambda>r. r_id r = r_id run) (t_runs (st sc')) = Some out" and "cancel_logged (r_id run) (st sc')"
    and "store_inv (st sc')" and "tables_ok (st sc')"
proof -
  let ?s = "st (sv_sched sv)"
  note inv = reach_inv(1,2) [OF assms(1,2)]
  from cancel_tx_run [OF inv assms(3-5)] obtain out tr s' where tx: "cancel_tx (r_id run) ?s = (Inr (out, tr), s')"
    and rest: "list_all2 (\<lambda>j j'. if j_run_id j = r_id run then cancelled j j' else j' = j) (t_jobs ?s) (t_jobs s')"
      "find (\<lambda>r. r_id r = r_id run) (t_runs s') = Some out" "cancel_logged (r_id run) s'" .
  have run: "CancelRun (sv_sched sv) (r_id run) = (Inr out, (sv_sched sv)\<lparr>st := s', mx := tr_apply tr (mx (sv_sched sv))\<rparr>)"
    using tx by (simp add: CancelRun_def Tx_def)
  have "sound ?s s'" using scheduler_sound(4) [OF run] by simp
  with inv have "store_inv s'" "tables_ok s'" by (simp_all add: sound_def)
  with rest show thesis by (intro that [OF run]) simp_all
qed

text \<open>The run closes at once when none of its jobs is running.\<close>

lemma CancelRun_closes:
  assumes "store_inv (st sc')" and "find (\<lambda>r. r_id r = R) (t_runs (st sc')) = Some out"
    and rows: "list_all2 (\<lambda>j j'. if j_run_id j = R then cancelled j j' else j' = j) (t_jobs s) (t_jobs (st sc'))"
  shows "out \<in> set (t_runs (st sc'))" and "run_over (r_state out) \<longleftrightarrow> (\<forall>j \<in> set (t_jobs s). j_run_id j = R \<longrightarrow> j_state j \<noteq> JobRunning)"
proof -
  from assms(2) have o: "out \<in> set (t_runs (st sc'))" "r_id out = R" by (auto simp: find_Some_iff)
  show "out \<in> set (t_runs (st sc'))" by (rule o(1))
  have "run_over (r_state out) \<longleftrightarrow> (\<forall>k \<in> set (t_jobs (st sc')). j_run_id k = R \<longrightarrow> isTerminal (j_state k))"
    using view_states(1) [OF assms(1) o(1)] o(2) by (auto simp: in_run_jobs)
  also have "\<dots> \<longleftrightarrow> (\<forall>j \<in> set (t_jobs s). j_run_id j = R \<longrightarrow> j_state j \<noteq> JobRunning)"
    by (rule list_all2_Ball [OF rows, symmetric]) (auto dest: cancelled_fields(2,5) split: if_splits)
  finally show "run_over (r_state out) \<longleftrightarrow> (\<forall>j \<in> set (t_jobs s). j_run_id j = R \<longrightarrow> j_state j \<noteq> JobRunning)" .
qed


lemma demo_idle: "\<forall>j \<in> set (t_jobs (st (sv_sched demo_sv5))). j_state j \<noteq> JobRunning"
proof -
  have "JobRunning \<notin> set (map (\<lambda>j. fst (snd j)) (map (\<lambda>j. (j_id j, j_state j, j_run_id j)) (t_jobs (st (sv_sched demo_sv5)))))"
    unfolding demo_final_tables(1) by simp
  then show ?thesis by force
qed

lemma demo_not_cancelled: "\<not> cancel_logged ''0'' (st (sv_sched demo_sv5))"
proof -
  have "(''0'', ''run.cancel_requested'') \<notin> set (map (\<lambda>e. (e_run_id e, e_type e)) (t_events (st (sv_sched demo_sv5))))"
    unfolding demo_final_tables(4) by simp
  then show ?thesis by (force simp: cancel_logged_def)
qed


text \<open>
  Repeated cancellation. A second cancel of the run changes nothing: it reports the run again while jobs
  are still stopping, and answers that the run is finished once it is.
\<close>

theorem CancelRun_idempotent:
  assumes "sys_init sv0" and "(sys_step decode)\<^sup>*\<^sup>* sv0 sv" and "run \<in> set (t_runs (st (sv_sched sv)))"
    and "r_state run \<in> {RunPending, RunRunning}"
    and "CancelRun (sv_sched sv) (r_id run) = (Inr out, sc')"
  shows "CancelRun sc' (r_id run) = (if r_state out \<in> {RunPending, RunRunning} then Inr out else Inl ErrRunFinished, sc')"
proof -
  let ?s = "st (sv_sched sv)"
  note inv = reach_inv(1,2) [OF assms(1,2)]
  have opn: "\<not> run_over (r_state run)" using assms(4) by (auto simp: run_over_def)
  have same: "tr_apply no_transitions m = m" for m by (simp add: tr_apply_def no_transitions_def)
  have "cancel_logged (r_id run) (st sc') \<and> find (\<lambda>r. r_id r = r_id run) (t_runs (st sc')) = Some out \<and> tables_ok (st sc')"
  proof (cases "cancel_logged (r_id run) ?s")
    case True
    note f = inv_find_run [OF inv(1) assms(3)]
    from cancel_tx_again [OF inv(2) f disjI1 [OF True]] opn assms(5) have "sc' = sv_sched sv" "out = run"
      by (auto simp: CancelRun_def Tx_def same)
    with True f inv(2) show ?thesis by simp
  next
    case False
    with CancelRun_run [OF assms(1-3) opn] assms(5) show ?thesis by (metis Inr_inject Pair_inject)
  qed
  then have "cancel_tx (r_id run) (st sc') =
      (if run_over (r_state out) then Inl ErrRunFinished else Inr (out, no_transitions), st sc')"
    using cancel_tx_again by blast
  then show ?thesis by (auto simp: CancelRun_def Tx_def same run_over_def)
qed

theorem CancelRun_idempotent_witness:
  "\<exists>out sc. CancelRun (sv_sched demo_sv5) ''0'' = (Inr out, sc) \<and> snd (CancelRun sc ''0'') = sc"
proof -
  obtain r where r: "r \<in> set (t_runs (st (sv_sched demo_sv5)))" "r_id r = ''0''" "r_state r = RunRunning" by (rule demo_run)
  then have "\<not> run_over (r_state r)" "\<not> cancel_logged (r_id r) (st (sv_sched demo_sv5))" using demo_not_cancelled by simp_all
  from CancelRun_run [OF demo_sv0_init demo_reach(5) r(1) this] obtain out sc
    where "CancelRun (sv_sched demo_sv5) (r_id r) = (Inr out, sc)" .
  with CancelRun_idempotent [OF demo_sv0_init demo_reach(5) r(1) _ this] r(2,3) show ?thesis by auto
qed

end
