(* ===== verification/Monitor.thy ===== *)
theory Monitor
  imports Cancel
begin

text \<open>
  The lease monitor (scheduler/monitor.go): what one pass does to every job and runner row, and
  that it cannot fail in a reachable state.
\<close>


section \<open>Rows\<close>

text \<open>A running job whose lease ran out, once the grace period after the start of the server is over.\<close>

definition lost :: "int \<Rightarrow> int \<Rightarrow> Job \<Rightarrow> bool" where
  "lost graceUntil now j \<longleftrightarrow> graceUntil \<le> now \<and> j_state j = JobRunning \<and> j_lease_expires_at j \<noteq> None \<and>
     null_int (j_lease_expires_at j) < now"

definition again_allowed :: "Job \<Rightarrow> bool" where
  "again_allowed j \<longleftrightarrow> j_attempt j < j_max_attempts j \<and> null_int (j_cancel_requested_at j) = 0"

definition lost_row :: "int \<Rightarrow> Job \<Rightarrow> Job" where
  "lost_row n j = (if again_allowed j then requeue_row (lease_message j) n j
     else finish_row JobFailed (Some FailureLostRunner) None (lease_message j) n j)"

text \<open>A running job past its timeout and the grace of the backstop, not yet asked to stop.\<close>

definition overdue :: "int \<Rightarrow> int \<Rightarrow> Job \<Rightarrow> bool" where
  "overdue grace now j \<longleftrightarrow> j_state j = JobRunning \<and> j_cancel_requested_at j = None \<and> null_int (j_started_at j) \<noteq> 0 \<and>
     (case j_spec j of None \<Rightarrow> False | Some spec \<Rightarrow> 0 < pj_timeout spec \<and>
        null_int (j_started_at j) + milliseconds (pj_timeout spec) + grace < now)"

text \<open>A row nobody asked for: unchanged, or a pending job of one of the runs \<open>RS\<close> that \<open>advance\<close> moved.\<close>

definition drift :: "string set \<Rightarrow> Job \<Rightarrow> Job \<Rightarrow> bool" where
  "drift RS j j' \<longleftrightarrow> j' = j \<or> j_run_id j \<in> RS \<and> j_state j = JobPending \<and> j_id j' = j_id j \<and> j_run_id j' = j_run_id j \<and>
     j_state j' \<in> {JobPending, JobQueued, JobSkipped}"

lemma drift_trans: "drift RS a b \<Longrightarrow> drift RS b c \<Longrightarrow> drift RS a c"
  by (auto simp: drift_def)

lemma drift_mono: "drift RS a b \<Longrightarrow> RS \<subseteq> RS' \<Longrightarrow> drift RS' a b"
  by (auto simp: drift_def)

lemma drift_id: "drift RS a b \<Longrightarrow> j_id b = j_id a" "drift RS a b \<Longrightarrow> j_state a \<noteq> JobPending \<Longrightarrow> b = a"
  "drift RS a b \<Longrightarrow> j_state b = JobRunning \<Longrightarrow> b = a"
  by (auto simp: drift_def)

lemma lost_row_fields:
  "j_id (lost_row n j) = j_id j" "j_run_id (lost_row n j) = j_run_id j" "j_state (lost_row n j) \<in> {JobQueued, JobFailed}"
  by (simp_all add: lost_row_def row_simps)

lemma lost_row_drift: "drift RS (lost_row n j) c \<Longrightarrow> c = lost_row n j"
  using lost_row_fields(3) [of n j] drift_id(2) by fastforce

definition lost_report :: "Job list \<Rightarrow> TickReport \<Rightarrow> TickReport" where
  "lost_report js rep = rep\<lparr>tk_requeued := tk_requeued rep @ map j_id (filter again_allowed js),
     tk_failed := tk_failed rep @ map j_id (filter (\<lambda>j. \<not> again_allowed j) js)\<rparr>"

lemma lost_report_Cons: "lost_report js (lost_report [j] rep) = lost_report (j # js) rep" "lost_report [] rep = rep"
  by (simp_all add: lost_report_def)

lemma advanced_drift:
  assumes "advanced R s s'" and "distinct (map j_id (t_jobs s))"
  shows "list_all2 (drift {R}) (t_jobs s) (t_jobs s')"
proof -
  have ev: "evolves s s'" using assms(1) by (simp add: advanced_def)
  have "map j_run_id (t_jobs s') = map j_run_id (t_jobs s)"
    using evolves_map [OF ev] by (metis job_steps_static)
  with advanced_rows [OF assms] show ?thesis
    unfolding list_all2_conv_all_nth drift_def by (metis insertI1 nth_map)
qed


section \<open>Expired leases\<close>

lemma expire_one_run:
  assumes inv: "store_inv s" and job: "job \<in> set (t_jobs s)" and running: "j_state job = JobRunning"
  shows "\<exists>tr' s'. expire_one now job (rep, tr) s = (Inr (lost_report [job] rep, tr'), s') \<and>
    list_all2 (\<lambda>j j'. if j = job then \<exists>n. j' = lost_row n job
      else drift (if again_allowed job then {} else {j_run_id job}) j j') (t_jobs s) (t_jobs s')"
proof -
  note dist = inv_distinct [OF inv]
  let ?P = "\<lambda>j. j_id j = j_id job \<and> j_state j = JobRunning \<and> j_attempt j = j_attempt job" and ?n = "clock s (reads s)"
  have rows: "list_all2 (\<lambda>j j'. if j = job then j' = lost_row ?n job else j' = j) (t_jobs s) (sql_update ?P f (t_jobs s))"
    if "f job = lost_row ?n job" for f
    by (rule one_row [OF dist job, where Q = "\<lambda>j'. j' = lost_row ?n job"]) (use running that in auto)
  show ?thesis
  proof (cases "again_allowed job")
    case True
    have "list_all2 (\<lambda>j j'. if j = job then \<exists>n. j' = lost_row n job else drift {} j j') (t_jobs s)
        (sql_update ?P (requeue_row (lease_message job) ?n) (t_jobs s))"
      by (rule list_all2_mono [OF rows]) (use True in \<open>auto simp: lost_row_def drift_def split: if_splits\<close>)
    with True inv_run_id [OF inv job] show ?thesis
      by (auto simp: expire_one_def lost_report_def again_allowed_def retryable_def RequeueJob_def tx_bind_run Now_def update_jobs_def event_run)
  next
    case False
    define m where "m = tx_bind (FinishJob (j_id job) (j_attempt job) JobFailed (Some FailureLostRunner) None (lease_message job))
      (\<lambda>_. event (j_run_id job) (j_id job) ''job.failed'' (lost_detail job))"
    obtain s1 where w: "m s = (Inr (), s1)"
      and s1: "t_jobs s1 = sql_update ?P (finish_row JobFailed (Some FailureLostRunner) None (lease_message job) ?n) (t_jobs s)"
      using inv_run_id [OF inv job]
      by (auto simp: m_def FinishJob_def tx_bind_run Now_def update_jobs_def event_run)
    have "keeps m" unfolding m_def by (intro keeps_bind keeps_FinishJob keeps_event) (simp add: verdict_ok_def)
    then have ev: "evolves s s1" using keepsD w by blast
    have "tx_within (touches {j_id job}) m" unfolding m_def by (intro touching_intros touching_writes touching_reads) simp_all
    then have ts: "touches {j_id job} s s1" using touching.withinD w by blast
    from running_run_open [OF inv job] running obtain run where run: "run \<in> set (t_runs s)"
      "r_id run = j_run_id job" "\<not> run_over (r_state run)" by auto
    define tr1 where "tr1 = tr_finished JobFailed (null_int (j_started_at job)) now tr"
    from inv_then_advance [OF inv ev ts _ run(1,3), of tr1] obtain tr' s2
      where adv: "advance (j_run_id job) tr1 s1 = (Inr tr', s2)" "advanced (j_run_id job) s1 s2"
      using one_job [OF inv job] run(2) by auto
    have first: "list_all2 (\<lambda>j j'. if j = job then j' = lost_row ?n job else j' = j) (t_jobs s) (t_jobs s1)"
      unfolding s1 by (rule rows) (use False in \<open>simp add: lost_row_def\<close>)
    have "list_all2 (drift {j_run_id job}) (t_jobs s1) (t_jobs s2)"
      using advanced_drift [OF adv(2)] evolves_ids [OF ev] dist by simp
    then have "list_all2 (\<lambda>j j'. if j = job then \<exists>n. j' = lost_row n job else drift {j_run_id job} j j') (t_jobs s) (t_jobs s2)"
      by (rule list_all2_trans [OF _ first, rotated])
        (auto dest: lost_row_drift split: if_splits)
    moreover have "expire_one now job (rep, tr) s = tx_bind m (\<lambda>_. tx_bind (advance (j_run_id job) tr1) (\<lambda>tr'.
        tx_return (rep\<lparr>tk_failed := tk_failed rep @ [j_id job]\<rparr>, tr'))) s"
      unfolding expire_one_def m_def tr1_def prod.case tx_bind_assoc using False by (auto simp: again_allowed_def)
    ultimately show ?thesis using False w adv(1) by (simp add: lost_report_def)
  qed
qed

lemma expire_fold_run:
  assumes "store_inv s" and "set js \<subseteq> set (t_jobs s)" and "distinct (map j_id js)" and "\<forall>j \<in> set js. j_state j = JobRunning"
  shows "\<exists>tr' s'. tx_fold (expire_one now) js (rep, tr) s = (Inr (lost_report js rep, tr'), s') \<and> store_inv s' \<and>
    list_all2 (\<lambda>j j'. if j \<in> set js then \<exists>n. j' = lost_row n j else drift (j_run_id ` {j \<in> set js. \<not> again_allowed j}) j j') (t_jobs s) (t_jobs s')"
  using assms
proof (induction js arbitrary: s rep tr)
  case Nil
  then show ?case by (auto simp: drift_def lost_report_Cons intro!: list.rel_refl_strong)
next
  case (Cons job js)
  let ?RS1 = "if again_allowed job then {} else {j_run_id job}" and ?RS2 = "j_run_id ` {j \<in> set js. \<not> again_allowed j}"
  let ?RS = "j_run_id ` {j \<in> set (job # js). \<not> again_allowed j}"
  have job: "job \<in> set (t_jobs s)" "j_state job = JobRunning" using Cons.prems(2,4) by auto
  from expire_one_run [OF Cons.prems(1) job, of now rep tr] obtain tr1 s1
    where one: "expire_one now job (rep, tr) s = (Inr (lost_report [job] rep, tr1), s1)"
      and rows1: "list_all2 (\<lambda>j j'. if j = job then \<exists>n. j' = lost_row n job else drift ?RS1 j j') (t_jobs s) (t_jobs s1)"
    by blast
  have inv1: "store_inv s1" by (rule expire_one_inv [OF Cons.prems(1) job one])
  have new: "job \<notin> set js" using Cons.prems(3) by auto
  have "j \<in> set (t_jobs s1)" if "j \<in> set js" for j
  proof -
    have "j \<noteq> job" and "j \<in> set (t_jobs s)" "j_state j = JobRunning" using that new Cons.prems(2,4) by auto
    with list_all2_in_left [OF rows1, of j] drift_id(2) [of ?RS1 j] show ?thesis by fastforce
  qed
  then have "set js \<subseteq> set (t_jobs s1)" by blast
  with Cons.IH [OF inv1, of "lost_report [job] rep" tr1] Cons.prems(3,4)
  obtain tr2 s2 where rest: "tx_fold (expire_one now) js (lost_report [job] rep, tr1) s1 = (Inr (lost_report (job # js) rep, tr2), s2)"
    and "store_inv s2"
    and rows2: "list_all2 (\<lambda>j j'. if j \<in> set js then \<exists>n. j' = lost_row n j else drift ?RS2 j j') (t_jobs s1) (t_jobs s2)"
    unfolding lost_report_Cons by auto
  have "list_all2 (\<lambda>j j'. if j \<in> set (job # js) then \<exists>n. j' = lost_row n j else drift ?RS j j') (t_jobs s) (t_jobs s2)"
  proof (rule list_all2_trans [OF _ rows1 rows2])
    fix a b c assume ab: "if a = job then \<exists>n. b = lost_row n job else drift ?RS1 a b"
      and bc: "if b \<in> set js then \<exists>n. c = lost_row n b else drift ?RS2 b c"
    have sub: "?RS1 \<subseteq> ?RS" "?RS2 \<subseteq> ?RS" by auto
    show "if a \<in> set (job # js) then \<exists>n. c = lost_row n a else drift ?RS a c"
    proof (cases "a = job")
      case True
      with ab obtain n where b: "b = lost_row n job" by auto
      have "b \<notin> set js" using Cons.prems(3) lost_row_fields(1) [of n job] b by (auto simp: image_iff)
      with bc b have "c = b" using lost_row_drift by auto
      with True b show ?thesis by auto
    next
      case False
      with ab have d: "drift ?RS1 a b" by simp
      have same: "a \<in> set js \<longleftrightarrow> b \<in> set js" "a \<in> set js \<Longrightarrow> b = a"
        using drift_id(2,3) [OF d] Cons.prems(4) by fastforce+
      show ?thesis
      proof (cases "a \<in> set js")
        case True
        with same bc show ?thesis by simp
      next
        case F: False
        with same bc have "drift ?RS2 b c" by simp
        with d have "drift ?RS a c" using drift_trans drift_mono sub by blast
        with F False show ?thesis by simp
      qed
    qed
  qed
  with one rest \<open>store_inv s2\<close> show ?case by auto
qed


section \<open>The timeout backstop\<close>

definition late_report :: "int \<Rightarrow> int \<Rightarrow> Job list \<Rightarrow> TickReport \<Rightarrow> TickReport" where
  "late_report grace now js rep = rep\<lparr>tk_timed_out := tk_timed_out rep @ map j_id (filter (overdue grace now) js)\<rparr>"

lemma late_report_Cons:
  "late_report g n js (late_report g n [j] rep) = late_report g n (j # js) rep" "late_report g n [] rep = rep"
  by (simp_all add: late_report_def)

lemma backstop_one_run:
  assumes "distinct (map j_id (t_jobs s))" and "k \<in> set (t_jobs s)" and "j_run_id k \<noteq> []" and "j_spec k \<noteq> None"
    and "j_state k = JobRunning" and "j_cancel_requested_at k = None"
  shows "\<exists>s'. backstop_one grace now k rep s = (Inr (late_report grace now [k] rep), s') \<and>
    list_all2 (\<lambda>j j'. if j = k \<and> overdue grace now k then \<exists>n. j' = request_cancel_row CancelReasonTimeout n k else j' = j)
      (t_jobs s) (t_jobs s')"
proof -
  obtain spec where spec: "j_spec k = Some spec" using assms(4) by blast
  show ?thesis
  proof (cases "overdue grace now k")
    case True
    let ?P = "\<lambda>j. j_id j = j_id k \<and> j_state j = JobRunning \<and> j_cancel_requested_at j = None" and ?n = "clock s (reads s)"
    have "list_all2 (\<lambda>j j'. if j = k then j' = request_cancel_row CancelReasonTimeout ?n k else j' = j) (t_jobs s)
        (sql_update ?P (request_cancel_row CancelReasonTimeout ?n) (t_jobs s))"
      by (rule one_row [OF assms(1,2), where Q = "\<lambda>j'. j' = request_cancel_row CancelReasonTimeout ?n k"]) (use assms in auto)
    then have rows: "list_all2 (\<lambda>j j'. if j = k \<and> overdue grace now k then \<exists>n. j' = request_cancel_row CancelReasonTimeout n k else j' = j)
        (t_jobs s) (sql_update ?P (request_cancel_row CancelReasonTimeout ?n) (t_jobs s))"
      by (rule list_all2_mono) (use True in \<open>auto split: if_splits\<close>)
    have "sql_affected ?P (t_jobs s) = 1"
      using sql_affected_keyed [OF assms(1,2) refl, of "\<lambda>j. j_state j = JobRunning \<and> j_cancel_requested_at j = None"] assms(5,6) by simp
    with True spec rows assms(3) show ?thesis
      by (auto simp: overdue_def late_report_def backstop_one_def jobSpec_def RequestJobCancel_def tx_bind_run Now_def update_jobs_def event_run)
  next
    case False
    with spec assms(5,6) show ?thesis
      by (auto simp: overdue_def late_report_def backstop_one_def jobSpec_def intro!: list.rel_refl_strong)
  qed
qed

lemma backstop_fold_run:
  assumes "distinct (map j_id (t_jobs s))" and "set js \<subseteq> set (t_jobs s)" and "distinct (map j_id js)"
    and "\<forall>j \<in> set js. j_run_id j \<noteq> [] \<and> j_spec j \<noteq> None \<and> j_state j = JobRunning \<and> j_cancel_requested_at j = None"
  shows "\<exists>s'. tx_fold (backstop_one grace now) js rep s = (Inr (late_report grace now js rep), s') \<and>
    list_all2 (\<lambda>j j'. if j \<in> set js \<and> overdue grace now j then \<exists>n. j' = request_cancel_row CancelReasonTimeout n j else j' = j)
      (t_jobs s) (t_jobs s')"
  using assms
proof (induction js arbitrary: s rep)
  case Nil
  then show ?case by (auto simp: late_report_Cons intro!: list.rel_refl_strong)
next
  case (Cons k ks)
  let ?req = "\<lambda>j j'. \<exists>n. j' = request_cancel_row CancelReasonTimeout n j"
  let ?rep = "late_report grace now [k] rep"
  from backstop_one_run [OF Cons.prems(1), of k grace now rep] Cons.prems(2,4) obtain s1
    where one: "backstop_one grace now k rep s = (Inr ?rep, s1)"
      and rows1: "list_all2 (\<lambda>j j'. if j = k \<and> overdue grace now k then ?req k j' else j' = j) (t_jobs s) (t_jobs s1)" by auto
  have "list_all2 (\<lambda>j j'. j_id j = j_id j') (t_jobs s) (t_jobs s1)"
    using rows1 by (rule list_all2_mono) (auto simp: row_simps split: if_splits)
  then have ids: "map j_id (t_jobs s1) = map j_id (t_jobs s)" by (induction rule: list_all2_induct) simp_all
  have new: "k \<notin> set ks" using Cons.prems(3) by auto
  have "j \<in> set (t_jobs s1)" if "j \<in> set ks" for j
  proof -
    have "j \<noteq> k" and "j \<in> set (t_jobs s)" using that new Cons.prems(2) by auto
    with list_all2_in_left [OF rows1, of j] show ?thesis by auto
  qed
  with Cons.IH [of s1 ?rep] Cons.prems ids obtain s2
    where rest: "tx_fold (backstop_one grace now) ks ?rep s1 =
        (Inr (late_report grace now (k # ks) rep), s2)"
      and rows2: "list_all2 (\<lambda>j j'. if j \<in> set ks \<and> overdue grace now j then ?req j j' else j' = j) (t_jobs s1) (t_jobs s2)"
    unfolding late_report_Cons by auto
  have "list_all2 (\<lambda>j j'. if j \<in> set (k # ks) \<and> overdue grace now j then ?req j j' else j' = j) (t_jobs s) (t_jobs s2)"
  proof (rule list_all2_trans [OF _ rows1 rows2])
    fix a b c assume ab: "if a = k \<and> overdue grace now k then ?req k b else b = a"
      and bc: "if b \<in> set ks \<and> overdue grace now b then ?req b c else c = b"
    have "b \<notin> set ks" if "a = k" using that ab Cons.prems(3) by (auto simp: image_iff row_simps split: if_splits)
    with ab bc show "if a \<in> set (k # ks) \<and> overdue grace now a then ?req a c else c = a" by (auto split: if_splits)
  qed
  with one rest show ?case by auto
qed


section \<open>Runners\<close>

text \<open>The first two parts of a pass leave the table of runners alone.\<close>

abbreviation runners_fixed :: "Runner list \<Rightarrow> 'a stx \<Rightarrow> bool" where
  "runners_fixed rs \<equiv> tx_always (\<lambda>s. t_runners s = rs)"

lemma fixed_prims:
  "runners_fixed rs Now" "runners_fixed rs (event R i t d)" "runners_fixed rs (update_jobs P f)" "runners_fixed rs (jobSpec j)"
  "runners_fixed rs (ListJobs R)" "runners_fixed rs (ListJobDeps R)" "runners_fixed rs (GetRun R)"
  "runners_fixed rs (SetRunState R a b)"
  by (auto simp: tx_always_def Now_def event_def AppendEvent_def update_jobs_def jobSpec_def ListJobs_def ListJobDeps_def
      GetRun_def SetRunState_def tx_bind_run Let_def split: option.splits)

lemma fixed_writes:
  "runners_fixed rs (RequeueJob i a m)" "runners_fixed rs (FinishJob i a fs k c m)" "runners_fixed rs (RequestJobCancel i why)"
  "runners_fixed rs (TransitionPendingJob i to)"
  unfolding RequeueJob_def FinishJob_def RequestJobCancel_def TransitionPendingJob_def
  by (intro tx_always_bind fixed_prims)+ (cases to; simp only: job_state.case tx_always_raise fixed_prims)

lemmas fixed_intros = tx_always_bind tx_always_if tx_always_fold tx_always_return tx_always_raise tx_always_get
  fixed_prims fixed_writes

lemma fixed_advance: "runners_fixed rs (advance R tr)"
proof -
  have pass: "runners_fixed rs (advance_pass R ns js m tr)" for R ns js m tr
    unfolding advance_pass_def advance_job_def advance_to_def
    by (intro tx_always_fold) (auto simp only: split: prod.splits intro!: fixed_intros)
  have "t_runners s = rs \<Longrightarrow> t_runners (snd (advance_loop R ns js m tr' s)) = rs" for ns js m tr' s
  proof (induction R ns js m tr' s rule: advance_loop.induct)
    case (1 r ns js m tr' s)
    obtain res s' where p: "advance_pass r ns js m tr' s = (res, s')" by fastforce
    have "t_runners s' = rs" using pass [of r ns js m tr'] 1(2) p unfolding tx_always_def by (metis snd_conv)
    with 1(1) p show ?case by (auto simp: advance_loop.simps [of r ns js m tr' s] split: sum.splits)
  qed
  then have "runners_fixed rs (advance_loop R ns js m tr')" for ns js m tr' by (rule tx_alwaysI)
  moreover have "runners_fixed rs (finalize_run R sts)" for sts
    unfolding finalize_run_def
    by (cases "final_loop sts RunSucceeded") (simp_all only: option.case tx_always_return, intro fixed_intros)
  ultimately show ?thesis unfolding advance_def
    by (intro tx_always_bind fixed_prims) (auto simp only: split: prod.splits intro!: tx_always_bind tx_always_return)
qed

lemma fixed_folds:
  "runners_fixed rs (tx_fold (expire_one now) js a)" "runners_fixed rs (tx_fold (backstop_one grace now) ks rep)"
  unfolding expire_one_def backstop_one_def
  by (auto simp only: split: prod.splits intro!: fixed_intros fixed_advance)

definition silenced :: "int \<Rightarrow> Runner \<Rightarrow> Runner" where
  "silenced before r = (if rn_state r = RunnerOnline \<and> rn_last_seen_at r < before then r\<lparr>rn_state := RunnerOffline\<rparr> else r)"

lemma offline_fold:
  "tx_fold (\<lambda>rid _. tx_modify (\<lambda>s. s\<lparr>t_runners := sql_update (\<lambda>r. rn_id r = rid \<and> rn_state r = RunnerOnline)
       (\<lambda>r. r\<lparr>rn_state := RunnerOffline\<rparr>) (t_runners s)\<rparr>)) ids () s =
   (Inr (), s\<lparr>t_runners := map (\<lambda>r. if rn_id r \<in> set ids \<and> rn_state r = RunnerOnline then r\<lparr>rn_state := RunnerOffline\<rparr> else r) (t_runners s)\<rparr>)"
  by (induction ids arbitrary: s) (auto simp: sql_update_def comp_def intro!: arg_cong [where f = "\<lambda>x. t_runners_update x _"])

lemma MarkRunnersOffline_run:
  assumes "distinct (map rn_id (t_runners s))"
  shows "MarkRunnersOffline before s = (Inr (sort (map rn_id (filter (\<lambda>r. silenced before r \<noteq> r) (t_runners s)))),
    s\<lparr>t_runners := map (silenced before) (t_runners s)\<rparr>)"
proof -
  let ?P = "\<lambda>r. rn_state r = RunnerOnline \<and> rn_last_seen_at r < before"
  have sel: "silenced before r \<noteq> r \<longleftrightarrow> ?P r" for r
    by (auto simp: silenced_def) (metis Runner.select_convs Runner.surjective Runner.update_convs runner_state.distinct(1))
  have "(rn_id r \<in> rn_id ` {q \<in> set (t_runners s). ?P q} \<and> rn_state r = RunnerOnline) = ?P r" if "r \<in> set (t_runners s)" for r
    using that distinct_keys_eq [OF assms] by blast
  then show ?thesis unfolding MarkRunnersOffline_def tx_bind_run tx_get_run prod.case sum.case offline_fold sel
    by (auto simp: silenced_def intro!: arg_cong [where f = "\<lambda>x. t_runners_update x _"])
qed


section \<open>The pass\<close>

lemma running_query:
  assumes "distinct (map j_id (t_jobs s))"
  shows "distinct (map j_id (sort_key f (filter P (t_jobs s))))" "set (sort_key f (filter P (t_jobs s))) = {j \<in> set (t_jobs s). P j}"
  using assms by (auto simp: distinct_map inj_on_def)

lemma tidy_expire_fold: "tidy (tx_fold (expire_one now) js a)"
  unfolding expire_one_def by (auto simp only: split: prod.splits intro!: tidy_intros tidy_advance)

text \<open>How the rows after the expired leases and after the backstop compose.\<close>

lemma pass_rows:
  assumes rows1: "list_all2 (\<lambda>j j'. if lost gu now j then \<exists>n. j' = lost_row n j else drift RS j j') js1 js2"
    and rows2: "list_all2 (\<lambda>j j'. if j \<in> ks \<and> overdue grace now j then \<exists>n. j' = request_cancel_row CancelReasonTimeout n j else j' = j) js2 js3"
    and ks: "ks = {j \<in> set js2. j_state j = JobRunning \<and> j_cancel_requested_at j = None}"
  shows "list_all2 (\<lambda>j j'. if lost gu now j then \<exists>n. j' = lost_row n j
      else if overdue grace now j then \<exists>n. j' = request_cancel_row CancelReasonTimeout n j else drift RS j j') js1 js3"
    and "{j \<in> ks. overdue grace now j} = {j \<in> set js1. \<not> lost gu now j \<and> overdue grace now j}"
proof -
  have cases: "b \<in> ks \<and> overdue grace now b \<longleftrightarrow> \<not> lost gu now a \<and> overdue grace now a" (is ?same)
    "\<not> lost gu now a \<Longrightarrow> overdue grace now a \<Longrightarrow> b = a" (is "_ \<Longrightarrow> _ \<Longrightarrow> ?eq")
    if "if lost gu now a then \<exists>n. b = lost_row n a else drift RS a b" and "b \<in> set js2" for a b
  proof -
    have lostb: "j_state b \<noteq> JobRunning" if "lost gu now a"
      using \<open>if lost gu now a then \<exists>n. b = lost_row n a else drift RS a b\<close> that by (auto simp: lost_row_def row_simps split: if_splits)
    have keep: "drift RS a b" if "\<not> lost gu now a"
      using \<open>if lost gu now a then \<exists>n. b = lost_row n a else drift RS a b\<close> that by simp
    show "\<not> lost gu now a \<Longrightarrow> overdue grace now a \<Longrightarrow> b = a" using keep drift_id(2) by (fastforce simp: overdue_def)
    then show ?same using lostb keep drift_id(3) that(2) unfolding ks by (auto simp: overdue_def)
  qed
  have len: "length js1 = length js3" "length js1 = length js2" using list_all2_lengthD [OF rows1] list_all2_lengthD [OF rows2] by simp_all
  show "list_all2 (\<lambda>j j'. if lost gu now j then \<exists>n. j' = lost_row n j
      else if overdue grace now j then \<exists>n. j' = request_cancel_row CancelReasonTimeout n j else drift RS j j') js1 js3"
  proof (rule list_all2_all_nthI [OF len(1)])
    fix i assume i: "i < length js1"
    let ?a = "js1 ! i" and ?b = "js2 ! i" and ?c = "js3 ! i"
    have ab: "if lost gu now ?a then \<exists>n. ?b = lost_row n ?a else drift RS ?a ?b"
      and bc: "if ?b \<in> ks \<and> overdue grace now ?b then \<exists>n. ?c = request_cancel_row CancelReasonTimeout n ?b else ?c = ?b"
      using rows1 rows2 i len(2) by (simp_all add: list_all2_conv_all_nth)
    from cases [OF ab] i len(2) ab bc
    show "if lost gu now ?a then \<exists>n. ?c = lost_row n ?a
      else if overdue grace now ?a then \<exists>n. ?c = request_cancel_row CancelReasonTimeout n ?a else drift RS ?a ?c"
      by (auto split: if_splits)
  qed
  show "{j \<in> ks. overdue grace now j} = {j \<in> set js1. \<not> lost gu now j \<and> overdue grace now j}"
  proof (intro equalityI subsetI)
    fix b assume b: "b \<in> {j \<in> ks. overdue grace now j}"
    then have "b \<in> set js2" by (simp add: ks)
    from list_all2_in_right [OF rows1 this] obtain a where a: "a \<in> set js1"
      "if lost gu now a then \<exists>n. b = lost_row n a else drift RS a b" by blast
    from cases [OF a(2) \<open>b \<in> set js2\<close>] a(1) b show "b \<in> {j \<in> set js1. \<not> lost gu now j \<and> overdue grace now j}" by auto
  next
    fix a assume a: "a \<in> {j \<in> set js1. \<not> lost gu now j \<and> overdue grace now j}"
    then obtain b where b: "b \<in> set js2" "if lost gu now a then \<exists>n. b = lost_row n a else drift RS a b"
      using list_all2_in_left [OF rows1] by blast
    from cases [OF b(2,1)] a show "a \<in> {j \<in> ks. overdue grace now j}" by auto
  qed
qed

lemma tick_tx_run:
  assumes inv: "store_inv s" and tab: "tables_ok s"
  defines "now \<equiv> clock s (reads s)"
  obtains rep tr n s' where "tick_tx gu grace off s = (Inr (rep, tr, n), s')"
    and "list_all2 (\<lambda>j j'. if lost gu now j then \<exists>n. j' = lost_row n j
      else if overdue grace now j then \<exists>n. j' = request_cancel_row CancelReasonTimeout n j
      else drift (j_run_id ` {j \<in> set (t_jobs s). lost gu now j \<and> \<not> again_allowed j}) j j') (t_jobs s) (t_jobs s')"
    and "t_runners s' = map (silenced (now - off)) (t_runners s)"
    and "set (tk_requeued rep) = j_id ` {j \<in> set (t_jobs s). lost gu now j \<and> again_allowed j}"
    and "set (tk_failed rep) = j_id ` {j \<in> set (t_jobs s). lost gu now j \<and> \<not> again_allowed j}"
    and "set (tk_timed_out rep) = j_id ` {j \<in> set (t_jobs s). \<not> lost gu now j \<and> overdue grace now j}"
    and "set (tk_runners_offline rep) = rn_id ` {r \<in> set (t_runners s). silenced (now - off) r \<noteq> r}"
proof -
  define s1 where "s1 = s\<lparr>reads := Suc (reads s)\<rparr>"
  have s1 [simp]: "t_jobs s1 = t_jobs s" "t_runners s1 = t_runners s" by (simp_all add: s1_def)
  define js where "js = (if gu \<le> now then sort_key j_lease_expires_at (filter (\<lambda>j. j_state j = JobRunning \<and>
    j_lease_expires_at j \<noteq> None \<and> null_int (j_lease_expires_at j) < now) (t_jobs s)) else [])"
  note dist = inv_distinct [OF inv]
  have js: "set js = {j \<in> set (t_jobs s). lost gu now j}" "distinct (map j_id js)"
    using running_query [OF dist] by (auto simp: js_def lost_def)
  have inv1: "store_inv s1" unfolding s1_def by (rule inv_calm [OF inv]) (simp_all add: calm_same_tables)
  have tab1: "tables_ok s1" using tab by (simp add: s1_def)
  have "set js \<subseteq> set (t_jobs s1)" "\<forall>j \<in> set js. j_state j = JobRunning" using js(1) by (auto simp: lost_def)
  from expire_fold_run [OF inv1 this(1) js(2) this(2), of now empty_report no_transitions] obtain tr s2
    where fold1: "tx_fold (expire_one now) js (empty_report, no_transitions) s1 = (Inr (lost_report js empty_report, tr), s2)"
      and inv2: "store_inv s2" and rows1: "list_all2 (\<lambda>j j'. if j \<in> set js then \<exists>n. j' = lost_row n j
        else drift (j_run_id ` {j \<in> set js. \<not> again_allowed j}) j j') (t_jobs s) (t_jobs s2)" by auto
  have tab2: "tables_ok s2" using tx_alwaysD [OF tidy_expire_fold tab1 fold1] .
  have rn2: "t_runners s2 = t_runners s" using tx_alwaysD [OF fixed_folds(1) s1(2) fold1] .
  define ks where "ks = sort_key j_started_at (filter (\<lambda>j. j_state j = JobRunning \<and> j_cancel_requested_at j = None) (t_jobs s2))"
  note dist2 = inv_distinct [OF inv2]
  have ks: "set ks = {j \<in> set (t_jobs s2). j_state j = JobRunning \<and> j_cancel_requested_at j = None}" "distinct (map j_id ks)"
    using running_query [OF dist2] by (auto simp: ks_def)
  have "\<forall>j \<in> set ks. j_run_id j \<noteq> [] \<and> j_spec j \<noteq> None \<and> j_state j = JobRunning \<and> j_cancel_requested_at j = None"
    using ks(1) inv_run_id [OF inv2] tab2 by (auto simp: tables_ok_def)
  from backstop_fold_run [OF dist2 _ ks(2) this, of grace now "lost_report js empty_report"] ks(1) obtain s3
    where fold2: "tx_fold (backstop_one grace now) ks (lost_report js empty_report) s2 =
        (Inr (late_report grace now ks (lost_report js empty_report)), s3)"
      and rows2: "list_all2 (\<lambda>j j'. if j \<in> set ks \<and> overdue grace now j
        then \<exists>n. j' = request_cancel_row CancelReasonTimeout n j else j' = j) (t_jobs s2) (t_jobs s3)" by auto
  have rn3: "t_runners s3 = t_runners s" using tx_alwaysD [OF fixed_folds(2) rn2 fold2] .
  have "distinct (map rn_id (t_runners s3))" using tab rn3 by (simp add: tables_ok_def)
  note off = MarkRunnersOffline_run [OF this, of "now - off", unfolded rn3]
  let ?ids = "sort (map rn_id (filter (\<lambda>r. silenced (now - off) r \<noteq> r) (t_runners s)))"
  let ?rep = "(late_report grace now ks (lost_report js empty_report))\<lparr>tk_runners_offline := ?ids\<rparr>"
  let ?s' = "s3\<lparr>t_runners := map (silenced (now - off)) (t_runners s)\<rparr>"
  define k where "k = (\<lambda>(rep, tr). tx_bind ListRunningJobs (\<lambda>running.
     tx_bind (tx_fold (backstop_one grace now) running rep) (\<lambda>rep'.
     tx_bind (MarkRunnersOffline (now - off)) (\<lambda>offlineIDs.
     tx_return (rep'\<lparr>tk_runners_offline := offlineIDs\<rparr>, tr :: transitions, length js)))))"
  have "tick_tx gu grace off s = tx_bind (tx_fold (expire_one now) js (empty_report, no_transitions)) k s1"
    by (simp add: tick_tx_def Now_def ListExpiredLeases_def s1_def [symmetric] now_def [symmetric] js_def k_def)
  moreover have "k (lost_report js empty_report, tr) s2 = (Inr (?rep, tr, length js), ?s')"
    using fold2 off by (simp add: k_def ListRunningJobs_def ks_def [symmetric])
  ultimately have run: "tick_tx gu grace off s = (Inr (?rep, tr, length js), ?s')" using fold1 by simp
  have RS: "{j \<in> set js. \<not> again_allowed j} = {j \<in> set (t_jobs s). lost gu now j \<and> \<not> again_allowed j}" using js(1) by auto
  have "list_all2 (\<lambda>j j'. if lost gu now j then \<exists>n. j' = lost_row n j
      else drift (j_run_id ` {j \<in> set (t_jobs s). lost gu now j \<and> \<not> again_allowed j}) j j') (t_jobs s) (t_jobs s2)"
    using rows1 unfolding RS by (rule list.rel_mono_strong) (simp add: js(1))
  note rows = pass_rows [OF this rows2 ks(1)]
  show thesis
  proof (rule that [OF run])
    show "set (tk_timed_out ?rep) = j_id ` {j \<in> set (t_jobs s). \<not> lost gu now j \<and> overdue grace now j}"
      using rows(2) by (simp add: late_report_def lost_report_def empty_report_def)
  qed (use rows(1) js(1) in \<open>auto simp: late_report_def lost_report_def empty_report_def\<close>)
qed


text \<open>A job that became failed cannot release one that waited: what a pass moves out of pending is skipped.\<close>

lemma pending_not_queued:
  assumes inv: "store_inv s" and inv': "store_inv s'" and ev: "evolves s s'" and j: "j \<in> set (t_jobs s)" "j_state j = JobPending"
    and rows: "list_all2 (\<lambda>j j'. \<not> isTerminal (j_state j) \<longrightarrow> j_state j' \<noteq> JobSucceeded) (t_jobs s) (t_jobs s')"
    and j': "j' \<in> set (t_jobs s')" "j_id j' = j_id j"
  shows "j_state j' \<noteq> JobQueued"
proof
  assume "j_state j' = JobQueued"
  then have "\<forall>n \<in> job_needs s' (j_id j'). job_states s' n = Some JobSucceeded"
    using inv' j'(1) by (simp add: store_inv_def ready_def released_def)
  then have needs: "\<forall>n \<in> job_needs s (j_id j). job_states s' n = Some JobSucceeded" using evolves_needs [OF ev] j'(2) by simp
  obtain run where run: "run \<in> set (t_runs s)" "r_id run = j_run_id j" using running_run_open [OF inv j(1)] j(2) by auto
  then have "j \<in> set (run_jobs (r_id run) s)" using j(1) by (simp add: in_run_jobs)
  from inv_view_job [OF inv run(1) this j(2)] obtain k where k: "k \<in> set (t_jobs s)" "j_id k \<in> job_needs s (j_id j)" "\<not> isTerminal (j_state k)"
    by (auto simp: in_run_jobs)
  have ids: "j_id (t_jobs s' ! i) = j_id (t_jobs s ! i)" if "i < length (t_jobs s)" for i
    using evolves_ids [OF ev] that by (metis length_map nth_map)
  have "list_all2 (\<lambda>a b. j_id b = j_id a \<and> (\<not> isTerminal (j_state a) \<longrightarrow> j_state b \<noteq> JobSucceeded)) (t_jobs s) (t_jobs s')"
    using rows ids by (simp add: list_all2_conv_all_nth)
  from list_all2_in_left [OF this k(1)] k(3) obtain k' where "k' \<in> set (t_jobs s')" "j_id k' = j_id k" "j_state k' \<noteq> JobSucceeded" by auto
  with job_states_at [OF inv_distinct [OF inv'], of k'] needs k(2) show False by auto
qed



end
