(* ===== verification/Logship.thy ===== *)
theory Logship
  imports Artifact_Store
begin

text \<open>
  internal/logship: the runner's log shipper. The buffer operations are functions on the
  shipper's state, each atomic because it runs under the mutex; one iteration of the flush loop is split where
  the mutex is released, around the call of the sink. \<open>ship_step\<close> interleaves writes with
  the flush loop and a sink that may answer, reject, fail after having stored the batch, or
  report the attempt stale.
\<close>


section \<open>Configuration and state\<close>

text \<open>Sizes in bytes, delays in nanoseconds; zero or less takes the default.\<close>

record ship_config =
  FlushInterval :: int
  FlushBytes :: int
  MaxPostBytes :: int
  MaxBuffered :: int
  Backoff :: int

definition ship_defaults :: ship_config where
  "ship_defaults = \<lparr>FlushInterval = 250 * 1000000, FlushBytes = 64 * 2 ^ 10, MaxPostBytes = 512 * 2 ^ 10,
     MaxBuffered = 16 * 2 ^ 20, Backoff = 200 * 1000000\<rparr>"

definition maxBackoff :: int where
  "maxBackoff = 10 * 1000000000"

record Chunk =
  c_seq :: int
  c_data :: "char list"

text \<open>The permanent error kept for \<open>Close\<close> is the message of the rejected batch.\<close>

record Shipper =
  sh_cfg :: ship_config
  sh_cur :: "char list"
  sh_pending :: "Chunk list"
  sh_buffered :: int
  sh_dropped :: int
  sh_nextSeq :: int
  sh_closed :: bool
  sh_stale :: bool
  sh_err :: "string option"
  sh_kick :: bool

definition ship_New :: "ship_config \<Rightarrow> Shipper" where
  "ship_New cfg =
     (let flush = (if FlushBytes cfg \<le> 0 then FlushBytes ship_defaults else FlushBytes cfg) in
      \<lparr>sh_cfg = \<lparr>
         FlushInterval = (if FlushInterval cfg \<le> 0 then FlushInterval ship_defaults else FlushInterval cfg),
         FlushBytes = flush,
         MaxPostBytes = (if MaxPostBytes cfg < flush then max (MaxPostBytes ship_defaults) flush else MaxPostBytes cfg),
         MaxBuffered = (if MaxBuffered cfg \<le> 0 then MaxBuffered ship_defaults else MaxBuffered cfg),
         Backoff = min (if Backoff cfg \<le> 0 then Backoff ship_defaults else Backoff cfg) maxBackoff\<rparr>,
       sh_cur = [], sh_pending = [], sh_buffered = 0, sh_dropped = 0, sh_nextSeq = 1, sh_closed = False,
       sh_stale = False, sh_err = None, sh_kick = False\<rparr>)"


section \<open>The buffer\<close>

definition seal :: "nat \<Rightarrow> Shipper \<Rightarrow> Shipper" where
  "seal n s = s\<lparr>sh_cur := drop n (sh_cur s),
     sh_pending := sh_pending s @ [\<lparr>c_seq = sh_nextSeq s, c_data = take n (sh_cur s)\<rparr>],
     sh_nextSeq := sh_nextSeq s + 1\<rparr>"

text \<open>The loop of \<open>append\<close>; \<open>New\<close> leaves no chunk size at zero or below, where it would not end.\<close>

function seal_full :: "Shipper \<Rightarrow> Shipper" where
  "seal_full s =
     (if 0 < FlushBytes (sh_cfg s) \<and> FlushBytes (sh_cfg s) \<le> int (length (sh_cur s))
      then seal_full (seal (nat (FlushBytes (sh_cfg s))) s) else s)"
  by auto
termination by (relation "measure (\<lambda>s. length (sh_cur s))") (auto simp: seal_def)

definition ship_append :: "char list \<Rightarrow> Shipper \<Rightarrow> Shipper" where
  "ship_append p s =
     (let s1 = s\<lparr>sh_cur := sh_cur s @ p, sh_buffered := sh_buffered s + int (length p)\<rparr>; s2 = seal_full s1 in
      if FlushBytes (sh_cfg s) \<le> int (length (sh_cur s1)) then s2\<lparr>sh_kick := True\<rparr> else s2)"

definition drop_marker :: "int \<Rightarrow> char list" where
  "drop_marker n = ''[quarry] log shipper dropped '' @ Itoa n @ '' bytes'' @ [CHR 0x0A]"

definition Write :: "char list \<Rightarrow> Shipper \<Rightarrow> int \<times> Shipper" where
  "Write p s =
     (if sh_closed s \<or> sh_stale s then (int (length p), s)
      else
        let room = MaxBuffered (sh_cfg s) - sh_buffered s;
            s1 = (if 0 < sh_dropped s \<and> 0 < room then (ship_append (drop_marker (sh_dropped s)) s)\<lparr>sh_dropped := 0\<rparr> else s)
        in if room \<le> 0 then (int (length p), s1\<lparr>sh_dropped := sh_dropped s1 + int (length p)\<rparr>)
           else if room < int (length p)
           then (room, ship_append (take (nat room) p) (s1\<lparr>sh_dropped := sh_dropped s1 + (int (length p) - room)\<rparr>))
           else (int (length p), ship_append p s1))"

fun batch_len :: "int \<Rightarrow> nat \<Rightarrow> int \<Rightarrow> Chunk list \<Rightarrow> nat" where
  "batch_len maxPost n sz [] = n"
| "batch_len maxPost n sz (c # cs) =
     (if n = 0 \<or> sz + int (length (c_data c)) \<le> maxPost
      then batch_len maxPost (n + 1) (sz + int (length (c_data c))) cs else n)"

definition ship_take :: "Shipper \<Rightarrow> Chunk list \<times> Shipper" where
  "ship_take s =
     (let s1 = (if sh_cur s \<noteq> [] then seal (length (sh_cur s)) s else s) in
      (take (batch_len (MaxPostBytes (sh_cfg s)) 0 0 (sh_pending s1)) (sh_pending s1), s1))"

definition ack :: "nat \<Rightarrow> Shipper \<Rightarrow> Shipper" where
  "ack n s = s\<lparr>sh_buffered := sh_buffered s - sum_list (map (int \<circ> length \<circ> c_data) (take n (sh_pending s))),
     sh_pending := drop n (sh_pending s)\<rparr>"

definition markStale :: "Shipper \<Rightarrow> Shipper" where
  "markStale s = s\<lparr>sh_stale := True, sh_cur := [], sh_pending := [], sh_buffered := 0, sh_dropped := 0\<rparr>"

definition setErr :: "string \<Rightarrow> Shipper \<Rightarrow> Shipper" where
  "setErr e s = (case sh_err s of None \<Rightarrow> s\<lparr>sh_err := Some e\<rparr> | Some _ \<Rightarrow> s)"


section \<open>The flush loop\<close>

text \<open>What a call of the sink ends in; \<open>SinkCtx\<close> is a failure with the context done.\<close>

datatype answer = SinkOK | SinkStale | SinkRejected string | SinkCtx | SinkTransient

definition drain_answer :: "answer \<Rightarrow> Chunk list \<Rightarrow> Shipper \<Rightarrow> Shipper" where
  "drain_answer a batch s = (case a of
     SinkOK \<Rightarrow> ack (length batch) s
   | SinkStale \<Rightarrow> markStale s
   | SinkRejected e \<Rightarrow> setErr e (ack (length batch) s)
   | SinkCtx \<Rightarrow> s
   | SinkTransient \<Rightarrow> s)"

definition next_backoff :: "int \<Rightarrow> int" where
  "next_backoff b = (if maxBackoff < 2 * b then maxBackoff else 2 * b)"

text \<open>
  \<open>drain\<close> with the answers of the successive calls; it gives the batches it sent with the
  waits after them, and ends when the answers do (the context ended, or \<open>Close\<close> took over).
\<close>

fun drain :: "int \<Rightarrow> answer list \<Rightarrow> Shipper \<Rightarrow> (Chunk list list \<times> int list) \<times> Shipper" where
  "drain backoff [] s = (([], []), s)"
| "drain backoff (a # as) s =
     (case ship_take s of (batch, s1) \<Rightarrow>
        if batch = [] then (([], []), s1)
        else
          let s2 = drain_answer a batch s1 in
          (case a of
             SinkOK \<Rightarrow> (case drain (Backoff (sh_cfg s)) as s2 of ((bs, ws), s') \<Rightarrow> ((batch # bs, ws), s'))
           | SinkRejected _ \<Rightarrow> (case drain backoff as s2 of ((bs, ws), s') \<Rightarrow> ((batch # bs, ws), s'))
           | SinkTransient \<Rightarrow>
               (case drain (next_backoff backoff) as s2 of ((bs, ws), s') \<Rightarrow> ((batch # bs, backoff # ws), s'))
           | _ \<Rightarrow> (([batch], []), s2)))"

datatype close_result = CloseOK | CloseStale | CloseRejected string | CloseUnsent int int | CloseDropped int

definition ship_close :: "Shipper \<Rightarrow> Shipper" where
  "ship_close s = s\<lparr>sh_closed := True\<rparr>"

definition close_error :: "Shipper \<Rightarrow> close_result" where
  "close_error s =
     (if sh_stale s then CloseStale
      else case sh_err s of Some e \<Rightarrow> CloseRejected e
      | None \<Rightarrow> if 0 < sh_buffered s then CloseUnsent (sh_buffered s) (sh_dropped s)
          else if 0 < sh_dropped s then CloseDropped (sh_dropped s) else CloseOK)"


section \<open>The buffer's invariant\<close>

declare seal_full.simps [simp del]

text \<open>What is held and not yet acknowledged, in order.\<close>

definition unsent :: "Shipper \<Rightarrow> char list" where
  "unsent s = concat (map c_data (sh_pending s)) @ sh_cur s"

definition cfg_ok :: "ship_config \<Rightarrow> bool" where
  "cfg_ok c \<longleftrightarrow> 0 < FlushBytes c \<and> FlushBytes c \<le> MaxPostBytes c \<and> 0 < MaxBuffered c \<and>
     0 < Backoff c \<and> Backoff c \<le> maxBackoff"

definition ship_ok :: "Shipper \<Rightarrow> bool" where
  "ship_ok s \<longleftrightarrow> cfg_ok (sh_cfg s) \<and> sh_buffered s = int (length (unsent s)) \<and> 0 \<le> sh_dropped s \<and>
     map c_seq (sh_pending s) = [sh_nextSeq s - int (length (sh_pending s))..sh_nextSeq s - 1] \<and>
     (\<forall>c \<in> set (sh_pending s). c_data c \<noteq> [] \<and> int (length (c_data c)) \<le> FlushBytes (sh_cfg s)) \<and>
     int (length (sh_cur s)) < FlushBytes (sh_cfg s)"

lemma ship_New_ok: "ship_ok (ship_New cfg)"
  by (auto simp: ship_ok_def ship_New_def cfg_ok_def unsent_def ship_defaults_def maxBackoff_def Let_def)

lemma upto_snoc: "a \<le> b \<Longrightarrow> [a..b] = [a..b - 1] @ [b]" for a b :: int
  by (rule upto_rec2)

lemma upto_drop: "drop n [a..b] = [a + int n..b]" for a b :: int
proof (induction n arbitrary: a)
  case (Suc n)
  then show ?case by (cases "a \<le> b") (simp_all add: upto_rec1 [of a b] add.assoc)
qed simp

text \<open>Sealing moves bytes, it loses none and keeps the order; the part of the invariant it needs.\<close>

definition sealing :: "Shipper \<Rightarrow> bool" where
  "sealing s \<longleftrightarrow> cfg_ok (sh_cfg s) \<and> sh_buffered s = int (length (unsent s)) \<and> 0 \<le> sh_dropped s \<and>
     map c_seq (sh_pending s) = [sh_nextSeq s - int (length (sh_pending s))..sh_nextSeq s - 1] \<and>
     (\<forall>c \<in> set (sh_pending s). c_data c \<noteq> [] \<and> int (length (c_data c)) \<le> FlushBytes (sh_cfg s))"

lemma ship_ok_sealing: "ship_ok s \<longleftrightarrow> sealing s \<and> int (length (sh_cur s)) < FlushBytes (sh_cfg s)"
  by (auto simp: ship_ok_def sealing_def)

lemma unsent_seal [simp]: "unsent (seal n s) = unsent s"
  by (simp add: unsent_def seal_def)

lemma seal_fields [simp]:
  "sh_cfg (seal n s) = sh_cfg s" "sh_dropped (seal n s) = sh_dropped s" "sh_buffered (seal n s) = sh_buffered s"
  "sh_closed (seal n s) = sh_closed s" "sh_stale (seal n s) = sh_stale s" "sh_err (seal n s) = sh_err s"
  by (simp_all add: seal_def)

text \<open>The number of the first pending chunk; sealing leaves it alone.\<close>

definition first_seq :: "Shipper \<Rightarrow> int" where
  "first_seq s = sh_nextSeq s - int (length (sh_pending s))"

lemma first_seq_seal [simp]: "first_seq (seal n s) = first_seq s"
  by (simp add: first_seq_def seal_def)

lemma first_seq_simps [simp]:
  "first_seq (s\<lparr>sh_kick := k\<rparr>) = first_seq s" "first_seq (s\<lparr>sh_dropped := d\<rparr>) = first_seq s"
  "first_seq (s\<lparr>sh_cur := c\<rparr>) = first_seq s" "first_seq (s\<lparr>sh_buffered := b\<rparr>) = first_seq s"
  by (simp_all add: first_seq_def)

lemma seal_sealing:
  assumes "sealing s" and "0 < n" and "n \<le> length (sh_cur s)" and "int n \<le> FlushBytes (sh_cfg s)"
  shows "sealing (seal n s)"
proof -
  have "[sh_nextSeq s - int (length (sh_pending s))..sh_nextSeq s] =
      [sh_nextSeq s - int (length (sh_pending s))..sh_nextSeq s - 1] @ [sh_nextSeq s]" by (rule upto_snoc) simp
  moreover have "take n (sh_cur s) \<noteq> []" using assms(2,3) by (cases "sh_cur s") auto
  ultimately show ?thesis using assms by (auto simp: sealing_def seal_def unsent_def)
qed

lemma seal_full_facts:
  assumes "sealing s"
  shows "ship_ok (seal_full s) \<and> unsent (seal_full s) = unsent s \<and> sh_cfg (seal_full s) = sh_cfg s \<and>
    sh_dropped (seal_full s) = sh_dropped s \<and> sh_closed (seal_full s) = sh_closed s \<and>
    sh_stale (seal_full s) = sh_stale s \<and> sh_err (seal_full s) = sh_err s \<and>
    first_seq (seal_full s) = first_seq s \<and> (\<exists>cs. sh_pending (seal_full s) = sh_pending s @ cs)"
  using assms
proof (induction s rule: seal_full.induct)
  case (1 s)
  show ?case
  proof (cases "0 < FlushBytes (sh_cfg s) \<and> FlushBytes (sh_cfg s) \<le> int (length (sh_cur s))")
    case True
    then have "sealing (seal (nat (FlushBytes (sh_cfg s))) s)" by (intro seal_sealing [OF 1(2)]) auto
    note ih = 1(1) [OF True this]
    have "seal_full s = seal_full (seal (nat (FlushBytes (sh_cfg s))) s)"
      using True seal_full.simps [of s] by (simp only: if_True simp_thms)
    moreover have "\<exists>cs. sh_pending (seal (nat (FlushBytes (sh_cfg s))) s) = sh_pending s @ cs" by (simp add: seal_def)
    ultimately show ?thesis using ih by (metis append_assoc seal_fields unsent_seal first_seq_seal)
  next
    case False
    then have "seal_full s = s" using seal_full.simps [of s] by (simp only: if_False)
    moreover have "0 < FlushBytes (sh_cfg s)" using 1(2) by (simp add: sealing_def cfg_ok_def)
    ultimately show ?thesis using 1(2) False by (simp add: ship_ok_sealing)
  qed
qed

lemma append_facts:
  assumes "ship_ok s"
  shows "ship_ok (ship_append p s)" and "unsent (ship_append p s) = unsent s @ p" and "sh_cfg (ship_append p s) = sh_cfg s"
    and "sh_dropped (ship_append p s) = sh_dropped s" and "sh_closed (ship_append p s) = sh_closed s"
    and "sh_stale (ship_append p s) = sh_stale s" and "sh_err (ship_append p s) = sh_err s"
    and "first_seq (ship_append p s) = first_seq s" and "\<exists>cs. sh_pending (ship_append p s) = sh_pending s @ cs"
proof -
  let ?s = "s\<lparr>sh_cur := sh_cur s @ p, sh_buffered := sh_buffered s + int (length p)\<rparr>"
  have un: "unsent ?s = unsent s @ p" by (simp add: unsent_def)
  have "sealing ?s" using assms un by (simp add: ship_ok_def sealing_def)
  note f = seal_full_facts [OF this]
  have kick: "ship_ok (x\<lparr>sh_kick := b\<rparr>) = ship_ok x" "unsent (x\<lparr>sh_kick := b\<rparr>) = unsent x" for x b
    by (simp_all add: ship_ok_def unsent_def)
  show "ship_ok (ship_append p s)" "unsent (ship_append p s) = unsent s @ p" "sh_cfg (ship_append p s) = sh_cfg s"
    "sh_dropped (ship_append p s) = sh_dropped s" "sh_closed (ship_append p s) = sh_closed s"
    "sh_stale (ship_append p s) = sh_stale s" "sh_err (ship_append p s) = sh_err s"
    "first_seq (ship_append p s) = first_seq s" "\<exists>cs. sh_pending (ship_append p s) = sh_pending s @ cs"
    using f un by (simp_all add: ship_append_def Let_def kick)
qed

text \<open>The part of \<open>p\<close> that enters the stream, after the marker of an earlier loss.\<close>

definition accepted :: "char list \<Rightarrow> Shipper \<Rightarrow> char list" where
  "accepted p s =
     (if sh_closed s \<or> sh_stale s then []
      else let room = MaxBuffered (sh_cfg s) - sh_buffered s in
        (if 0 < sh_dropped s \<and> 0 < room then drop_marker (sh_dropped s) else []) @ take (nat room) p)"

lemma ship_ok_dropped: "ship_ok s \<Longrightarrow> 0 \<le> n \<Longrightarrow> ship_ok (s\<lparr>sh_dropped := n\<rparr>)"
  by (simp add: ship_ok_def unsent_def)

lemma unsent_dropped [simp]: "unsent (s\<lparr>sh_dropped := n\<rparr>) = unsent s"
  by (simp add: unsent_def)

lemma Write_facts:
  assumes "ship_ok s"
  shows "ship_ok (snd (Write p s))" and "unsent (snd (Write p s)) = unsent s @ accepted p s"
    and "sh_cfg (snd (Write p s)) = sh_cfg s" and "sh_stale (snd (Write p s)) = sh_stale s"
    and "sh_err (snd (Write p s)) = sh_err s" and "first_seq (snd (Write p s)) = first_seq s"
    and "\<exists>cs. sh_pending (snd (Write p s)) = sh_pending s @ cs"
proof -
  define room where "room = MaxBuffered (sh_cfg s) - sh_buffered s"
  define s1 where "s1 = (if 0 < sh_dropped s \<and> 0 < room then (ship_append (drop_marker (sh_dropped s)) s)\<lparr>sh_dropped := 0\<rparr> else s)"
  note m = append_facts [OF assms, of "drop_marker (sh_dropped s)"]
  have ok1: "ship_ok s1" using assms m(1) by (simp add: s1_def ship_ok_dropped)
  have un1: "unsent s1 = unsent s @ (if 0 < sh_dropped s \<and> 0 < room then drop_marker (sh_dropped s) else [])"
    using m(2) by (simp add: s1_def)
  have rest1: "sh_cfg s1 = sh_cfg s" "sh_stale s1 = sh_stale s" "sh_err s1 = sh_err s" "first_seq s1 = first_seq s"
    "\<exists>cs. sh_pending s1 = sh_pending s @ cs"
    using m by (simp_all add: s1_def)
  have d1: "0 \<le> sh_dropped s1" using ok1 by (simp add: ship_ok_def)
  show "ship_ok (snd (Write p s))" "unsent (snd (Write p s)) = unsent s @ accepted p s"
    "sh_cfg (snd (Write p s)) = sh_cfg s" "sh_stale (snd (Write p s)) = sh_stale s"
    "sh_err (snd (Write p s)) = sh_err s" "first_seq (snd (Write p s)) = first_seq s" "\<exists>cs. sh_pending (snd (Write p s)) = sh_pending s @ cs"
  proof (atomize (full), goal_cases)
    case 1
    consider (off) "sh_closed s \<or> sh_stale s" | (full) "\<not> (sh_closed s \<or> sh_stale s)" "room \<le> 0"
      | (cut) "\<not> (sh_closed s \<or> sh_stale s)" "0 < room" "room < int (length p)"
      | (fits) "\<not> (sh_closed s \<or> sh_stale s)" "0 < room" "int (length p) \<le> room" by linarith
    then show ?case
    proof cases
      case off
      then show ?thesis using assms by (simp add: Write_def accepted_def)
    next
      case full
      then have "Write p s = (int (length p), s1\<lparr>sh_dropped := sh_dropped s1 + int (length p)\<rparr>)"
        unfolding Write_def Let_def s1_def room_def by simp
      with full ok1 un1 rest1 d1 show ?thesis
        by (simp add: accepted_def Let_def room_def [symmetric] ship_ok_dropped)
    next
      case cut
      let ?s2 = "s1\<lparr>sh_dropped := sh_dropped s1 + (int (length p) - room)\<rparr>"
      have "ship_ok ?s2" by (rule ship_ok_dropped [OF ok1]) (use cut d1 in simp)
      note f = append_facts [OF this, of "take (nat room) p"]
      have "Write p s = (room, ship_append (take (nat room) p) ?s2)"
        using cut unfolding Write_def Let_def s1_def room_def by simp
      with cut f un1 rest1 show ?thesis by (auto simp: accepted_def Let_def room_def [symmetric])
    next
      case fits
      note f = append_facts [OF ok1, of p]
      have "Write p s = (int (length p), ship_append p s1)"
        using fits unfolding Write_def Let_def s1_def room_def by simp
      with fits f un1 rest1 show ?thesis by (auto simp: accepted_def Let_def room_def [symmetric])
    qed
  qed
qed

lemma ship_take_facts:
  assumes "ship_ok s" and "ship_take s = (batch, s')"
  shows "ship_ok s'" and "unsent s' = unsent s" and "sh_cfg s' = sh_cfg s" and "sh_stale s' = sh_stale s"
    and "sh_err s' = sh_err s" and "first_seq s' = first_seq s" and "\<exists>cs. sh_pending s' = sh_pending s @ cs" and "prefix batch (sh_pending s')"
    and "batch = [] \<longleftrightarrow> unsent s = []" and "sh_cur s' = []"
proof -
  let ?s1 = "if sh_cur s \<noteq> [] then seal (length (sh_cur s)) s else s"
  have s': "s' = ?s1" and b: "batch = take (batch_len (MaxPostBytes (sh_cfg s)) 0 0 (sh_pending s')) (sh_pending s')"
    using assms(2) by (auto simp: ship_take_def Let_def)
  have "sealing ?s1" using assms(1) seal_sealing [of s "length (sh_cur s)"] by (auto simp: ship_ok_sealing)
  moreover have cur: "sh_cur ?s1 = []" by (simp add: seal_def)
  ultimately show ok: "ship_ok s'" unfolding s' ship_ok_sealing sealing_def cfg_ok_def by simp
  show "unsent s' = unsent s" "sh_cfg s' = sh_cfg s" "sh_stale s' = sh_stale s" "sh_err s' = sh_err s" "first_seq s' = first_seq s"
    "\<exists>cs. sh_pending s' = sh_pending s @ cs" "sh_cur s' = []" by (auto simp: s' seal_def unsent_def first_seq_def)
  show "prefix batch (sh_pending s')" unfolding b by (rule take_is_prefix)
  have "batch_len m n z cs \<ge> n" for m n z cs by (induction m n z cs rule: batch_len.induct) auto
  then have "batch_len m 0 0 cs = 0 \<longleftrightarrow> cs = []" for m cs
    by (cases cs) (auto simp: Suc_le_eq [symmetric] simp del: One_nat_def, metis One_nat_def Suc_eq_plus1 not_less_eq_eq zero_le)
  then have "batch = [] \<longleftrightarrow> sh_pending s' = []" by (simp add: b)
  moreover have "unsent s' = [] \<longleftrightarrow> sh_pending s' = []"
    using ok cur s' by (auto simp: ship_ok_def unsent_def)
  moreover have "unsent s' = unsent s" by (simp add: s')
  ultimately show "batch = [] \<longleftrightarrow> unsent s = []" by simp
qed

lemma ack_facts:
  assumes "ship_ok s" and "prefix batch (sh_pending s)"
  shows "ship_ok (ack (length batch) s)" and "unsent s = concat (map c_data batch) @ unsent (ack (length batch) s)"
    and "sh_pending s = batch @ sh_pending (ack (length batch) s)"
proof -
  from assms(2) obtain rest where rest: "sh_pending s = batch @ rest" by (auto simp: prefix_def)
  then show split: "sh_pending s = batch @ sh_pending (ack (length batch) s)" by (simp add: ack_def)
  show "unsent s = concat (map c_data batch) @ unsent (ack (length batch) s)"
    by (simp add: unsent_def ack_def rest)
  have "sum_list (map (int \<circ> length \<circ> c_data) cs) = int (length (concat (map c_data cs)))" for cs :: "Chunk list"
    by (induction cs) simp_all
  moreover have "map c_seq rest = [sh_nextSeq s - int (length rest)..sh_nextSeq s - 1]"
  proof -
    have "map c_seq rest = drop (length batch) (map c_seq (sh_pending s))" by (simp add: rest)
    also have "\<dots> = [sh_nextSeq s - int (length (sh_pending s)) + int (length batch)..sh_nextSeq s - 1]"
      using assms(1) by (simp add: ship_ok_def upto_drop)
    finally show ?thesis by (simp add: rest)
  qed
  ultimately show "ship_ok (ack (length batch) s)"
    using assms(1) by (auto simp: ship_ok_def ack_def rest unsent_def)
qed


section \<open>Writers, the flush loop and the server\<close>

text \<open>
  One shipper with its environment. The ghosts: the stream of bytes accepted so far, the chunks
  acknowledged, and the batches the server has stored, one entry per call that reached it.
\<close>

record ship_sys =
  y_ship :: Shipper
  y_inflight :: "Chunk list option"
  y_stream :: "char list"
  y_acked :: "Chunk list"
  y_stored :: "Chunk list list"

definition ship_init :: "ship_sys \<Rightarrow> bool" where
  "ship_init y \<longleftrightarrow> (\<exists>cfg. y = \<lparr>y_ship = ship_New cfg, y_inflight = None, y_stream = [], y_acked = [], y_stored = []\<rparr>)"

inductive ship_step :: "ship_sys \<Rightarrow> ship_sys \<Rightarrow> bool" where
  at_write: "ship_step y (y\<lparr>y_ship := snd (Write p (y_ship y)), y_stream := y_stream y @ accepted p (y_ship y)\<rparr>)"
| at_take: "y_inflight y = None \<Longrightarrow> ship_take (y_ship y) = (batch, s') \<Longrightarrow> batch \<noteq> [] \<Longrightarrow>
    ship_step y (y\<lparr>y_ship := s', y_inflight := Some batch\<rparr>)"
| at_ok: "y_inflight y = Some batch \<Longrightarrow>
    ship_step y (y\<lparr>y_ship := drain_answer SinkOK batch (y_ship y), y_inflight := None,
      y_acked := y_acked y @ batch, y_stored := y_stored y @ [batch]\<rparr>)"
| at_rejected: "y_inflight y = Some batch \<Longrightarrow>
    ship_step y (y\<lparr>y_ship := drain_answer (SinkRejected e) batch (y_ship y), y_inflight := None,
      y_acked := y_acked y @ batch\<rparr>)"
| at_failed: "y_inflight y = Some batch \<Longrightarrow> a = SinkTransient \<or> a = SinkCtx \<Longrightarrow> stored = [] \<or> stored = [batch] \<Longrightarrow>
    ship_step y (y\<lparr>y_ship := drain_answer a batch (y_ship y), y_inflight := None, y_stored := y_stored y @ stored\<rparr>)"
| at_stale: "y_inflight y = Some batch \<Longrightarrow>
    ship_step y (y\<lparr>y_ship := drain_answer SinkStale batch (y_ship y), y_inflight := None\<rparr>)"
| at_close: "ship_step y (y\<lparr>y_ship := ship_close (y_ship y)\<rparr>)"

text \<open>
  Between steps: all chunks ever numbered carry the numbers one, two, three and so on, their data in
  order is what the stream starts with, and the server stored only such chunks. While the
  attempt is current they are the acknowledged and the pending ones and nothing of the stream is missing.
\<close>

definition ship_history :: "ship_sys \<Rightarrow> Chunk list \<Rightarrow> char list \<Rightarrow> bool" where
  "ship_history y cs rest \<longleftrightarrow> map c_seq cs = [1..int (length cs)] \<and> set (concat (y_stored y)) \<subseteq> set cs \<and>
     prefix (y_acked y) cs \<and> y_stream y = concat (map c_data cs) @ rest \<and>
     (sh_err (y_ship y) = None \<longrightarrow> set (y_acked y) \<subseteq> set (concat (y_stored y))) \<and>
     (if sh_stale (y_ship y) then y_inflight y = None \<and> unsent (y_ship y) = []
      else cs = y_acked y @ sh_pending (y_ship y) \<and> rest = sh_cur (y_ship y) \<and>
        first_seq (y_ship y) = int (length (y_acked y)) + 1)"

definition ship_inv :: "ship_sys \<Rightarrow> bool" where
  "ship_inv y \<longleftrightarrow> ship_ok (y_ship y) \<and>
     (\<forall>batch. y_inflight y = Some batch \<longrightarrow> prefix batch (sh_pending (y_ship y))) \<and>
     (\<exists>cs rest. ship_history y cs rest)"

lemma ship_init_inv: "ship_init y \<Longrightarrow> ship_inv y"
  by (auto simp: ship_init_def ship_inv_def ship_history_def ship_New_ok)
    (auto simp: ship_New_def Let_def first_seq_def unsent_def intro!: exI [of _ "[]"])

lemma upto_append: "0 \<le> a \<Longrightarrow> 0 \<le> b \<Longrightarrow> [1..a] @ [a + 1..a + b] = [1..a + b]" for a b :: int
  using upto_split1 [of 1 "a + 1" "a + b"] by (cases "b = 0") auto

lemma numbered_prefix:
  assumes "map c_seq (xs @ ys) = [1..int (length (xs @ ys))]"
  shows "map c_seq xs = [1..int (length xs)]"
proof -
  have "map c_seq xs = take (length xs) (map c_seq (xs @ ys))" by simp
  also have "\<dots> = take (length xs) ([1..int (length xs)] @ [int (length xs) + 1..int (length xs) + int (length ys)])"
    unfolding assms using upto_append [of "int (length xs)" "int (length ys)"] by simp
  finally show ?thesis by simp
qed

lemma numbered_pending:
  assumes "map c_seq (y_acked y) = [1..int (length (y_acked y))]" and "ship_ok s'"
    and "first_seq s' = int (length (y_acked y)) + 1"
  shows "map c_seq (y_acked y @ sh_pending s') = [1..int (length (y_acked y @ sh_pending s'))]"
proof -
  have "map c_seq (sh_pending s') = [first_seq s'..first_seq s' + int (length (sh_pending s')) - 1]"
    using assms(2) by (simp add: ship_ok_def first_seq_def)
  then show ?thesis
    using assms(1,3) upto_append [of "int (length (y_acked y))" "int (length (sh_pending s'))"] by simp
qed

lemma history_live:
  assumes "ship_history y cs rest" and "\<not> sh_stale (y_ship y)"
  shows "cs = y_acked y @ sh_pending (y_ship y)" and "rest = sh_cur (y_ship y)"
    and "first_seq (y_ship y) = int (length (y_acked y)) + 1" and "map c_seq cs = [1..int (length cs)]"
    and "y_stream y = concat (map c_data (y_acked y)) @ unsent (y_ship y)"
    and "set (concat (y_stored y)) \<subseteq> set cs"
    and "sh_err (y_ship y) = None \<Longrightarrow> set (y_acked y) \<subseteq> set (concat (y_stored y))"
proof -
  show cs: "cs = y_acked y @ sh_pending (y_ship y)" and rest: "rest = sh_cur (y_ship y)"
    and "first_seq (y_ship y) = int (length (y_acked y)) + 1" using assms by (simp_all add: ship_history_def)
  show "map c_seq cs = [1..int (length cs)]" "set (concat (y_stored y)) \<subseteq> set cs"
    using assms unfolding ship_history_def by blast+
  show "sh_err (y_ship y) = None \<Longrightarrow> set (y_acked y) \<subseteq> set (concat (y_stored y))"
    using assms unfolding ship_history_def by blast
  have "y_stream y = concat (map c_data cs) @ rest" using assms unfolding ship_history_def by blast
  then show "y_stream y = concat (map c_data (y_acked y)) @ unsent (y_ship y)" by (simp add: cs rest unsent_def)
qed

text \<open>A step that appends to the stream, seals chunks or changes flags.\<close>

lemma history_grow:
  assumes hist: "ship_history y cs rest" and live: "\<not> sh_stale (y_ship y)" and ok: "ship_ok s'"
    and un: "unsent s' = unsent (y_ship y) @ p" and same: "sh_stale s' = sh_stale (y_ship y)"
      "sh_err s' = sh_err (y_ship y)" "first_seq s' = first_seq (y_ship y)"
    and pend: "\<exists>ds. sh_pending s' = sh_pending (y_ship y) @ ds"
  shows "ship_history (y\<lparr>y_ship := s', y_inflight := f, y_stream := y_stream y @ p\<rparr>) (y_acked y @ sh_pending s') (sh_cur s')"
proof -
  note h = history_live [OF hist live]
  note cs = h(1) and first = h(3) and num = h(4) and stream = h(5) and stored = h(6)
  have "map c_seq (y_acked y @ sh_pending s') = [1..int (length (y_acked y @ sh_pending s'))]"
    using numbered_pending [of y s'] numbered_prefix num ok same(3) first unfolding cs by fastforce
  moreover have "y_stream y @ p = concat (map c_data (y_acked y @ sh_pending s')) @ sh_cur s'"
    using stream un by (simp add: unsent_def)
  moreover have "set (concat (y_stored y)) \<subseteq> set (y_acked y @ sh_pending s')" using stored pend unfolding cs by auto
  ultimately show ?thesis using live same first h(7) by (simp add: ship_history_def)
qed

lemma inv_write:
  assumes "ship_inv y"
  shows "ship_inv (y\<lparr>y_ship := snd (Write p (y_ship y)), y_stream := y_stream y @ accepted p (y_ship y)\<rparr>)"
proof -
  from assms obtain cs rest where ok: "ship_ok (y_ship y)" and hist: "ship_history y cs rest"
    and infl: "\<And>b. y_inflight y = Some b \<Longrightarrow> prefix b (sh_pending (y_ship y))" unfolding ship_inv_def by blast
  note w = Write_facts [OF ok, of p]
  have "prefix b (sh_pending (snd (Write p (y_ship y))))" if "y_inflight y = Some b" for b
    using infl [OF that] w(7) by (auto simp: prefix_def)
  moreover have "\<exists>cs rest. ship_history (y\<lparr>y_ship := snd (Write p (y_ship y)), y_stream := y_stream y @ accepted p (y_ship y)\<rparr>) cs rest"
  proof (cases "sh_stale (y_ship y)")
    case True
    then show ?thesis using hist by (auto simp: Write_def accepted_def)
  next
    case False
    from history_grow [OF hist False w(1,2,4,5,6,7), of "y_inflight y"] show ?thesis by (intro exI) simp
  qed
  ultimately show ?thesis using w(1) by (simp add: ship_inv_def)
qed

lemma inv_take:
  assumes "ship_inv y" and "y_inflight y = None" and "ship_take (y_ship y) = (batch, s')" and "batch \<noteq> []"
  shows "ship_inv (y\<lparr>y_ship := s', y_inflight := Some batch\<rparr>)"
proof -
  from assms(1) obtain cs rest where ok: "ship_ok (y_ship y)" and hist: "ship_history y cs rest"
    unfolding ship_inv_def by blast
  note w = ship_take_facts [OF ok assms(3)]
  have live: "\<not> sh_stale (y_ship y)" using w(9) assms(4) hist by (auto simp: ship_history_def)
  have "unsent s' = unsent (y_ship y) @ []" using w(2) by simp
  from history_grow [OF hist live w(1) this w(4,5,6,7), of "Some batch"] w(1,8) show ?thesis
    unfolding ship_inv_def by auto
qed

text \<open>The answers that acknowledge a batch.\<close>

lemma inv_ack:
  assumes "ship_inv y" and "y_inflight y = Some batch"
    and s': "s' = ack (length batch) (y_ship y)\<lparr>sh_err := e\<rparr>" and err: "e = None \<Longrightarrow> stored = [batch] \<and> sh_err (y_ship y) = None"
    and stored: "stored = [] \<or> stored = [batch]"
  shows "ship_inv (y\<lparr>y_ship := s', y_inflight := None, y_acked := y_acked y @ batch, y_stored := y_stored y @ stored\<rparr>)"
proof -
  from assms(1,2) obtain cs rest where ok: "ship_ok (y_ship y)" and hist: "ship_history y cs rest"
    and pre: "prefix batch (sh_pending (y_ship y))" unfolding ship_inv_def by blast
  note a = ack_facts [OF ok pre]
  have live: "\<not> sh_stale (y_ship y)" using hist assms(2) by (auto simp: ship_history_def)
  have "ship_ok s'" using a(1) by (simp add: s' ship_ok_def unsent_def)
  moreover have "ship_history (y\<lparr>y_ship := s', y_inflight := None, y_acked := y_acked y @ batch, y_stored := y_stored y @ stored\<rparr>)
      cs rest"
  proof -
    note h = history_live [OF hist live]
    from pre obtain r where r: "sh_pending (y_ship y) = batch @ r" by (auto simp: prefix_def)
    then have r': "sh_pending s' = r" by (simp add: s' ack_def)
    have cs: "cs = (y_acked y @ batch) @ sh_pending s'" using h(1) r r' by simp
    have "set batch \<subseteq> set cs" unfolding cs by auto
    then have "set (concat (y_stored y @ stored)) \<subseteq> set cs" using h(6) stored by auto
    moreover have "first_seq s' = int (length (y_acked y @ batch)) + 1"
      using h(3) r by (simp add: s' first_seq_def ack_def)
    moreover have "sh_cur s' = sh_cur (y_ship y)" "sh_stale s' = sh_stale (y_ship y)" by (simp_all add: s' ack_def)
    moreover have "set (y_acked y @ batch) \<subseteq> set (concat (y_stored y @ stored))" if "sh_err s' = None"
      using that err h(7) by (auto simp: s')
    moreover have "y_stream y = concat (map c_data cs) @ rest" using hist unfolding ship_history_def by blast
    moreover have "prefix (y_acked y @ batch) cs" unfolding cs by simp
    ultimately show ?thesis unfolding ship_history_def using cs h(2,4) live by simp
  qed
  ultimately show ?thesis by (auto simp: ship_inv_def)
qed

lemma inv_failed:
  assumes "ship_inv y" and "y_inflight y = Some batch" and "stored = [] \<or> stored = [batch]"
  shows "ship_inv (y\<lparr>y_inflight := None, y_stored := y_stored y @ stored\<rparr>)"
proof -
  from assms(1,2) obtain cs rest where ok: "ship_ok (y_ship y)" and hist: "ship_history y cs rest"
    and pre: "prefix batch (sh_pending (y_ship y))" unfolding ship_inv_def by blast
  have live: "\<not> sh_stale (y_ship y)" using hist assms(2) by (auto simp: ship_history_def)
  note h = history_live [OF hist live]
  have "set batch \<subseteq> set cs" using set_mono_prefix [OF pre] h(1) by auto
  then have "set (concat (y_stored y @ stored)) \<subseteq> set cs" using h(6) assms(3) by auto
  moreover have "y_stream y = concat (map c_data cs) @ rest" "prefix (y_acked y) cs"
    using hist unfolding ship_history_def by blast+
  moreover have "sh_err (y_ship y) = None \<Longrightarrow> set (y_acked y) \<subseteq> set (concat (y_stored y @ stored))"
    using h(7) by auto
  ultimately have "ship_history (y\<lparr>y_inflight := None, y_stored := y_stored y @ stored\<rparr>) cs rest"
    unfolding ship_history_def using h(1-4) live by simp
  with ok show ?thesis by (auto simp: ship_inv_def)
qed

lemma inv_stale:
  assumes "ship_inv y"
  shows "ship_inv (y\<lparr>y_ship := markStale (y_ship y), y_inflight := None\<rparr>)"
proof -
  from assms obtain cs rest where ok: "ship_ok (y_ship y)" and hist: "ship_history y cs rest" unfolding ship_inv_def by blast
  have "ship_ok (markStale (y_ship y))" using ok by (auto simp: ship_ok_def markStale_def unsent_def cfg_ok_def)
  moreover have "ship_history (y\<lparr>y_ship := markStale (y_ship y), y_inflight := None\<rparr>) cs rest"
    using hist unfolding ship_history_def by (simp add: markStale_def unsent_def)
  ultimately show ?thesis by (auto simp: ship_inv_def)
qed

lemma inv_close:
  assumes "ship_inv y"
  shows "ship_inv (y\<lparr>y_ship := ship_close (y_ship y)\<rparr>)"
proof -
  from assms obtain cs rest where ok: "ship_ok (y_ship y)" and hist: "ship_history y cs rest" unfolding ship_inv_def by blast
  have "unsent (ship_close s) = unsent s" "first_seq (ship_close s) = first_seq s" for s
    by (simp_all add: ship_close_def unsent_def first_seq_def)
  then have "ship_history (y\<lparr>y_ship := ship_close (y_ship y)\<rparr>) cs rest"
    using hist unfolding ship_history_def by (simp add: ship_close_def)
  with assms show ?thesis by (auto simp: ship_inv_def ship_close_def ship_ok_def unsent_def)
qed

lemma err_update_id [simp]: "s\<lparr>sh_err := sh_err s\<rparr> = s" for s :: Shipper
  by simp

lemma ship_step_inv: "ship_step y y' \<Longrightarrow> ship_inv y \<Longrightarrow> ship_inv y'"
proof (induction rule: ship_step.induct)
  case (at_write y p)
  then show ?case by (rule inv_write)
next
  case (at_take y batch s')
  then show ?case by (intro inv_take)
next
  case (at_ok y batch)
  have "ack (length batch) (y_ship y) = ack (length batch) (y_ship y)\<lparr>sh_err := sh_err (y_ship y)\<rparr>" by (simp add: ack_def)
  from inv_ack [OF at_ok(2,1) this, of "[batch]"] show ?case by (simp add: drain_answer_def)
next
  case (at_rejected y batch e)
  define e' where "e' = (case sh_err (y_ship y) of None \<Rightarrow> Some e | x \<Rightarrow> x)"
  have "setErr e (ack (length batch) (y_ship y)) = ack (length batch) (y_ship y)\<lparr>sh_err := e'\<rparr>"
    by (cases "sh_err (y_ship y)") (simp_all add: setErr_def ack_def e'_def)
  moreover obtain m where "e' = Some m" by (cases "sh_err (y_ship y)") (auto simp: e'_def)
  ultimately show ?case
    using inv_ack [OF at_rejected(2,1) refl, of "Some m" "[]"] by (simp add: drain_answer_def)
next
  case (at_failed y batch a stored)
  then show ?case using inv_failed [OF at_failed(4,1,3)] by (auto simp: drain_answer_def)
next
  case (at_stale y batch)
  then show ?case using inv_stale by (simp add: drain_answer_def)
next
  case (at_close y)
  then show ?case by (rule inv_close)
qed

interpretation shipping: inductive_invariant ship_init ship_step ship_inv
  by unfold_locales (blast intro: ship_init_inv ship_step_inv)+

lemma numbered_unique:
  assumes "map c_seq cs = [1..int (length cs)]" and "c \<in> set cs" and "d \<in> set cs" and "c_seq c = c_seq d"
  shows "c = d"
proof -
  have "distinct (map c_seq cs)" unfolding assms(1) by simp
  with assms(2-4) show ?thesis by (auto simp: distinct_map inj_on_def)
qed

text \<open>
  Redelivery is harmless: however writes, retries and lost responses interleave, two chunks the
  server stored under the same sequence number are the same chunk.
\<close>

theorem redelivery_identical:
  assumes "ship_init y0" and "ship_step\<^sup>*\<^sup>* y0 y"
    and "c \<in> set (concat (y_stored y))" and "d \<in> set (concat (y_stored y))" and "c_seq c = c_seq d"
  shows "c = d"
proof -
  from shipping.reachable_I [OF assms(1,2)] obtain cs rest where "ship_history y cs rest" unfolding ship_inv_def by blast
  then have "map c_seq cs = [1..int (length cs)]" "set (concat (y_stored y)) \<subseteq> set cs" unfolding ship_history_def by blast+
  with numbered_unique [of cs c d] assms(3-5) show ?thesis by blast
qed

lemma close_complete:
  assumes "ship_init y0" and "ship_step\<^sup>*\<^sup>* y0 y" and "close_error (y_ship y) = CloseOK"
  shows "\<exists>cs. map c_seq cs = [1..int (length cs)] \<and> set cs = set (concat (y_stored y)) \<and>
    concat (map c_data cs) = y_stream y"
proof -
  from assms(3) have fin: "\<not> sh_stale (y_ship y)" "sh_err (y_ship y) = None" "sh_buffered (y_ship y) \<le> 0"
    by (auto simp: close_error_def split: if_splits option.splits)
  from shipping.reachable_I [OF assms(1,2)] obtain cs rest where ok: "ship_ok (y_ship y)" and hist: "ship_history y cs rest"
    unfolding ship_inv_def by blast
  note h = history_live [OF hist fin(1)]
  have "unsent (y_ship y) = []" using ok fin(3) by (simp add: ship_ok_def)
  then have "sh_pending (y_ship y) = []" using ok by (cases "sh_pending (y_ship y)") (auto simp: ship_ok_def unsent_def)
  with h fin(2) \<open>unsent (y_ship y) = []\<close> show ?thesis by (intro exI [of _ cs]) auto
qed

text \<open>
  C8. Nothing is lost or reordered: when \<open>Close\<close> reports success, the chunks the server stored are
  numbered one to n without a gap and their data, in that order, is exactly the stream the job wrote
  (with the markers of dropped output in their places).
\<close>

theorem close_ok_complete:
  assumes "ship_init y0" and "ship_step\<^sup>*\<^sup>* y0 y" and "close_error (y_ship y) = CloseOK"
  shows "\<exists>cs. map c_seq cs = [1..int (length cs)] \<and> set cs = set (concat (y_stored y)) \<and>
    concat (map c_data cs) = y_stream y"
  using close_complete [OF assms] .


section \<open>Bounds, accounting and progress\<close>

text \<open>An example shipper, small enough to fill.\<close>

definition demo_ship_cfg :: ship_config where
  "demo_ship_cfg = \<lparr>FlushInterval = 0, FlushBytes = 2, MaxPostBytes = 4, MaxBuffered = 5, Backoff = 0\<rparr>"

definition demo_y0 :: ship_sys where
  "demo_y0 = \<lparr>y_ship = ship_New demo_ship_cfg, y_inflight = None, y_stream = [], y_acked = [], y_stored = []\<rparr>"

definition demo_y1 :: ship_sys where
  "demo_y1 = demo_y0\<lparr>y_ship := snd (Write ''abc'' (y_ship demo_y0)), y_stream := y_stream demo_y0 @ accepted ''abc'' (y_ship demo_y0)\<rparr>"

definition demo_y2 :: ship_sys where
  "demo_y2 = demo_y1\<lparr>y_ship := snd (ship_take (y_ship demo_y1)), y_inflight := Some (fst (ship_take (y_ship demo_y1)))\<rparr>"

definition demo_y3 :: ship_sys where
  "demo_y3 = (let b = the (y_inflight demo_y2) in
     demo_y2\<lparr>y_inflight := None, y_stored := y_stored demo_y2 @ [b]\<rparr>)"

definition demo_y4 :: ship_sys where
  "demo_y4 = demo_y3\<lparr>y_ship := snd (ship_take (y_ship demo_y3)), y_inflight := Some (fst (ship_take (y_ship demo_y3)))\<rparr>"

definition demo_y5 :: ship_sys where
  "demo_y5 = (let b = the (y_inflight demo_y4) in
     demo_y4\<lparr>y_ship := drain_answer SinkOK b (y_ship demo_y4), y_inflight := None,
       y_acked := y_acked demo_y4 @ b, y_stored := y_stored demo_y4 @ [b]\<rparr>)"

lemma demo_ship_reach: "ship_init demo_y0" "ship_step\<^sup>*\<^sup>* demo_y0 demo_y5"
proof -
  show "ship_init demo_y0" by (simp add: ship_init_def demo_y0_def exI [of _ demo_ship_cfg])
  have "ship_step demo_y0 demo_y1" unfolding demo_y1_def by (rule at_write)
  moreover have "ship_step demo_y1 demo_y2" unfolding demo_y2_def
  proof (rule at_take)
    show "y_inflight demo_y1 = None" by code_simp
    show "ship_take (y_ship demo_y1) = (fst (ship_take (y_ship demo_y1)), snd (ship_take (y_ship demo_y1)))" by simp
    show "fst (ship_take (y_ship demo_y1)) \<noteq> []" by code_simp
  qed
  moreover have "ship_step demo_y2 demo_y3"
  proof -
    have "y_inflight demo_y2 = Some (the (y_inflight demo_y2))" by (simp add: demo_y2_def)
    from at_failed [OF this, of SinkTransient "[the (y_inflight demo_y2)]"] show ?thesis
      by (simp add: demo_y3_def drain_answer_def)
  qed
  moreover have "ship_step demo_y3 demo_y4" unfolding demo_y4_def
  proof (rule at_take)
    show "y_inflight demo_y3 = None" by (simp add: demo_y3_def Let_def)
    show "ship_take (y_ship demo_y3) = (fst (ship_take (y_ship demo_y3)), snd (ship_take (y_ship demo_y3)))" by simp
    show "fst (ship_take (y_ship demo_y3)) \<noteq> []" by code_simp
  qed
  moreover have "ship_step demo_y4 demo_y5" unfolding demo_y5_def Let_def
    by (rule at_ok) (simp add: demo_y4_def)
  ultimately show "ship_step\<^sup>*\<^sup>* demo_y0 demo_y5" by (meson r_into_rtranclp rtranclp.rtrancl_into_rtrancl)
qed

theorem redelivery_identical_witness:
  "concat (y_stored demo_y5) ! 0 = concat (y_stored demo_y5) ! 2"
proof -
  have "c_seq (concat (y_stored demo_y5) ! 0) = c_seq (concat (y_stored demo_y5) ! 2)" "length (concat (y_stored demo_y5)) = 4"
    by code_simp+
  then show ?thesis using redelivery_identical [OF demo_ship_reach nth_mem nth_mem, of 0 2] by simp
qed

theorem close_ok_complete_witness:
  "y_stream demo_y5 = ''abc'' \<and> (\<exists>cs. map c_seq cs = [1..int (length cs)] \<and> set cs = set (concat (y_stored demo_y5)) \<and>
     concat (map c_data cs) = ''abc'')"
proof -
  have "close_error (y_ship demo_y5) = CloseOK" "y_stream demo_y5 = ''abc''" by code_simp+
  with close_ok_complete [OF demo_ship_reach] show ?thesis by simp
qed

lemma batch_len_bound:
  assumes "\<forall>c \<in> set cs. int (length (c_data c)) \<le> m" and "n = 0 \<longrightarrow> z = 0" and "z \<le> m" and "0 \<le> m"
  shows "z + sum_list (map (int \<circ> length \<circ> c_data) (take (batch_len m n z cs - n) cs)) \<le> m"
  using assms
proof (induction m n z cs rule: batch_len.induct)
  case (2 m n z c cs)
  have le: "k \<le> batch_len m k w ds" for k w ds by (induction m k w ds rule: batch_len.induct) auto
  show ?case
  proof (cases "n = 0 \<or> z + int (length (c_data c)) \<le> m")
    case True
    then have "z + int (length (c_data c)) \<le> m" using 2(2,3,4) by auto
    with 2(1) [OF True] 2(2,5) have "z + int (length (c_data c)) + sum_list (map (int \<circ> length \<circ> c_data)
        (take (batch_len m (n + 1) (z + int (length (c_data c))) cs - (n + 1)) cs)) \<le> m" by (simp add: comp_def)
    moreover have "batch_len m (n + 1) (z + int (length (c_data c))) cs - n =
        Suc (batch_len m (n + 1) (z + int (length (c_data c))) cs - (n + 1))"
      using le [of "n + 1" "z + int (length (c_data c))" cs] by simp
    ultimately show ?thesis using True by (simp add: add.assoc comp_def)
  qed (use 2(4) in simp)
qed simp

text \<open>
  A post never exceeds its bound: the chunks of a batch are at most \<open>FlushBytes\<close> each and
  \<open>MaxPostBytes\<close> together, and a batch is empty only when nothing is buffered.
\<close>

theorem take_within_bounds:
  assumes "ship_ok s" and "ship_take s = (batch, s')"
  shows "sum_list (map (int \<circ> length \<circ> c_data) batch) \<le> MaxPostBytes (sh_cfg s) \<and>
    (\<forall>c \<in> set batch. 0 < length (c_data c) \<and> int (length (c_data c)) \<le> FlushBytes (sh_cfg s)) \<and>
    (batch = [] \<longleftrightarrow> sh_buffered s = 0)"
proof -
  note f = ship_take_facts [OF assms]
  have b: "batch = take (batch_len (MaxPostBytes (sh_cfg s)) 0 0 (sh_pending s')) (sh_pending s')"
    using assms(2) by (auto simp: ship_take_def Let_def)
  have small: "\<forall>c \<in> set (sh_pending s'). c_data c \<noteq> [] \<and> int (length (c_data c)) \<le> FlushBytes (sh_cfg s)"
    using f(1,3) by (simp add: ship_ok_def)
  moreover have "cfg_ok (sh_cfg s)" using assms(1) by (simp add: ship_ok_def)
  ultimately have "sum_list (map (int \<circ> length \<circ> c_data) batch) \<le> MaxPostBytes (sh_cfg s)"
    using batch_len_bound [of "sh_pending s'" "MaxPostBytes (sh_cfg s)" 0 0] by (force simp: b cfg_ok_def)
  moreover have "sh_buffered s = 0 \<longleftrightarrow> unsent s = []" using assms(1) by (simp add: ship_ok_def)
  ultimately show ?thesis using small f(9) set_mono_prefix [OF f(8)] by (auto 0 3)
qed

theorem take_within_bounds_witness:
  "map c_data (fst (ship_take (y_ship demo_y1))) = [''ab'', ''c''] \<and>
   sum_list (map (int \<circ> length \<circ> c_data) (fst (ship_take (y_ship demo_y1)))) \<le> 4"
proof -
  have "ship_ok (y_ship demo_y1)" using Write_facts(1) [OF ship_New_ok] by (simp add: demo_y1_def demo_y0_def)
  from take_within_bounds [OF this, of "fst (ship_take (y_ship demo_y1))" "snd (ship_take (y_ship demo_y1))"]
  have "sum_list (map (int \<circ> length \<circ> c_data) (fst (ship_take (y_ship demo_y1)))) \<le> MaxPostBytes (sh_cfg (y_ship demo_y1))"
    by simp
  moreover have "MaxPostBytes (sh_cfg (y_ship demo_y1)) = 4" "map c_data (fst (ship_take (y_ship demo_y1))) = [''ab'', ''c'']"
    by code_simp+
  ultimately show ?thesis by simp
qed

text \<open>
  \<open>Write\<close> accounts for every byte: what enters the stream is the marker of an earlier loss, if
  one is due, followed by a prefix of the argument, and the rest is counted as dropped. Memory
  stays within the cap and one marker. The count it returns is short when the argument is cut.
\<close>

theorem Write_accounts:
  assumes "ship_ok s" and "\<not> sh_closed s" and "\<not> sh_stale s" and room: "room = MaxBuffered (sh_cfg s) - sh_buffered s"
  shows "let s' = snd (Write p s); marker = (if 0 < sh_dropped s \<and> 0 < room then drop_marker (sh_dropped s) else []);
      old = (if 0 < room then 0 else sh_dropped s) in
    unsent s' = unsent s @ marker @ take (nat room) p \<and>
    sh_dropped s' = old + int (length (drop (nat room) p)) \<and>
    sh_buffered s' \<le> max (sh_buffered s) (MaxBuffered (sh_cfg s) + int (length marker)) \<and>
    fst (Write p s) = (if 0 < room \<and> room < int (length p) then room else int (length p))"
proof -
  note w = Write_facts [OF assms(1), of p]
  have un: "unsent (snd (Write p s)) = unsent s @ (if 0 < sh_dropped s \<and> 0 < room then drop_marker (sh_dropped s) else []) @ take (nat room) p"
    using w(2) assms(2,3) by (simp add: accepted_def room Let_def)
  have d: "0 \<le> sh_dropped s" using assms(1) by (simp add: ship_ok_def)
  note m = append_facts [OF assms(1), of "drop_marker (sh_dropped s)"]
  define s1 where "s1 = (if 0 < sh_dropped s \<and> 0 < room then (ship_append (drop_marker (sh_dropped s)) s)\<lparr>sh_dropped := 0\<rparr> else s)"
  have ok1: "ship_ok s1" using assms(1) m(1) by (simp add: s1_def ship_ok_dropped)
  have d1: "0 < room \<Longrightarrow> sh_dropped s1 = 0" "\<not> 0 < room \<Longrightarrow> sh_dropped s1 = sh_dropped s" using d by (auto simp: s1_def)
  have W: "Write p s = (if room \<le> 0 then (int (length p), s1\<lparr>sh_dropped := sh_dropped s1 + int (length p)\<rparr>)
      else if room < int (length p)
      then (room, ship_append (take (nat room) p) (s1\<lparr>sh_dropped := sh_dropped s1 + (int (length p) - room)\<rparr>))
      else (int (length p), ship_append p s1))"
    using assms(2,3) unfolding Write_def Let_def s1_def room by simp
  have "sh_dropped (snd (Write p s)) = (if 0 < room then 0 else sh_dropped s) + int (length (drop (nat room) p))"
  proof (cases "0 < room \<and> room < int (length p)")
    case True
    have "ship_ok (s1\<lparr>sh_dropped := sh_dropped s1 + (int (length p) - room)\<rparr>)"
      by (rule ship_ok_dropped [OF ok1]) (use True d1 in simp)
    note dr = append_facts(4) [OF this, of "take (nat room) p"]
    have "nat room \<le> length p" using True by linarith
    then show ?thesis using dr True d1 by (simp add: W of_nat_diff)
  next
    case False
    with append_facts(4) [OF ok1, of p] d1 show ?thesis by (auto simp: W)
  qed
  moreover have "sh_buffered (snd (Write p s)) \<le> max (sh_buffered s)
      (MaxBuffered (sh_cfg s) + int (length (if 0 < sh_dropped s \<and> 0 < room then drop_marker (sh_dropped s) else [])))"
  proof -
    have "sh_buffered (snd (Write p s)) = int (length (unsent (snd (Write p s))))" "sh_buffered s = int (length (unsent s))"
      using w(1) assms(1) by (simp_all add: ship_ok_def)
    moreover have "int (length (take (nat room) p)) \<le> max 0 room" by simp
    ultimately show ?thesis by (auto simp: un room)
  qed
  moreover have "fst (Write p s) = (if 0 < room \<and> room < int (length p) then room else int (length p))" by (simp add: W)
  ultimately show ?thesis using un by (simp add: Let_def)
qed

theorem Write_accounts_witness:
  "Write ''abcdefg'' (y_ship demo_y0) = (5, snd (Write ''abcdefg'' (y_ship demo_y0))) \<and>
   sh_dropped (snd (Write ''abcdefg'' (y_ship demo_y0))) = 2"
proof -
  have r: "MaxBuffered (sh_cfg (y_ship demo_y0)) - sh_buffered (y_ship demo_y0) = 5" "sh_dropped (y_ship demo_y0) = 0"
    "\<not> sh_closed (y_ship demo_y0)" "\<not> sh_stale (y_ship demo_y0)" by code_simp+
  have "ship_ok (y_ship demo_y0)" by (simp add: demo_y0_def ship_New_ok)
  from Write_accounts [OF this r(3,4) r(1) [symmetric], of "''abcdefg''"] r(2) show ?thesis
    by (auto simp: Let_def prod_eq_iff)
qed

text \<open>A drain with a server that answers: the chunks to send are the pending ones and what \<open>take\<close> seals.\<close>

definition to_send :: "Shipper \<Rightarrow> Chunk list" where
  "to_send s = sh_pending (snd (ship_take s))"

lemma to_send_take:
  assumes "ship_ok s" and "ship_take s = (batch, s1)"
  shows "to_send s1 = to_send s" and "prefix batch (to_send s)" and "sh_pending s1 = to_send s"
  using ship_take_facts [OF assms] assms(2) by (simp_all add: to_send_def ship_take_def Let_def)

lemma drain_flushes:
  assumes "ship_ok s" and "set as \<subseteq> {SinkOK, SinkTransient}" and "length (to_send s) < count_list as SinkOK"
    and "drain b as s = ((bs, ws), s')"
  shows "unsent s' = [] \<and> set (to_send s) = set (concat bs) \<and> ship_ok s'"
  using assms
proof (induction b as s arbitrary: bs ws rule: drain.induct)
  case (2 b a as s)
  obtain batch s1 where tk: "ship_take s = (batch, s1)" by fastforce
  note f = ship_take_facts [OF 2(4) tk] and t = to_send_take [OF 2(4) tk]
  show ?case
  proof (cases "batch = []")
    case True
    then have "unsent s1 = []" using f(2,9) by simp
    moreover from this have "to_send s = []" unfolding t(3) [symmetric] using f(1)
      by (cases "sh_pending s1") (auto simp: ship_ok_def unsent_def)
    ultimately show ?thesis using 2(7) True tk f(1) by simp
  next
    case False
    consider (ok) "a = SinkOK" | (retry) "a = SinkTransient" using 2(5) by auto
    then show ?thesis
    proof cases
      case ok
      let ?s2 = "ack (length batch) s1"
      note k = ack_facts [OF f(1) f(8)]
      have rest: "to_send s = batch @ to_send ?s2"
        using k(3) t(3) f(10) by (simp add: to_send_def ship_take_def Let_def ack_def)
      obtain bs' ws' where rec: "drain (Backoff (sh_cfg s)) as ?s2 = ((bs', ws'), s')" and bs: "bs = batch # bs'"
        using 2(7) False ok tk by (auto simp: Let_def drain_answer_def split: prod.splits)
      have "length (to_send ?s2) < count_list as SinkOK" using 2(6) rest False ok by (cases batch) auto
      then have "unsent s' = [] \<and> set (to_send ?s2) = set (concat bs') \<and> ship_ok s'"
        using 2(1) [OF tk [symmetric] False _ ok] ok rec k(1) 2(5,6) rest False
        by (auto simp: drain_answer_def)
      then show ?thesis unfolding rest bs by simp
    next
      case retry
      obtain bs' ws' where rec: "drain (next_backoff b) as s1 = ((bs', ws'), s')" and bs: "bs = batch # bs'"
        using 2(7) False retry tk by (auto simp: Let_def drain_answer_def split: prod.splits)
      have "unsent s' = [] \<and> set (to_send s1) = set (concat bs') \<and> ship_ok s'"
        using 2(3) [OF tk [symmetric] False _ retry] retry rec f(1) 2(5,6) t(1)
        by (auto simp: drain_answer_def)
      moreover have "set batch \<subseteq> set (to_send s)" using set_mono_prefix [OF t(2)] .
      ultimately show ?thesis unfolding t(1) bs by auto
    qed
  qed
qed simp

lemma drain_waits:
  assumes "0 < b" and "b \<le> maxBackoff" and "cfg_ok (sh_cfg s)" and "drain b as s = ((bs, ws), s')"
  shows "\<forall>w \<in> set ws. 0 < w \<and> w \<le> maxBackoff"
  using assms
proof (induction b as s arbitrary: bs ws rule: drain.induct)
  case (2 b a as s)
  obtain batch s1 where tk: "ship_take s = (batch, s1)" by fastforce
  have cfg: "sh_cfg (drain_answer x batch s1) = sh_cfg s" for x
    using tk by (auto simp: drain_answer_def ack_def markStale_def setErr_def ship_take_def Let_def seal_def
        split: answer.split option.split)
  have bo: "0 < Backoff (sh_cfg s)" "Backoff (sh_cfg s) \<le> maxBackoff" using 2(6) by (simp_all add: cfg_ok_def)
  have nb: "0 < next_backoff b" "next_backoff b \<le> maxBackoff"
    using 2(4) by (auto simp: next_backoff_def maxBackoff_def)
  show ?case
  proof (cases "batch = []")
    case True
    with 2(7) tk show ?thesis by simp
  next
    case False
    note ih = 2(1-3) [OF tk [symmetric] False refl]
    show ?thesis
    proof (cases a)
      case SinkOK
      with ih(1) bo cfg 2(6,7) False tk show ?thesis by (auto simp: Let_def split: prod.splits)
    next
      case (SinkRejected e)
      with ih(2) [OF SinkRejected] 2(4,5,6,7) cfg False tk show ?thesis by (auto simp: Let_def split: prod.splits)
    next
      case SinkTransient
      with ih(3) [OF SinkTransient nb] 2(4,5,6,7) cfg False tk show ?thesis by (auto simp: Let_def split: prod.splits)
    qed (use 2(7) False tk in \<open>auto simp: Let_def\<close>)
  qed
qed simp

text \<open>
  C9. The flush ends with everything delivered: when the server keeps answering, be it with transient
  failures in between, a drain that gets one more success than there are chunks leaves nothing
  unsent, every chunk was posted, nothing else was, and no wait between retries exceeds ten seconds.
\<close>

theorem drain_delivers:
  assumes "ship_ok s" and "set as \<subseteq> {SinkOK, SinkTransient}" and "length (to_send s) < count_list as SinkOK"
    and "drain (Backoff (sh_cfg s)) as s = ((bs, ws), s')"
  shows "unsent s' = [] \<and> sh_buffered s' = 0 \<and> set (concat bs) = set (to_send s) \<and>
    (\<forall>w \<in> set ws. 0 < w \<and> w \<le> 10 * 1000000000)"
proof -
  have c: "cfg_ok (sh_cfg s)" using assms(1) by (simp add: ship_ok_def)
  then have "\<forall>w \<in> set ws. 0 < w \<and> w \<le> maxBackoff" by (intro drain_waits [OF _ _ c assms(4)]) (simp_all add: cfg_ok_def)
  with drain_flushes [OF assms] show ?thesis by (simp add: ship_ok_def maxBackoff_def)
qed

theorem drain_delivers_witness:
  "unsent (snd (drain (Backoff (sh_cfg (y_ship demo_y1))) [SinkTransient, SinkOK, SinkOK, SinkOK] (y_ship demo_y1))) = []"
proof -
  let ?s = "y_ship demo_y1" and ?as = "[SinkTransient, SinkOK, SinkOK, SinkOK]"
  have "ship_ok ?s" using Write_facts(1) [OF ship_New_ok] by (simp add: demo_y1_def demo_y0_def)
  moreover have "length (to_send ?s) < count_list ?as SinkOK" by code_simp
  moreover obtain bs ws s' where "drain (Backoff (sh_cfg ?s)) ?as ?s = ((bs, ws), s')" by (metis prod.exhaust)
  ultimately show ?thesis using drain_delivers [of ?s ?as bs ws s'] by simp
qed

end
