(* ===== verification/Ingest.thy ===== *)
theory Ingest
  imports Settle Logship
begin

text \<open>
  Log ingestion, from the shipper of a runner to the reader of the API. The cap per attempt, what
  a redelivered batch does, and the composition: the stream a shipper accepted is what a client
  reads, whatever else the server serves between the batches.
\<close>


section \<open>One batch\<close>

definition stored :: "string \<Rightarrow> int \<Rightarrow> store \<Rightarrow> LogChunk list" where
  "stored i a s = filter (\<lambda>c. lc_job_id c = i \<and> lc_attempt c = a) (t_chunks s)"

definition log_bytes :: "string \<Rightarrow> int \<Rightarrow> store \<Rightarrow> int" where
  "log_bytes i a s = sum_list (map (\<lambda>c. int (length (lc_data c))) (stored i a s))"

lemma log_bytes_nonneg: "0 \<le> log_bytes i a s"
  by (auto simp: log_bytes_def intro!: sum_list_nonneg)

lemma LogBytes_run: "LogBytes i a s = (Inr (log_bytes i a s), s)"
  by (simp add: LogBytes_def log_bytes_def stored_def)

lemma key_stored:
  "(i, a, q) \<in> (\<lambda>c. (lc_job_id c, lc_attempt c, lc_seq c)) ` set (t_chunks s) \<longleftrightarrow> q \<in> lc_seq ` set (stored i a s)"
  by (force simp: stored_def)

definition with_chunk :: "string \<Rightarrow> int \<Rightarrow> int \<Rightarrow> bytes \<Rightarrow> store \<Rightarrow> store" where
  "with_chunk i a q d s = s\<lparr>t_chunks := t_chunks s @ [\<lparr>lc_job_id = i, lc_attempt = a, lc_seq = q, lc_data = d\<rparr>]\<rparr>"

lemma with_chunk_fields [simp]:
  "t_jobs (with_chunk i a q d s) = t_jobs s" "t_events (with_chunk i a q d s) = t_events s"
  "t_runs (with_chunk i a q d s) = t_runs s"
  "stored i a (with_chunk i a q d s) = stored i a s @ [\<lparr>lc_job_id = i, lc_attempt = a, lc_seq = q, lc_data = d\<rparr>]"
  "log_bytes i a (with_chunk i a q d s) = log_bytes i a s + int (length d)"
  "(j, b) \<noteq> (i, a) \<Longrightarrow> stored j b (with_chunk i a q d s) = stored j b s"
  by (auto simp: with_chunk_def stored_def log_bytes_def)

lemma append_chunk_run:
  assumes "i \<in> j_id ` set (t_jobs s)"
  shows "append_chunk cap i a (q, d) (tot, n, lost) s =
    (if q \<in> lc_seq ` set (stored i a s) then (Inr (tot, n, lost), s)
     else (Inr (tot + int (length (cap_data cap tot d)), n + int (length (cap_data cap tot d)),
         lost \<or> length (cap_data cap tot d) < length d), with_chunk i a q (cap_data cap tot d) s))"
  using assms by (simp add: append_chunk_def Let_def tx_bind_run InsertLogChunk_def key_stored with_chunk_def)

lemma cap_data_bound: "tot + int (length (cap_data cap tot d)) \<le> max cap tot"
  by (auto simp: cap_data_def Let_def min_def)

lemma cap_data_all: "tot + int (length d) \<le> cap \<Longrightarrow> cap_data cap tot d = d"
  by (simp add: cap_data_def)

text \<open>The loop keeps the total it reads the cap against equal to the bytes in the table.\<close>

lemma append_fold_run:
  assumes "i \<in> j_id ` set (t_jobs s)" and "tot = log_bytes i a s"
  shows "\<exists>n' lost' s'. tx_fold (append_chunk cap i a) cs (tot, n, lost) s = (Inr (log_bytes i a s', n', lost'), s') \<and>
    n' - n = log_bytes i a s' - log_bytes i a s \<and> log_bytes i a s' \<le> max cap (log_bytes i a s) \<and>
    fst ` set cs \<subseteq> lc_seq ` set (stored i a s') \<and> (\<exists>new. s' = s\<lparr>t_chunks := t_chunks s @ new\<rparr> \<and>
      (\<forall>c \<in> set new. lc_job_id c = i \<and> lc_attempt c = a))"
  using assms
proof (induction cs arbitrary: s tot n lost)
  case Nil
  then show ?case by (auto intro!: exI [of _ "[]"])
next
  case (Cons c cs)
  obtain q d where c: "c = (q, d)" by (cases c)
  show ?case
  proof (cases "q \<in> lc_seq ` set (stored i a s)")
    case True
    then have one: "append_chunk cap i a c (tot, n, lost) s = (Inr (tot, n, lost), s)"
      using append_chunk_run [OF Cons.prems(1)] c by simp
    from Cons.IH [OF Cons.prems, of n lost] obtain n' lost' s' new
      where rest: "tx_fold (append_chunk cap i a) cs (tot, n, lost) s = (Inr (log_bytes i a s', n', lost'), s')"
        "n' - n = log_bytes i a s' - log_bytes i a s" "log_bytes i a s' \<le> max cap (log_bytes i a s)"
        "fst ` set cs \<subseteq> lc_seq ` set (stored i a s')" "s' = s\<lparr>t_chunks := t_chunks s @ new\<rparr>"
        "\<forall>c \<in> set new. lc_job_id c = i \<and> lc_attempt c = a" by blast
    have "q \<in> lc_seq ` set (stored i a s')" using True rest(5) by (auto simp: stored_def)
    with one rest c show ?thesis by (intro exI [of _ n'] exI [of _ lost'] exI [of _ s']) auto
  next
    case False
    define d' where "d' = cap_data cap tot d"
    define s1 where "s1 = with_chunk i a q d' s"
    have one: "append_chunk cap i a c (tot, n, lost) s = (Inr (tot + int (length d'), n + int (length d'), lost \<or> length d' < length d), s1)"
      using append_chunk_run [OF Cons.prems(1)] c False by (simp add: d'_def s1_def)
    have s1: "i \<in> j_id ` set (t_jobs s1)" "tot + int (length d') = log_bytes i a s1"
      using Cons.prems by (simp_all add: s1_def)
    from Cons.IH [OF s1, of "n + int (length d')" "lost \<or> length d' < length d"] obtain n' lost' s' new
      where rest: "tx_fold (append_chunk cap i a) cs (tot + int (length d'), n + int (length d'), lost \<or> length d' < length d) s1 =
          (Inr (log_bytes i a s', n', lost'), s')"
        "n' - (n + int (length d')) = log_bytes i a s' - log_bytes i a s1" "log_bytes i a s' \<le> max cap (log_bytes i a s1)"
        "fst ` set cs \<subseteq> lc_seq ` set (stored i a s')" "s' = s1\<lparr>t_chunks := t_chunks s1 @ new\<rparr>"
        "\<forall>c \<in> set new. lc_job_id c = i \<and> lc_attempt c = a" by blast
    have "q \<in> lc_seq ` set (stored i a s')" using rest(5) by (auto simp: s1_def with_chunk_def stored_def)
    moreover have "log_bytes i a s1 \<le> max cap (log_bytes i a s)"
      using cap_data_bound [of tot cap d] s1(2) Cons.prems(2) by (simp add: d'_def)
    moreover have "s' = s\<lparr>t_chunks := t_chunks s @ (\<lparr>lc_job_id = i, lc_attempt = a, lc_seq = q, lc_data = d'\<rparr> # new)\<rparr>"
      using rest(5) by (simp add: s1_def with_chunk_def)
    ultimately show ?thesis using one rest(1-4,6) c s1(2) Cons.prems(2)
      by (intro exI [of _ n'] exI [of _ lost'] exI [of _ s'] conjI
          exI [of _ "\<lparr>lc_job_id = i, lc_attempt = a, lc_seq = q, lc_data = d'\<rparr> # new"]) auto
  qed
qed

lemma append_fold_same:
  assumes "i \<in> j_id ` set (t_jobs s)" and "fst ` set cs \<subseteq> lc_seq ` set (stored i a s)"
  shows "tx_fold (append_chunk cap i a) cs (tot, n, lost) s = (Inr (tot, n, lost), s)"
  using assms(2)
proof (induction cs)
  case (Cons c cs)
  then show ?case using append_chunk_run [OF assms(1), of cap a "fst c" "snd c" tot n lost] by simp
qed simp

lemma append_tx_run:
  assumes inv: "store_inv s" and job: "job \<in> set (t_jobs s)" and run: "j_state job = JobRunning"
  shows "\<exists>s'. append_tx cap (j_id job) (j_attempt job) cs s = (Inr (log_bytes (j_id job) (j_attempt job) s' - log_bytes (j_id job) (j_attempt job) s), s') \<and>
    log_bytes (j_id job) (j_attempt job) s' \<le> max cap (log_bytes (j_id job) (j_attempt job) s) \<and>
    fst ` set cs \<subseteq> lc_seq ` set (stored (j_id job) (j_attempt job) s') \<and> t_jobs s' = t_jobs s \<and>
    (\<exists>new. t_chunks s' = t_chunks s @ new \<and> (\<forall>c \<in> set new. lc_job_id c = j_id job \<and> lc_attempt c = j_attempt job)) \<and>
    (t_events s' = t_events s \<or> (\<exists>e. t_events s' = t_events s @ [e] \<and> e_type e = EventLogsTruncated \<and>
       fst (HasJobEvent (j_run_id job) (j_id job) EventLogsTruncated (j_attempt job) s) = Inr False))"
proof -
  let ?i = "j_id job" and ?a = "j_attempt job"
  have mem: "?i \<in> j_id ` set (t_jobs s)" using job by simp
  from append_fold_run [OF mem refl, of cap ?a cs 0 False] obtain n lost s1 new
    where fold: "tx_fold (append_chunk cap ?i ?a) cs (log_bytes ?i ?a s, 0, False) s = (Inr (log_bytes ?i ?a s1, n, lost), s1)"
      and n: "n = log_bytes ?i ?a s1 - log_bytes ?i ?a s" and cap: "log_bytes ?i ?a s1 \<le> max cap (log_bytes ?i ?a s)"
      and seqs: "fst ` set cs \<subseteq> lc_seq ` set (stored ?i ?a s1)" and s1: "s1 = s\<lparr>t_chunks := t_chunks s @ new\<rparr>"
      and new: "\<forall>c \<in> set new. lc_job_id c = ?i \<and> lc_attempt c = ?a" by auto
  have find: "find (\<lambda>j. j_id j = ?i) (t_jobs s) = Some job" using find_keyed_Some [OF inv_distinct [OF inv] job] .
  define has where "has \<longleftrightarrow> (\<exists>e \<in> set (t_events s). e_run_id e = j_run_id job \<and> e_job_id e = Some ?i \<and> e_type e = EventLogsTruncated \<and>
    detail_attempt (e_detail e) = Some ?a)"
  have has: "HasJobEvent (j_run_id job) ?i EventLogsTruncated ?a s1 = (Inr has, s1)"
    "HasJobEvent (j_run_id job) ?i EventLogsTruncated ?a s = (Inr has, s)" by (simp_all add: HasJobEvent_def has_def s1)
  define s2 where "s2 = logged (j_run_id job) ?i EventLogsTruncated [(''attempt'', JInt ?a), (''cap_bytes'', JInt cap)] s1"
  have ev: "event (j_run_id job) ?i EventLogsTruncated [(''attempt'', JInt ?a), (''cap_bytes'', JInt cap)] s1 = (Inr (), s2)"
    unfolding s2_def by (rule event_run) (use inv_run_id [OF inv job] in \<open>simp_all add: EventLogsTruncated_def\<close>)
  have same: "stored ?i ?a s2 = stored ?i ?a s1" "log_bytes ?i ?a s2 = log_bytes ?i ?a s1"
    by (simp_all add: stored_def log_bytes_def s2_def)
  have "append_tx cap ?i ?a cs s = (Inr n, if lost \<and> \<not> has then s2 else s1)"
    using find run fold has(1) ev by (simp add: append_tx_def GetJob_def tx_bind_run LogBytes_run)
  moreover have "t_events s2 = t_events s @ [last (t_events s2)]" "e_type (last (t_events s2)) = EventLogsTruncated"
    "t_chunks s2 = t_chunks s @ new" "t_jobs s2 = t_jobs s"
    by (simp_all add: s2_def logged_def s1)
  ultimately show ?thesis using n cap seqs same new has(2) by (cases "lost \<and> \<not> has") (auto simp: s1)
qed

lemma inv_run_job: "store_inv s \<Longrightarrow> j \<in> set (t_jobs s) \<Longrightarrow> find (\<lambda>k. j_id k = j_id j) (t_jobs s) = Some j"
  by (rule find_keyed_Some [OF inv_distinct])

text \<open>
  Log cap. In every reachable state a batch from the running attempt is accepted whole; the
  attempt's stored bytes never pass the cap by it, the metric grows by what was stored, no chunk
  of another attempt and no job changes, at most one truncation event is added, and only if the
  attempt has none.
\<close>

theorem log_cap_respected:
  assumes "sys_init sv0" and "(sys_step decode)\<^sup>*\<^sup>* sv0 sv" and "j \<in> set (t_jobs (st (sv_sched sv)))"
    and "j_state j = JobRunning" and "\<forall>c \<in> set cs. 1 \<le> fst c"
  shows "\<exists>sc'. AppendLogs (sv_sched sv) (j_id j) (j_attempt j) cs = (Inr (), sc') \<and>
    log_bytes (j_id j) (j_attempt j) (st sc') \<le> max (logCap (sv_sched sv)) (log_bytes (j_id j) (j_attempt j) (st (sv_sched sv))) \<and>
    m_log_bytes (mx sc') - m_log_bytes (mx (sv_sched sv)) =
      log_bytes (j_id j) (j_attempt j) (st sc') - log_bytes (j_id j) (j_attempt j) (st (sv_sched sv)) \<and>
    fst ` set cs \<subseteq> lc_seq ` set (stored (j_id j) (j_attempt j) (st sc')) \<and> t_jobs (st sc') = t_jobs (st (sv_sched sv)) \<and>
    (\<exists>new. t_chunks (st sc') = t_chunks (st (sv_sched sv)) @ new \<and> (\<forall>c \<in> set new. lc_job_id c = j_id j \<and> lc_attempt c = j_attempt j)) \<and>
    (t_events (st sc') = t_events (st (sv_sched sv)) \<or> (\<exists>e. t_events (st sc') = t_events (st (sv_sched sv)) @ [e] \<and>
      e_type e = EventLogsTruncated \<and>
      fst (HasJobEvent (j_run_id j) (j_id j) EventLogsTruncated (j_attempt j) (st (sv_sched sv))) = Inr False))"
proof -
  have f: "find (\<lambda>c. fst c < 1) cs = None" using assms(5) by (auto simp: find_None_iff)
  from append_tx_run [OF reach_inv(1) [OF assms(1,2)] assms(3,4), of "logCap (sv_sched sv)" cs] obtain s'
    where r: "append_tx (logCap (sv_sched sv)) (j_id j) (j_attempt j) cs (st (sv_sched sv)) =
      (Inr (log_bytes (j_id j) (j_attempt j) s' - log_bytes (j_id j) (j_attempt j) (st (sv_sched sv))), s')"
      and s': "log_bytes (j_id j) (j_attempt j) s' \<le> max (logCap (sv_sched sv)) (log_bytes (j_id j) (j_attempt j) (st (sv_sched sv)))"
        "fst ` set cs \<subseteq> lc_seq ` set (stored (j_id j) (j_attempt j) s')" "t_jobs s' = t_jobs (st (sv_sched sv))"
        "\<exists>new. t_chunks s' = t_chunks (st (sv_sched sv)) @ new \<and> (\<forall>c \<in> set new. lc_job_id c = j_id j \<and> lc_attempt c = j_attempt j)"
        "t_events s' = t_events (st (sv_sched sv)) \<or> (\<exists>e. t_events s' = t_events (st (sv_sched sv)) @ [e] \<and>
          e_type e = EventLogsTruncated \<and>
          fst (HasJobEvent (j_run_id j) (j_id j) EventLogsTruncated (j_attempt j) (st (sv_sched sv))) = Inr False)" by blast
  show ?thesis
    by (rule exI [of _ "(sv_sched sv)\<lparr>st := s', mx := (mx (sv_sched sv))\<lparr>m_log_bytes := m_log_bytes (mx (sv_sched sv)) +
        (log_bytes (j_id j) (j_attempt j) s' - log_bytes (j_id j) (j_attempt j) (st (sv_sched sv)))\<rparr>\<rparr>"])
      (use r s' f in \<open>simp add: AppendLogs_def Tx_def\<close>)
qed

theorem log_cap_respected_witness:
  "\<exists>sc. AppendLogs (sv_sched demo_sv4) ''4'' 2 [(1, ''abc''), (2, ''def'')] = (Inr (), sc) \<and>
     log_bytes ''4'' 2 (st sc) \<le> max (logCap (sv_sched demo_sv4)) (log_bytes ''4'' 2 (st (sv_sched demo_sv4)))"
proof -
  obtain j where j: "j \<in> set (t_jobs (st (sv_sched demo_sv4)))" "j_id j = ''4''" "j_state j = JobRunning" "j_attempt j = 2"
    by (rule demo_running)
  from log_cap_respected [OF demo_sv0_init demo_reach(4) j(1,3), of "[(1, ''abc''), (2, ''def'')]"] j(2,4) show ?thesis by auto
qed

text \<open>
  Redelivery of a batch. Sending an accepted batch again is accepted and changes nothing, the metrics and
  the audit log included.
\<close>

theorem AppendLogs_redelivered:
  assumes "store_inv (st sc)" and "AppendLogs sc i a cs = (Inr (), sc')"
  shows "AppendLogs sc' i a cs = (Inr (), sc')"
proof -
  from assms(2) obtain n s' where f: "find (\<lambda>c. fst c < 1) cs = None"
    and tx: "append_tx (logCap sc) i a cs (st sc) = (Inr n, s')"
    and sc': "sc' = sc\<lparr>st := s', mx := (mx sc)\<lparr>m_log_bytes := m_log_bytes (mx sc) + n\<rparr>\<rparr>"
    by (auto simp: AppendLogs_def Tx_def split: option.splits prod.splits sum.splits)
  from tx obtain job where "find (\<lambda>j. j_id j = i) (t_jobs (st sc)) = Some job" and run: "j_state job = JobRunning" "j_attempt job = a"
    by (auto simp: append_tx_def GetJob_def tx_bind_run split: option.splits if_splits)
  then have job: "job \<in> set (t_jobs (st sc))" "j_id job = i" by (auto simp: find_Some_iff)
  from append_tx_run [OF assms(1) job(1) run(1), of "logCap sc" cs] tx job(2) run(2)
  have s': "t_jobs s' = t_jobs (st sc)" "fst ` set cs \<subseteq> lc_seq ` set (stored i a s')" by auto
  have find: "find (\<lambda>j. j_id j = i) (t_jobs s') = Some job" using inv_run_job [OF assms(1) job(1)] s'(1) job(2) by simp
  have mem: "i \<in> j_id ` set (t_jobs s')" using job s'(1) by auto
  have "append_tx (logCap sc) i a cs s' = (Inr 0, s')"
    using find run append_fold_same [OF mem s'(2)] by (simp add: append_tx_def GetJob_def tx_bind_run LogBytes_run)
  then show ?thesis using f by (simp add: sc' AppendLogs_def Tx_def)
qed

theorem AppendLogs_redelivered_witness:
  "\<exists>sc. AppendLogs (sv_sched demo_sv4) ''4'' 2 [(1, ''abc''), (2, ''def'')] = (Inr (), sc) \<and>
     AppendLogs sc ''4'' 2 [(1, ''abc''), (2, ''def'')] = (Inr (), sc)"
proof -
  obtain j where j: "j \<in> set (t_jobs (st (sv_sched demo_sv4)))" "j_id j = ''4''" "j_state j = JobRunning" "j_attempt j = 2"
    by (rule demo_running)
  note inv = reach_inv(1) [OF demo_sv0_init demo_reach(4)]
  from append_tx_run [OF inv j(1,3)] j(2,4) obtain s' n
    where "append_tx (logCap (sv_sched demo_sv4)) ''4'' 2 [(1, ''abc''), (2, ''def'')] (st (sv_sched demo_sv4)) = (Inr n, s')" by metis
  then obtain sc where "AppendLogs (sv_sched demo_sv4) ''4'' 2 [(1, ''abc''), (2, ''def'')] = (Inr (), sc)"
    by (simp add: AppendLogs_def Tx_def)
  with AppendLogs_redelivered [OF inv this] show ?thesis by blast
qed


section \<open>From the shipper to the reader\<close>

text \<open>The runner's sink: one batch is one request carrying the attempt (agent.go, \<open>logSink\<close>).\<close>

definition log_batch :: "Chunk list \<Rightarrow> (int \<times> bytes) list" where
  "log_batch chunks = map (\<lambda>c. (c_seq c, c_data c)) chunks"

text \<open>
  The batches of one shipper on their way into the server: each is a request that was answered
  204 (its answer may have been lost), with \<open>n\<close> bytes within the cap of the server it met. Between
  them the server takes any other steps, restarts included, as long as nobody else writes logs for
  the attempt.
\<close>

inductive shipped :: "(string \<Rightarrow> yaml_result) \<Rightarrow> string \<Rightarrow> int \<Rightarrow> int \<Rightarrow> server \<Rightarrow> Chunk list list \<Rightarrow> server \<Rightarrow> bool"
  for decode i a n sv0 where
  nothing_yet: "shipped decode i a n sv0 [] sv0"
| batch_taken: "shipped decode i a n sv0 bs sv \<Longrightarrow> n \<le> logCap (sv_sched sv) \<Longrightarrow>
    withToken sv hdr (handleAppendLogs i (BodyOK (runnerID, a, log_batch b))) = ((204, x), sv') \<Longrightarrow>
    shipped decode i a n sv0 (bs @ [b]) sv'"
| elsewhere: "shipped decode i a n sv0 bs sv \<Longrightarrow> sys_step decode sv sv' \<Longrightarrow>
    filter (\<lambda>c. lc_job_id c = i \<and> lc_attempt c = a) (t_chunks (st (sv_sched sv'))) =
      filter (\<lambda>c. lc_job_id c = i \<and> lc_attempt c = a) (t_chunks (st (sv_sched sv))) \<Longrightarrow>
    shipped decode i a n sv0 bs sv'"

definition pairs :: "string \<Rightarrow> int \<Rightarrow> store \<Rightarrow> (int \<times> bytes) list" where
  "pairs i a s = map (\<lambda>c. (lc_seq c, lc_data c)) (stored i a s)"

text \<open>\<open>fitting\<close>: one datum per number, numbers from one, and all of it within the cap.\<close>

definition fitting :: "int \<Rightarrow> (int \<times> bytes) set \<Rightarrow> bool" where
  "fitting cap P \<longleftrightarrow> finite P \<and> inj_on fst P \<and> (\<forall>x \<in> P. 1 \<le> fst x) \<and> (\<Sum>x \<in> P. int (length (snd x))) \<le> cap"

lemma pairs_seqs: "lc_seq ` set (stored i a s) = fst ` set (pairs i a s)"
  by (force simp: pairs_def)

lemma pairs_bytes:
  assumes "distinct (map fst (pairs i a s))"
  shows "log_bytes i a s = (\<Sum>x \<in> set (pairs i a s). int (length (snd x)))"
proof -
  have "log_bytes i a s = sum_list (map (\<lambda>x. int (length (snd x))) (pairs i a s))"
    by (simp add: log_bytes_def pairs_def comp_def)
  moreover have "distinct (pairs i a s)" using assms by (simp add: distinct_map)
  ultimately show ?thesis by (simp add: sum_list_distinct_conv_sum_set)
qed

lemma pairs_with_chunk [simp]: "pairs i a (with_chunk i a q d s) = pairs i a s @ [(q, d)]"
  by (simp add: pairs_def)

lemma fold_uncapped:
  assumes "fitting cap P" and "i \<in> j_id ` set (t_jobs s)" and "distinct (map fst (pairs i a s))"
    and "set (pairs i a s) \<subseteq> P" and "set cs \<subseteq> P" and "tot = log_bytes i a s"
  shows "\<exists>tot' n' s'. tx_fold (append_chunk cap i a) cs (tot, n, lost) s = (Inr (tot', n', lost), s') \<and> t_jobs s' = t_jobs s \<and>
    distinct (map fst (pairs i a s')) \<and> set (pairs i a s') = set (pairs i a s) \<union> set cs"
  using assms(2-6)
proof (induction cs arbitrary: s tot n)
  case Nil
  then show ?case by auto
next
  case (Cons c cs)
  obtain q d where c: "c = (q, d)" by (cases c)
  show ?case
  proof (cases "q \<in> fst ` set (pairs i a s)")
    case True
    then obtain d' where "(q, d') \<in> set (pairs i a s)" by auto
    with Cons.prems(3,4) c assms(1) have "(q, d) \<in> set (pairs i a s)"
      by (auto simp: fitting_def dest!: inj_onD [of fst P "(q, d')" "(q, d)"])
    moreover have "append_chunk cap i a c (tot, n, lost) s = (Inr (tot, n, lost), s)"
      using append_chunk_run [OF Cons.prems(1)] c True by (simp add: pairs_seqs)
    ultimately show ?thesis using Cons.IH [OF Cons.prems(1-3) _ Cons.prems(5), of n] Cons.prems(4) c by auto
  next
    case False
    have "(\<Sum>x \<in> insert (q, d) (set (pairs i a s)). int (length (snd x))) \<le> (\<Sum>x \<in> P. int (length (snd x)))"
      using assms(1) Cons.prems(3,4) c by (intro sum_mono2) (auto simp: fitting_def)
    moreover have "(q, d) \<notin> set (pairs i a s)" using False by force
    ultimately have room: "tot + int (length d) \<le> cap"
      using assms(1) pairs_bytes [OF Cons.prems(2)] Cons.prems(5) by (simp add: fitting_def)
    define s1 where "s1 = with_chunk i a q d s"
    have one: "append_chunk cap i a c (tot, n, lost) s = (Inr (tot + int (length d), n + int (length d), lost), s1)"
      using append_chunk_run [OF Cons.prems(1)] c False cap_data_all [OF room] by (simp add: pairs_seqs s1_def)
    have s1: "i \<in> j_id ` set (t_jobs s1)" "distinct (map fst (pairs i a s1))" "set (pairs i a s1) \<subseteq> P" "set cs \<subseteq> P"
      "tot + int (length d) = log_bytes i a s1" "t_jobs s1 = t_jobs s" "set (pairs i a s1) = insert (q, d) (set (pairs i a s))"
      using Cons.prems c False by (auto simp: s1_def)
    from Cons.IH [OF s1(1-5), of "n + int (length d)"] one s1(6,7) c show ?thesis by auto
  qed
qed

lemma AppendLogs_uncapped:
  assumes "fitting (logCap sc) P" and "find (\<lambda>k. j_id k = i) (t_jobs (st sc)) = Some j" and "j_state j = JobRunning"
    and "j_attempt j = a" and "distinct (map fst (pairs i a (st sc)))" and "set (pairs i a (st sc)) \<subseteq> P" and "set cs \<subseteq> P"
  shows "\<exists>sc'. AppendLogs sc i a cs = (Inr (), sc') \<and> logCap sc' = logCap sc \<and> t_jobs (st sc') = t_jobs (st sc) \<and>
    distinct (map fst (pairs i a (st sc'))) \<and> set (pairs i a (st sc')) = set (pairs i a (st sc)) \<union> set cs"
proof -
  have "i \<in> j_id ` set (t_jobs (st sc))" using assms(2) by (auto simp: find_Some_iff)
  from fold_uncapped [OF assms(1) this assms(5-7) refl, of 0 False] obtain tot n s'
    where "tx_fold (append_chunk (logCap sc) i a) cs (log_bytes i a (st sc), 0, False) (st sc) = (Inr (tot, n, False), s')"
      and s': "t_jobs s' = t_jobs (st sc)" "distinct (map fst (pairs i a s'))"
        "set (pairs i a s') = set (pairs i a (st sc)) \<union> set cs" by blast
  then have "append_tx (logCap sc) i a cs (st sc) = (Inr n, s')"
    using assms(2-4) by (simp add: append_tx_def GetJob_def tx_bind_run LogBytes_run)
  moreover have "find (\<lambda>c. fst c < 1) cs = None" using assms(1,7) by (fastforce simp: find_None_iff fitting_def)
  ultimately show ?thesis using s' by (simp add: AppendLogs_def Tx_def)
qed

lemma fitting_mono: "fitting n P \<Longrightarrow> n \<le> cap \<Longrightarrow> fitting cap P"
  by (auto simp: fitting_def)

lemma logs_taken:
  assumes "withToken sv hdr (handleAppendLogs i (BodyOK (runnerID, a, cs))) = ((204, x), sv')"
  obtains sc j where "AppendLogs (sv_sched sv) i a cs = (Inr (), sc)" and "sv' = sv\<lparr>sv_sched := sc\<rparr>"
    and "find (\<lambda>k. j_id k = i) (t_jobs (st (sv_sched sv))) = Some j" and "j_state j = JobRunning" and "j_attempt j = a"
proof -
  from assms obtain sc where sc: "AppendLogs (sv_sched sv) i a cs = (Inr (), sc)" "sv' = sv\<lparr>sv_sched := sc\<rparr>"
    by (auto simp: withToken_def handleAppendLogs_def decodeBody_def runner_status_def
        split: if_splits prod.splits sum.splits err.splits)
  then obtain m s' where "append_tx (logCap (sv_sched sv)) i a cs (st (sv_sched sv)) = (Inr m, s')"
    by (auto simp: AppendLogs_def Tx_def split: option.splits prod.splits sum.splits)
  then obtain j where "find (\<lambda>k. j_id k = i) (t_jobs (st (sv_sched sv))) = Some j" "j_state j = JobRunning" "j_attempt j = a"
    by (auto simp: append_tx_def GetJob_def tx_bind_run split: option.splits if_splits)
  with sc show thesis by (rule that)
qed

lemma shipped_reach: "shipped decode i a n sv0 bs sv \<Longrightarrow> (sys_step decode)\<^sup>*\<^sup>* sv0 sv"
  by (induction rule: shipped.induct) (auto intro: rtranclp.rtrancl_into_rtrancl do_logs)

lemma shipped_pairs:
  assumes "shipped decode i a n sv0 bs sv" and "pairs i a (st (sv_sched sv0)) = []" and "fitting n P"
    and "\<forall>b \<in> set bs. set (log_batch b) \<subseteq> P"
  shows "distinct (map fst (pairs i a (st (sv_sched sv)))) \<and> set (pairs i a (st (sv_sched sv))) = set (log_batch (concat bs))"
  using assms
proof (induction rule: shipped.induct)
  case nothing_yet
  then show ?case by (simp add: log_batch_def)
next
  case (batch_taken bs sv hdr runnerID b x sv')
  from logs_taken [OF batch_taken(3)] obtain sc j where tx: "AppendLogs (sv_sched sv) i a (log_batch b) = (Inr (), sc)"
    and sv': "sv' = sv\<lparr>sv_sched := sc\<rparr>" and job: "find (\<lambda>k. j_id k = i) (t_jobs (st (sv_sched sv))) = Some j"
      "j_state j = JobRunning" "j_attempt j = a" .
  from batch_taken have IH: "distinct (map fst (pairs i a (st (sv_sched sv))))"
    "set (pairs i a (st (sv_sched sv))) = set (log_batch (concat bs))" by simp_all
  have sub: "set (log_batch (concat bs)) \<subseteq> P" using batch_taken.prems(3) by (force simp: log_batch_def)
  from AppendLogs_uncapped [OF fitting_mono [OF batch_taken.prems(2) batch_taken(2)] job IH(1), of "log_batch b"] sub IH(2)
    batch_taken.prems(3) tx sv' show ?case by (auto simp: log_batch_def)
next
  case (elsewhere bs sv sv')
  then show ?case by (simp add: pairs_def stored_def)
qed

lemma logs_page_attempt: "lr_attempt (logs_page a n cs) = a"
proof -
  have "lr_attempt (foldl (\<lambda>out c. out\<lparr>lr_chunks := lr_chunks out @ [(lc_seq c, lc_data c)], lr_next := lc_seq c\<rparr>) p cs) =
      lr_attempt p" for p :: logsResponse
    by (induction cs arbitrary: p) simp_all
  then show ?thesis by (simp add: logs_page_def)
qed

lemma logs_page_chunks: "lr_chunks (logs_page a n cs) = map (\<lambda>c. (lc_seq c, lc_data c)) cs"
proof -
  have "lr_chunks (foldl (\<lambda>out c. out\<lparr>lr_chunks := lr_chunks out @ [(lc_seq c, lc_data c)], lr_next := lc_seq c\<rparr>) p cs) =
      lr_chunks p @ map (\<lambda>c. (lc_seq c, lc_data c)) cs" for p :: logsResponse
    by (induction cs arbitrary: p) simp_all
  then show ?thesis by (simp add: logs_page_def)
qed

lemma chunk_numbers:
  assumes "map c_seq cs = [1..int (length cs)]"
  shows "distinct (map fst (log_batch cs))" and "\<forall>x \<in> set (log_batch cs). 1 \<le> fst x"
    and "map fst (log_batch cs) = [1..int (length (log_batch cs))]"
proof -
  have keys: "map fst (log_batch cs) = [1..int (length cs)]" using assms by (simp add: log_batch_def comp_def)
  then show "distinct (map fst (log_batch cs))" and "map fst (log_batch cs) = [1..int (length (log_batch cs))]"
    by (simp_all add: log_batch_def)
  show "\<forall>x \<in> set (log_batch cs). 1 \<le> fst x"
  proof
    fix x assume "x \<in> set (log_batch cs)"
    then have "fst x \<in> set (map fst (log_batch cs))" by simp
    then show "1 \<le> fst x" unfolding keys by simp
  qed
qed

lemma chunks_fit:
  assumes "map c_seq cs = [1..int (length cs)]"
  shows "fitting (int (length (concat (map c_data cs)))) (set (log_batch cs))"
proof -
  note nums = chunk_numbers [OF assms]
  have "(\<Sum>x \<in> set (log_batch cs). int (length (snd x))) = sum_list (map (\<lambda>x. int (length (snd x))) (log_batch cs))"
    using nums(1) by (simp add: sum_list_distinct_conv_sum_set distinct_map)
  also have "\<dots> = int (length (concat (map c_data cs)))" unfolding log_batch_def by (induction cs) simp_all
  finally show ?thesis using nums(1,2) by (simp add: fitting_def distinct_map)
qed

text \<open>Reading an attempt whose stored chunks are the given ones, in whatever order they arrived.\<close>

lemma pages_read_back:
  assumes job: "find (\<lambda>k. j_id k = i) (t_jobs (st (sv_sched sv))) = Some j" and "0 < a"
    and cs: "map c_seq cs = [1..int (length cs)]"
    and dist: "distinct (map fst (pairs i a (st (sv_sched sv))))" and sets: "set (pairs i a (st (sv_sched sv))) = set (log_batch cs)"
  shows "\<exists>page. handleGetLogs i (Number a) Absent sv = ((200, Some page), sv) \<and> lr_attempt page = a \<and> lr_chunks page = log_batch cs"
proof -
  let ?s = "st (sv_sched sv)"
  note nums = chunk_numbers [OF cs]
  define page where "page = sort_key lc_seq (stored i a ?s)"
  have "map (\<lambda>c. (lc_seq c, lc_data c)) page = log_batch cs"
  proof (rule map_sorted_distinct_set_unique [of fst])
    show "set (map (\<lambda>c. (lc_seq c, lc_data c)) page) = set (log_batch cs)"
      using sets by (simp add: page_def pairs_def)
    then show "inj_on fst (set (map (\<lambda>c. (lc_seq c, lc_data c)) page) \<union> set (log_batch cs))"
      using nums(1) by (simp add: distinct_map)
    show "distinct (map fst (map (\<lambda>c. (lc_seq c, lc_data c)) page))"
      using dist by (simp add: page_def pairs_def comp_def distinct_map)
    show "sorted (map fst (map (\<lambda>c. (lc_seq c, lc_data c)) page))" by (simp add: page_def comp_def)
  qed (simp_all add: nums(3))
  moreover have "sort_key lc_seq (filter (\<lambda>c. lc_job_id c = i \<and> lc_attempt c = a \<and> 0 < lc_seq c) (t_chunks ?s)) = page"
  proof -
    have "0 < lc_seq c" if "c \<in> set (stored i a ?s)" for c
      using that sets nums(2) by (force simp: pairs_def)
    then have "filter (\<lambda>c. lc_job_id c = i \<and> lc_attempt c = a \<and> 0 < lc_seq c) (t_chunks ?s) = stored i a ?s"
      by (auto simp: stored_def intro!: filter_cong)
    then show ?thesis by (simp add: page_def)
  qed
  moreover have "j_id j = i" using job by (auto simp: find_Some_iff)
  ultimately show ?thesis using job assms(2)
    by (intro exI [of _ "logs_page a 0 page"])
      (simp add: handleGetLogs_def GetJob_def attemptParam_def afterParam_def ListLogChunks_def listed_def logs_page_chunks logs_page_attempt)
qed

text \<open>
  Histories of a shipper in which every write found room: \<open>out\<close> is what was written. The other
  steps neither add to the stream nor count bytes as dropped.
\<close>

inductive lossless :: "ship_sys \<Rightarrow> char list \<Rightarrow> ship_sys \<Rightarrow> bool" for y0 where
  idle: "lossless y0 [] y0"
| wrote: "lossless y0 out y \<Longrightarrow> \<not> sh_closed (y_ship y) \<Longrightarrow> \<not> sh_stale (y_ship y) \<Longrightarrow>
    int (length p) \<le> MaxBuffered (sh_cfg (y_ship y)) - sh_buffered (y_ship y) \<Longrightarrow>
    lossless y0 (out @ p) (y\<lparr>y_ship := snd (Write p (y_ship y)), y_stream := y_stream y @ accepted p (y_ship y)\<rparr>)"
| moved: "lossless y0 out y \<Longrightarrow> ship_step y y' \<Longrightarrow> y_stream y' = y_stream y \<Longrightarrow>
    sh_dropped (y_ship y') \<le> sh_dropped (y_ship y) \<Longrightarrow> lossless y0 out y'"

lemma lossless_stream:
  assumes "lossless y0 out y" and "ship_init y0"
  shows "ship_step\<^sup>*\<^sup>* y0 y \<and> y_stream y = out \<and> sh_dropped (y_ship y) = 0"
  using assms
proof (induction rule: lossless.induct)
  case idle
  then show ?case by (auto simp: ship_init_def ship_New_def Let_def)
next
  case (wrote out y p)
  then have IH: "ship_step\<^sup>*\<^sup>* y0 y" "y_stream y = out" "sh_dropped (y_ship y) = 0" by simp_all
  then have ok: "ship_ok (y_ship y)" using shipping.reachable_I [OF wrote.prems] by (simp add: ship_inv_def)
  have "accepted p (y_ship y) = p" using wrote IH(3) by (simp add: accepted_def)
  moreover have "sh_dropped (snd (Write p (y_ship y))) = 0"
    using wrote IH(3) append_facts(4) [OF ok, of p] by (auto simp: Write_def Let_def simp flip: length_0_conv)
  moreover have "ship_step\<^sup>*\<^sup>* y0 (y\<lparr>y_ship := snd (Write p (y_ship y)), y_stream := y_stream y @ accepted p (y_ship y)\<rparr>)"
    by (rule rtranclp.rtrancl_into_rtrancl [OF IH(1) at_write])
  ultimately show ?case using IH by simp
next
  case (moved out y y')
  then have "ship_step\<^sup>*\<^sup>* y0 y'" by (meson rtranclp.rtrancl_into_rtrancl)
  moreover have "0 \<le> sh_dropped (y_ship y')"
    using shipping.reachable_I [OF moved.prems \<open>ship_step\<^sup>*\<^sup>* y0 y'\<close>] by (simp add: ship_inv_def ship_ok_def)
  ultimately show ?case using moved by simp
qed

text \<open>
  C19. Logs end to end. Let a job write through its runner's shipper, with any interleaving of writes,
  retries and lost answers, and let the server take the batches that reached it, between any other
  requests, monitor passes and restarts. When \<open>Close\<close> reports success and the stream was within
  the cap of the server at each batch, reading the attempt's logs returns exactly the stream the
  shipper accepted, in chunks numbered from one. That stream is what the job wrote when every
  write found room; bytes that found none are replaced by a marker with their number.
\<close>

theorem logs_end_to_end:
  assumes "sys_init sv0" and "(sys_step decode)\<^sup>*\<^sup>* sv0 sv" and "j \<in> set (t_jobs (st (sv_sched sv)))"
    and "j_state j = JobRunning"
    and "\<forall>c \<in> set (t_chunks (st (sv_sched sv))). (lc_job_id c, lc_attempt c) \<noteq> (j_id j, j_attempt j)"
    and "ship_init y0" and "ship_step\<^sup>*\<^sup>* y0 y" and "close_error (y_ship y) = CloseOK"
    and "shipped decode (j_id j) (j_attempt j) (int (length (y_stream y))) sv (y_stored y) sv'"
  shows "\<exists>page. handleGetLogs (j_id j) (Number (j_attempt j)) Absent sv' = ((200, Some page), sv') \<and>
      lr_attempt page = j_attempt j \<and> map fst (lr_chunks page) = [1..int (length (lr_chunks page))] \<and>
      concat (map snd (lr_chunks page)) = y_stream y \<and> (\<forall>out. lossless y0 out y \<longrightarrow> y_stream y = out)"
proof -
  let ?i = "j_id j" and ?a = "j_attempt j"
  from close_complete [OF assms(6-8)] obtain cs where cs: "map c_seq cs = [1..int (length cs)]"
    "set cs = set (concat (y_stored y))" "concat (map c_data cs) = y_stream y" by blast
  have none: "pairs ?i ?a (st (sv_sched sv)) = []" using assms(5) by (auto simp: pairs_def stored_def filter_empty_conv)
  have sub: "\<forall>b \<in> set (y_stored y). set (log_batch b) \<subseteq> set (log_batch cs)" using cs(2) by (auto simp: log_batch_def)
  from shipped_pairs [OF assms(9) none chunks_fit [OF cs(1), unfolded cs(3)] sub]
  have dist: "distinct (map fst (pairs ?i ?a (st (sv_sched sv'))))"
    and sets: "set (pairs ?i ?a (st (sv_sched sv'))) = set (log_batch cs)" using cs(2) by (auto simp: log_batch_def)
  note reach = shipped_reach [OF assms(9)]
  have "job_wf j" using reach_inv(1) [OF assms(1,2)] assms(3) by (simp add: store_inv_def base_def)
  then have a: "0 < ?a" using assms(4) by (auto simp: job_wf_def)
  from grows_row [OF reachable_grows [OF assms(1,2) reach] assms(3)] obtain k
    where k: "k \<in> set (t_jobs (st (sv_sched sv')))" "job_step\<^sup>*\<^sup>* j k" by blast
  have "find (\<lambda>q. j_id q = ?i) (t_jobs (st (sv_sched sv'))) = Some k"
    using inv_run_job [OF reach_inv(1) [OF assms(1) rtranclp_trans [OF assms(2) reach]] k(1)] job_steps_static [OF k(2)] by simp
  from pages_read_back [OF this a cs(1) dist sets] obtain page
    where page: "handleGetLogs ?i (Number ?a) Absent sv' = ((200, Some page), sv')" "lr_attempt page = ?a"
      "lr_chunks page = log_batch cs" by blast
  have "concat (map snd (log_batch cs)) = y_stream y" using cs(3) by (simp add: log_batch_def comp_def)
  with page chunk_numbers(3) [OF cs(1)] lossless_stream [OF _ assms(6)] show ?thesis by auto
qed

text \<open>A batch for the running attempt is taken; the rows of the jobs stay.\<close>

lemma logs_accepted:
  assumes inv: "store_inv (st (sv_sched sv))" and j: "j \<in> set (t_jobs (st (sv_sched sv)))" "j_state j = JobRunning"
    and "requireToken (sv_token sv) hdr" and "runnerID \<noteq> []" and "\<forall>c \<in> set cs. 1 \<le> fst c"
  obtains sv' where "withToken sv hdr (handleAppendLogs (j_id j) (BodyOK (runnerID, j_attempt j, cs))) = ((204, None), sv')"
    and "t_jobs (st (sv_sched sv')) = t_jobs (st (sv_sched sv))" and "sv_token sv' = sv_token sv"
proof -
  have "job_wf j" using inv j(1) by (simp add: store_inv_def base_def)
  then have a: "0 < j_attempt j" using j(2) by (auto simp: job_wf_def)
  from append_tx_run [OF inv j, of "logCap (sv_sched sv)" cs] obtain n s'
    where tx: "append_tx (logCap (sv_sched sv)) (j_id j) (j_attempt j) cs (st (sv_sched sv)) = (Inr n, s')"
      and jobs: "t_jobs s' = t_jobs (st (sv_sched sv))" by blast
  have "find (\<lambda>c. fst c < 1) cs = None" using assms(6) by (auto simp: find_None_iff)
  with tx obtain sc where sc: "AppendLogs (sv_sched sv) (j_id j) (j_attempt j) cs = (Inr (), sc)" "st sc = s'"
    by (simp add: AppendLogs_def Tx_def)
  show thesis
    by (rule that [of "sv\<lparr>sv_sched := sc\<rparr>"])
      (use sc jobs a assms(4,5) in \<open>simp_all add: withToken_def handleAppendLogs_def decodeBody_def\<close>)
qed

text \<open>The two deliveries of the example shipper, the second after a lost answer and a restart of the server.\<close>

lemma handlers_keep_token:
  "sv_token (snd (handleClaim c sv)) = sv_token sv" "sv_token (snd (handleComplete i d sv)) = sv_token sv"
  "sv_token (snd (handleSubmitRun decode newID b sv)) = sv_token sv"
  by (auto simp: handleClaim_def handleComplete_def handleSubmitRun_def Let_def split: sum.splits prod.splits option.splits read_error.splits)

lemma demo_sv4_token: "sv_token demo_sv4 = ''token''"
  by (simp add: demo_sv4_def demo_sv3_def demo_sv2_def demo_sv1_def demo_sv0_def withToken_def handlers_keep_token)

lemma demo_batches:
  "y_stored demo_y5 = [y_stored demo_y5 ! 0, y_stored demo_y5 ! 1]"
  "list_all (\<lambda>b. list_all (\<lambda>c. 1 \<le> fst c) (log_batch b)) (y_stored demo_y5)"
  by code_simp+

lemma demo_sv4_header: "requireToken (sv_token demo_sv4) demo_header"
  unfolding demo_sv4_token by code_simp

lemma demo_shipped:
  obtains sv' where "shipped demo_decode ''4'' 2 3 demo_sv4 (y_stored demo_y5) sv'"
proof -
  obtain j where j: "j \<in> set (t_jobs (st (sv_sched demo_sv4)))" "j_id j = ''4''" "j_state j = JobRunning" "j_attempt j = 2"
    by (rule demo_running)
  have pos: "\<forall>c \<in> set (log_batch (y_stored demo_y5 ! k)). 1 \<le> fst c" if "k = 0 \<or> k = 1" for k
  proof -
    have "y_stored demo_y5 ! k \<in> set (y_stored demo_y5)" using that by (subst (2) demo_batches(1)) auto
    then show ?thesis using demo_batches(2) by (simp add: list_all_iff)
  qed
  let ?restart = "\<lambda>sv. sv\<lparr>sv_sched := New (st (sv_sched sv)) new_metrics demo_cfg\<rparr>"
  from logs_accepted [OF reach_inv(1) [OF demo_sv0_init demo_reach(4)] j(1,3) demo_sv4_header, of "''r1''", OF _ pos [of 0]]
  obtain sv1 where one: "withToken demo_sv4 demo_header (handleAppendLogs ''4'' (BodyOK (''r1'', 2, log_batch (y_stored demo_y5 ! 0)))) = ((204, None), sv1)"
    and sv1: "t_jobs (st (sv_sched sv1)) = t_jobs (st (sv_sched demo_sv4))" "sv_token sv1 = sv_token demo_sv4"
    unfolding j(2,4) by auto
  have s1: "shipped demo_decode ''4'' 2 3 demo_sv4 ([] @ [y_stored demo_y5 ! 0]) sv1"
    by (rule batch_taken [OF nothing_yet _ one]) (simp add: demo_jobs(4))
  have s2: "shipped demo_decode ''4'' 2 3 demo_sv4 ([] @ [y_stored demo_y5 ! 0]) (?restart sv1)"
    by (rule elsewhere [OF s1 do_restart]) (simp add: New_def Let_def)
  have cap: "3 \<le> logCap (sv_sched (?restart sv1))" by (simp add: New_def Let_def or_default_def demo_cfg_def)
  have "j \<in> set (t_jobs (st (sv_sched (?restart sv1))))" "requireToken (sv_token (?restart sv1)) demo_header"
    using j(1) sv1 demo_sv4_header by (simp_all add: New_def Let_def)
  from logs_accepted [OF reach_inv(1) [OF demo_sv0_init rtranclp_trans [OF demo_reach(4) shipped_reach [OF s2]]] this(1) j(3) this(2),
      of "''r1''", OF _ pos [of 1]]
  obtain sv2 where two: "withToken (?restart sv1) demo_header (handleAppendLogs ''4'' (BodyOK (''r1'', 2, log_batch (y_stored demo_y5 ! 1)))) = ((204, None), sv2)"
    unfolding j(2,4) by auto
  have "([] @ [y_stored demo_y5 ! 0]) @ [y_stored demo_y5 ! 1] = y_stored demo_y5"
    by (simp only: append_Nil append_Cons demo_batches(1) [symmetric])
  with batch_taken [OF s2 cap two] show thesis by (metis that)
qed

theorem logs_end_to_end_witness:
  "\<exists>page sv'. shipped demo_decode ''4'' 2 3 demo_sv4 (y_stored demo_y5) sv' \<and>
     handleGetLogs ''4'' (Number 2) Absent sv' = ((200, Some page), sv') \<and> concat (map snd (lr_chunks page)) = ''abc''"
proof -
  obtain j where j: "j \<in> set (t_jobs (st (sv_sched demo_sv4)))" "j_id j = ''4''" "j_state j = JobRunning" "j_attempt j = 2"
    by (rule demo_running)
  have y: "close_error (y_ship demo_y5) = CloseOK" "y_stream demo_y5 = ''abc''" by code_simp+
  obtain sv' where sh: "shipped demo_decode ''4'' 2 3 demo_sv4 (y_stored demo_y5) sv'" by (rule demo_shipped)
  then have "shipped demo_decode (j_id j) (j_attempt j) (int (length (y_stream demo_y5))) demo_sv4 (y_stored demo_y5) sv'"
    using j(2,4) y(2) by simp
  from logs_end_to_end [OF demo_sv0_init demo_reach(4) j(1,3) _ demo_ship_reach y(1) this] demo_jobs(3) sh y(2) j(2,4)
  show ?thesis by auto
qed

end
