(* ===== verification/Requests.thy ===== *)
theory Requests
  imports Settle
begin

text \<open>
  The handlers a client sees, end to end: what a submission stores and what a rejected one leaves
  behind, artifacts from upload to download, registration, authentication.
\<close>


section \<open>Submission\<close>

text \<open>The pipeline document a body carries: all of a plain body, the last pipeline part of a multipart one.\<close>

fun pipeline_parts :: "part list \<Rightarrow> string list" where
  "pipeline_parts [] = []"
| "pipeline_parts (PipelinePart r # ps) = rd_bytes r # pipeline_parts ps"
| "pipeline_parts (_ # ps) = pipeline_parts ps"

definition sent_document :: "submit_body \<Rightarrow> string option" where
  "sent_document b = (case b of
     RawBody r \<Rightarrow> Some (rd_bytes r)
   | Multipart ps \<Rightarrow> if pipeline_parts ps = [] then None else Some (last (pipeline_parts ps))
   | NotMultipart \<Rightarrow> None)"

lemma readMultipart_document:
  assumes "readMultipartSubmit R ps src stored fs = (Inr v, stored', fs')"
  shows "if pipeline_parts ps = [] then src = Some v else v = last (pipeline_parts ps)"
  using assms
proof (induction R ps src stored fs rule: readMultipartSubmit.induct)
  case (2 R p ps src stored fs)
  show ?case
  proof (cases p)
    case (PipelinePart r)
    with 2(3) obtain w where w: "read_limit (MaxPipelineBytes + 1) r = Inr w" "length w \<le> MaxPipelineBytes"
      "readMultipartSubmit R ps (Some w) stored fs = (Inr v, stored', fs')"
      by (auto split: sum.splits if_splits)
    then have "w = rd_bytes r" by (auto simp: read_limit_def split: if_splits option.splits)
    moreover have "if pipeline_parts ps = [] then Some w = Some v else v = last (pipeline_parts ps)"
      using 2(1) [OF PipelinePart w(1)] w(2,3) by simp
    ultimately show ?thesis using PipelinePart by (simp split: if_splits)
  next
    case (SourcePart r)
    then obtain u fs1 where "local_Put (SourceKey R) r (- 1) fs = (Inr u, fs1)"
      using 2(3) by (auto split: prod.splits sum.splits art_error.splits)
    with 2(2) [OF SourcePart this [symmetric] refl] 2(3) SourcePart show ?thesis by simp
  qed (use 2(3) in auto)
qed (auto split: option.splits)

lemma read_submit_document:
  "read_submit R b fs = (Inr v, stored, fs') \<Longrightarrow> sent_document b = Some v"
  by (auto simp: read_submit_def sent_document_def read_max_def split: submit_body.splits option.splits if_splits
      dest!: readMultipart_document)

text \<open>
  C20. Submission. A submission answered 201 stored exactly one new pending run, with the pipeline document of the
  body as it was sent, and one job per pipeline job of that document, in its order and under
  distinct ids: queued when it needs nothing, pending otherwise, with its own spec and the
  server's attempt limit; and exactly the edges the document's needs name. Nothing that was
  stored before changed.
\<close>

theorem submission_stored:
  assumes "sys_init sv0" and "(sys_step decode)\<^sup>*\<^sup>* sv0 sv"
    and "handleSubmitRun decode newID b sv = ((201, Some (run, js)), sv')"
  shows "\<exists>src p0 p f. sent_document b = Some src \<and> decode src = YamlDoc p0 \<and> finalize p0 = Inr p \<and>
    inj_on f (pj_name ` set (p_jobs p)) \<and>
    (let s = st (sv_sched sv); s' = st (sv_sched sv') in
      t_runs s' = t_runs s @ [run] \<and> r_id run = newID 0 \<and> r_state run = RunPending \<and> r_pipeline_yaml run = src \<and>
      t_jobs s' = t_jobs s @ js \<and>
      map (\<lambda>j. (j_id j, j_run_id j, j_name j, j_spec j, j_state j, j_attempt j, j_max_attempts j)) js =
        map (\<lambda>pj. (f (pj_name pj), newID 0, pj_name pj, Some pj, if pj_needs pj = [] then JobQueued else JobPending, 0,
          maxAttempts (sv_sched sv))) (p_jobs p) \<and>
      t_deps s' = t_deps s @ concat (map (\<lambda>pj. map (\<lambda>n. \<lparr>d_job_id = f (pj_name pj), d_needs_job_id = f n\<rparr>) (pj_needs pj)) (p_jobs p)))"
proof -
  have mA: "0 < maxAttempts (sv_sched sv)" using control_plane.reachable_I [OF assms(1,2)] by (simp add: sys_inv_def)
  from assms(3) obtain src p s' where parse: "Parse decode src = Inr p"
    and read: "fst (read_submit (newID 0) b (sv_artifacts sv)) = Inr src"
    and sub: "submitRun (newID \<circ> Suc) (newID 0) p src (maxAttempts (sv_sched sv)) (st (sv_sched sv)) = (Inr (run, js), s')"
    and s': "st (sv_sched sv') = s'"
    by (auto simp: handleSubmitRun_def Let_def split: prod.splits sum.splits read_error.splits)
  from read_submit_document [of "newID 0" b "sv_artifacts sv" src] read have doc: "sent_document b = Some src"
    by (metis prod.collapse)
  from parse obtain p0 where p0: "decode src = YamlDoc p0" "finalize p0 = Inr p"
    by (auto simp: Parse_def split: yaml_result.splits)
  from submitRun_submitted [OF p0(2) sub] obtain f now
    where new: "submitted (newID 0) f (maxAttempts (sv_sched sv)) (p_jobs p) (st (sv_sched sv)) s'" "names_ok (p_jobs p)"
      "t_runs s' = t_runs (st (sv_sched sv)) @ [run]"
      "run = run_row now (run_init (newID 0) src)" "t_jobs s' = t_jobs (st (sv_sched sv)) @ js"
      "js = map (job_row now (newID 0)) (sub_jobs f (maxAttempts (sv_sched sv)) (p_jobs p))" by blast
  note inj = submitted_ids(1) [OF new(1) reach_inv(1) [OF assms(1,2)] new(2)]
  have "r_pipeline_yaml run = src" by (simp add: new(4) run_row_def run_init_def)
  moreover have "j_attempt (job_row now R (job_init i pj r m)) = 0" "0 < m \<Longrightarrow> j_max_attempts (job_row now R (job_init i pj r m)) = m" for R i pj r m
    by (simp_all add: job_row_def job_init_def)
  ultimately show ?thesis using p0 mA s' new doc inj
    by (intro exI [of _ src] exI [of _ p0] exI [of _ p] exI [of _ f]) (auto simp: submitted_def sub_deps_def sub_jobs_def run_row_init Let_def)
qed

theorem submission_stored_witness:
  "\<exists>run js sv. handleSubmitRun demo_decode demo_ids demo_body demo_sv0 = ((201, Some (run, js)), sv) \<and>
     t_runs (st (sv_sched sv)) = t_runs (st (sv_sched demo_sv0)) @ [run] \<and> r_id run = ''0'' \<and> r_pipeline_yaml run = ''jobs''"
proof -
  obtain run js s where "handleSubmitRun demo_decode demo_ids demo_body demo_sv0 = ((201, Some (run, js)),
      demo_sv0\<lparr>sv_sched := (sv_sched demo_sv0)\<lparr>st := s, mx := count_queued js new_metrics\<rparr>\<rparr>)" by (rule demo_submission)
  note sub = this
  have "demo_ids 0 = ''0''" by code_simp
  with submission_stored [OF demo_sv0_init rtranclp.rtrancl_refl sub] sub show ?thesis
    by (auto simp: Let_def sent_document_def demo_body_def)
qed

text \<open>Reading a multipart body: only the run's own bundle is written, and nothing is when no source part was read.\<close>

lemma objects_put_other:
  assumes "fs_ok fs" and "k' \<noteq> k"
  shows "objects local_Get (snd (local_Put k r n fs)) k' = objects local_Get fs k'"
  using local_store.put_objects [OF assms(1) surjective_pairing [of "local_Put k r n fs"]] assms(2)
  by (auto split: sum.splits)

lemma readMultipart_objects:
  assumes "readMultipartSubmit R ps src stored fs = (res, stored', fs')" and "fs_ok fs"
  shows "fs_ok fs' \<and> (\<forall>k. k \<noteq> SourceKey R \<longrightarrow> objects local_Get fs' k = objects local_Get fs k) \<and>
    (\<not> stored' \<longrightarrow> \<not> stored \<and> fs' = fs)"
  using assms
proof (induction R ps src stored fs rule: readMultipartSubmit.induct)
  case (2 R p ps src stored fs)
  show ?case
  proof (cases p)
    case (SourcePart r)
    obtain x fs1 where put: "local_Put (SourceKey R) r (- 1) fs = (x, fs1)" by fastforce
    have fs1: "fs_ok fs1" "\<forall>k. k \<noteq> SourceKey R \<longrightarrow> objects local_Get fs1 k = objects local_Get fs k"
      using local_Put_ok [OF 2(4), of "SourceKey R" r "- 1"] objects_put_other [OF 2(4), of _ "SourceKey R" r "- 1"] put by auto
    show ?thesis
    proof (cases x)
      case (Inl e)
      then show ?thesis using 2(3) SourcePart put fs1 by (auto split: art_error.splits)
    next
      case (Inr u)
      then have rest: "readMultipartSubmit R ps src True fs1 = (res, stored', fs')" using 2(3) SourcePart put by simp
      from 2(2) [OF SourcePart put [symmetric] Inr rest fs1(1)] fs1(2) show ?thesis by auto
    qed
  next
    case (PipelinePart r)
    with 2 show ?thesis by (auto split: sum.splits if_splits)
  qed (use 2 in auto)
qed (auto split: option.splits)

text \<open>
  C21. Rejected submissions. Any other answer to a submission is 400, 413 or 500; it leaves every table as it was (only the
  clock may have been read), every other object of the artifact store, the metrics, and no source
  bundle of the rejected run.
\<close>

theorem submission_rejected:
  assumes "fs_ok (sv_artifacts sv)" and "objects local_Get (sv_artifacts sv) (SourceKey (newID 0)) = None"
    and "handleSubmitRun decode newID b sv = ((c, r), sv')" and "c \<noteq> 201"
  shows "c \<in> {400, 413, 500} \<and> r = None \<and> (\<exists>n. st (sv_sched sv') = (st (sv_sched sv))\<lparr>reads := n\<rparr>) \<and>
    mx (sv_sched sv') = mx (sv_sched sv) \<and> objects local_Get (sv_artifacts sv') = objects local_Get (sv_artifacts sv)"
proof -
  let ?key = "SourceKey (newID 0)" and ?fs0 = "sv_artifacts sv"
  obtain res stored fs where read: "read_submit (newID 0) b ?fs0 = (res, stored, fs)" by (metis prod_cases3)
  have fs: "fs_ok fs \<and> (\<forall>k. k \<noteq> ?key \<longrightarrow> objects local_Get fs k = objects local_Get ?fs0 k) \<and> (\<not> stored \<longrightarrow> fs = ?fs0)"
    using read assms(1) readMultipart_objects [of "newID 0" _ None False ?fs0 res stored fs]
    by (cases b) (auto simp: read_submit_def)
  have undone: "objects local_Get (discard_if stored ?key fs) = objects local_Get ?fs0"
  proof (cases stored)
    case True
    then show ?thesis using discard_objects [of fs ?key] fs assms(2) by (auto simp: discard_if_def fun_eq_iff)
  qed (use fs in \<open>simp add: discard_if_def\<close>)
  have rolled: "\<exists>n. s' = s\<lparr>reads := n\<rparr>" if "submitRun ids R p src m s = (Inl e, s')" for ids R p src m s e s'
  proof -
    have "\<exists>n. s = s\<lparr>reads := n\<rparr>" by (rule exI [of _ "reads s"]) simp
    with that show ?thesis by (auto simp: submitRun_def Tx_def split: sum.splits prod.splits)
  qed
  have keep: "\<exists>n. s = s\<lparr>reads := n\<rparr>" for s :: store by (rule exI [of _ "reads s"]) simp
  show ?thesis using assms(3,4) read undone keep
    by (auto simp: handleSubmitRun_def Let_def split: sum.splits read_error.splits prod.splits dest: rolled)
qed

theorem submission_rejected_witness:
  "objects local_Get (sv_artifacts (snd (handleSubmitRun (\<lambda>_. YamlEOF) demo_ids (Multipart [SourcePart \<lparr>rd_bytes = ''tar'', rd_error = None\<rparr>]) demo_sv0))) =
     objects local_Get (sv_artifacts demo_sv0)"
proof -
  let ?r = "handleSubmitRun (\<lambda>_. YamlEOF) demo_ids (Multipart [SourcePart \<lparr>rd_bytes = ''tar'', rd_error = None\<rparr>]) demo_sv0"
  have "fs_ok (sv_artifacts demo_sv0)" using demo_sv0_init by (simp add: sys_init_def)
  moreover have "objects local_Get (sv_artifacts demo_sv0) (SourceKey (demo_ids 0)) = None" by code_simp
  moreover have "fst (fst ?r) = 400" by code_simp
  then have "?r = ((400, snd (fst ?r)), snd ?r)" by (metis prod.collapse)
  ultimately show ?thesis using submission_rejected [of demo_sv0 demo_ids] by simp
qed


section \<open>Artifacts\<close>

text \<open>A \<open>Put\<close> with the announced length succeeds only on a body of that length.\<close>

lemma upload_begin_Inr:
  assumes "fs_ok (sv_artifacts sv)" and "upload_begin sha i (Number a) path len ctype r sv = (Inr u, sv1)"
  obtains job where "find (\<lambda>j. j_id j = i) (t_jobs (st (sv_sched sv))) = Some job" and "j_state job = JobRunning" and "j_attempt job = a"
    and "ValidatePath path = None" and "0 < a" and "int (length (rd_bytes r)) = len" and "sv_sched sv1 = sv_sched sv"
    and "u = \<lparr>up_job = i, up_attempt = a, up_path = path, up_key = JobKey (j_run_id job) i a path, up_size = len,
       up_sha = sha (rd_bytes r), up_ctype = (if ctype = [] then DefaultContentType else ctype)\<rparr>"
    and "objects local_Get (sv_artifacts sv1) = (objects local_Get (sv_artifacts sv))(JobKey (j_run_id job) i a path \<mapsto> rd_bytes r)"
proof -
  let ?rd = "max_body len r"
  from assms(2) obtain job where job: "find (\<lambda>j. j_id j = i) (t_jobs (st (sv_sched sv))) = Some job" "j_state job = JobRunning"
    "j_attempt job = a" "ValidatePath path = None" "0 < a" "0 \<le> len"
    by (auto simp: upload_begin_def GetJob_def Let_def split: if_splits option.splits)
  let ?k = "JobKey (j_run_id job) i a path"
  from assms(2) job obtain fs where put: "local_Put ?k ?rd len (sv_artifacts sv) = (Inr (), fs)"
    and res: "sv1 = sv\<lparr>sv_artifacts := fs\<rparr>" "u = \<lparr>up_job = i, up_attempt = a, up_path = path, up_key = ?k, up_size = len,
       up_sha = sha (rd_bytes ?rd), up_ctype = (if ctype = [] then DefaultContentType else ctype)\<rparr>"
    by (auto simp: upload_begin_def GetJob_def Let_def split: if_splits prod.splits sum.splits art_error.splits read_error.splits)
  have "rd_error ?rd = None" using put
    by (cases rule: local_Put_cases [of ?k ?rd len "sv_artifacts sv"]) (auto simp: copied_def split: if_splits option.splits)
  then have rd: "?rd = r" by (auto simp: max_body_def split: if_splits)
  with put local_store.put_size [OF assms(1) put job(6)] local_store.put_objects [OF assms(1) put] job res show thesis
    by (intro that) simp_all
qed

lemma UpsertArtifact_found:
  assumes "UpsertArtifact i a p n h c s = (Inr (), s')"
  shows "\<exists>row. t_jobs s' = t_jobs s \<and> find (\<lambda>x. a_job_id x = i \<and> a_attempt x = a \<and> a_path x = p) (t_artifacts s') = Some row \<and>
    a_size_bytes row = n \<and> a_sha256 row = h \<and> a_content_type row = c"
proof -
  let ?P = "\<lambda>x. a_job_id x = i \<and> a_attempt x = a \<and> a_path x = p"
  let ?row = "\<lparr>a_job_id = i, a_attempt = a, a_path = p, a_size_bytes = n, a_sha256 = h, a_content_type = c, a_created_at = clock s (reads s)\<rparr>"
  have old: "find ?P (sql_update ?P (\<lambda>_. ?row) xs) = Some ?row" if "\<exists>x \<in> set xs. ?P x" for xs
    using that by (induction xs) auto
  have new: "find ?P (xs @ [?row]) = Some ?row" if "\<not> (\<exists>x \<in> set xs. ?P x)" for xs
    using that by (induction xs) auto
  show ?thesis
  proof (cases "\<exists>x \<in> set (t_artifacts s). ?P x")
    case True
    then have "s' = s\<lparr>reads := Suc (reads s), t_artifacts := sql_update ?P (\<lambda>_. ?row) (t_artifacts s)\<rparr>"
      using assms unfolding UpsertArtifact_def tx_bind_run Now_def Let_def by simp
    with old [OF True] show ?thesis by simp
  next
    case False
    then have "s' = s\<lparr>reads := Suc (reads s), t_artifacts := t_artifacts s @ [?row]\<rparr>"
      using assms unfolding UpsertArtifact_def tx_bind_run Now_def Let_def by (auto split: if_splits)
    with new [OF False] show ?thesis by simp
  qed
qed

text \<open>
  C24. Artifacts. An upload answered 201 can be read back: the download returns exactly the bytes that
  were sent, with the recorded size and digest of those bytes and the content type given.
\<close>

theorem artifact_roundtrip:
  assumes "fs_ok (sv_artifacts sv)" and "distinct (map j_id (t_jobs (st (sv_sched sv))))"
    and "handleUploadArtifact sha i (Number a) path len ctype r sv = ((201, Some u), sv')"
  shows "\<exists>row. handleGetArtifact i (Number a) path sv' = ((200, Some (row, rd_bytes r)), sv') \<and>
    a_size_bytes row = int (length (rd_bytes r)) \<and> a_sha256 row = sha (rd_bytes r) \<and>
    a_content_type row = (if ctype = [] then DefaultContentType else ctype)"
proof -
  from assms(3) obtain sv1 where b: "upload_begin sha i (Number a) path len ctype r sv = (Inr u, sv1)"
    and e: "upload_end u sv1 = ((201, Some u), sv')"
    by (auto simp: handleUploadArtifact_def upload_end_def split: prod.splits sum.splits)
  from upload_begin_Inr [OF assms(1) b] obtain job
    where job: "find (\<lambda>j. j_id j = i) (t_jobs (st (sv_sched sv))) = Some job" "j_state job = JobRunning" "j_attempt job = a"
      and v: "ValidatePath path = None" "0 < a" "int (length (rd_bytes r)) = len" and same: "sv_sched sv1 = sv_sched sv"
      and u: "u = \<lparr>up_job = i, up_attempt = a, up_path = path, up_key = JobKey (j_run_id job) i a path, up_size = len,
       up_sha = sha (rd_bytes r), up_ctype = (if ctype = [] then DefaultContentType else ctype)\<rparr>"
      and obj: "objects local_Get (sv_artifacts sv1) = (objects local_Get (sv_artifacts sv))(JobKey (j_run_id job) i a path \<mapsto> rd_bytes r)" .
  have get: "local_Get (JobKey (j_run_id job) i a path) (sv_artifacts sv1) = Inr (rd_bytes r)"
    by (rule local_store.objects_Some [THEN iffD1]) (simp add: obj)
  from e obtain s' where s': "upload_tx u (st (sv_sched sv)) = (Inr (), s')" and sv': "st (sv_sched sv') = s'" "sv_artifacts sv' = sv_artifacts sv1"
    using same by (auto simp: upload_end_def Tx_def split: prod.splits sum.splits)
  obtain row where rows: "t_jobs s' = t_jobs (st (sv_sched sv))"
    and row: "find (\<lambda>x. a_job_id x = i \<and> a_attempt x = a \<and> a_path x = path) (t_artifacts s') = Some row"
      "a_size_bytes row = len" "a_sha256 row = sha (rd_bytes r)" "a_content_type row = (if ctype = [] then DefaultContentType else ctype)"
    using UpsertArtifact_found [of i a path len "sha (rd_bytes r)" "if ctype = [] then DefaultContentType else ctype" "st (sv_sched sv)" s']
      s' job u by (auto simp: upload_tx_def GetJob_def tx_bind_run)
  have "j_id job = i" using job(1) by (auto simp: find_Some_iff)
  then have "handleGetArtifact i (Number a) path sv' = ((200, Some (row, rd_bytes r)), sv')"
    using job(1) v(2) by (simp add: handleGetArtifact_def GetJob_def attemptParam_def GetArtifact_def sv' rows row(1) v(1) get)
  with row(2-4) v(3) show ?thesis by simp
qed

theorem artifact_roundtrip_witness:
  "\<exists>u sv. handleUploadArtifact (\<lambda>_. ''digest'') ''4'' (Number 2) ''out/app'' 3 [] \<lparr>rd_bytes = ''bin'', rd_error = None\<rparr> demo_sv4 = ((201, Some u), sv) \<and>
     snd (the (snd (fst (handleGetArtifact ''4'' (Number 2) ''out/app'' sv)))) = ''bin''"
proof -
  let ?r = "handleUploadArtifact (\<lambda>_. ''digest'') ''4'' (Number 2) ''out/app'' 3 [] \<lparr>rd_bytes = ''bin'', rd_error = None\<rparr> demo_sv4"
  have fs: "fs_ok (sv_artifacts demo_sv4)" using control_plane.reachable_I [OF demo_sv0_init demo_reach(4)] by (simp add: sys_inv_def)
  have "fst (fst ?r) = 201 \<and> snd (fst ?r) \<noteq> None" by code_simp
  then obtain u sv where r: "?r = ((201, Some u), sv)" by (metis option.exhaust prod.collapse)
  from artifact_roundtrip [OF fs reach_inv(4) [OF demo_sv0_init demo_reach(4)] r] obtain row
    where "handleGetArtifact ''4'' (Number 2) ''out/app'' sv = ((200, Some (row, ''bin'')), sv)" by auto
  with r show ?thesis by (intro exI [of _ u] exI [of _ sv] conjI) simp_all
qed

text \<open>
  The clean-up of a fenced upload goes by the key alone. When the first delivery of the upload had
  recorded its row, a second delivery that loses the fence removes the object under it: the row
  stays listed and its download is answered 404.
\<close>

lemma fenced_redelivery_loses_object:
  assumes "fs_ok (sv_artifacts sv)" and "find (\<lambda>j. j_id j = up_job u) (t_jobs (st (sv_sched sv))) = Some job"
    and "j_state job \<noteq> JobRunning \<or> j_attempt job \<noteq> up_attempt u" and "0 < up_attempt u" and "ValidatePath (up_path u) = None"
    and "GetArtifact (up_job u) (up_attempt u) (up_path u) (st (sv_sched sv)) = (Inr row, st (sv_sched sv))"
    and "up_key u = JobKey (j_run_id job) (up_job u) (up_attempt u) (up_path u)"
    and "local_Get (up_key u) (sv_artifacts sv) = Inr data" and "upload_end u sv = (resp, sv')"
  shows "fst (GetArtifact (up_job u) (up_attempt u) (up_path u) (st (sv_sched sv'))) = Inr row \<and>
    (\<forall>d. local_Get (up_key u) (sv_artifacts sv') \<noteq> Inr d)"
proof -
  have tx: "upload_tx u (st (sv_sched sv)) = (Inl ErrFenced, st (sv_sched sv))"
    using assms(2,3) by (auto simp: upload_tx_def GetJob_def tx_bind_run)
  then have "sv_artifacts sv' = discard (up_key u) (sv_artifacts sv)" "st (sv_sched sv') = st (sv_sched sv)"
    using assms(9) by (auto simp: upload_end_def Tx_def)
  with discard_objects [OF assms(1), of "up_key u"] local_store.objects_Some [of "sv_artifacts sv'" "up_key u"] assms(6)
  show ?thesis by auto
qed


section \<open>Registration and authentication\<close>

lemma UpsertRunner_row:
  assumes "UpsertRunner u s = (Inr (), s')"
  shows "\<exists>r \<in> set (t_runners s'). rn_id r = rr_id u \<and> rn_name r = rr_name u \<and> rn_labels r = rr_labels u \<and>
    rn_capacity r = (if rr_capacity u \<le> 0 then 1 else rr_capacity u)"
proof -
  define row where "row = runner_row (clock s (reads s)) u"
  have row: "rn_id row = rr_id u" "rn_name row = rr_name u" "rn_labels row = rr_labels u"
    "rn_capacity row = (if rr_capacity u \<le> 0 then 1 else rr_capacity u)" by (simp_all add: row_def runner_row_def)
  show ?thesis
  proof (cases "rn_id row \<in> rn_id ` set (t_runners s)")
    case True
    then have "s' = s\<lparr>reads := Suc (reads s), t_runners := sql_update (\<lambda>q. rn_id q = rn_id row)
        (\<lambda>q. row\<lparr>rn_registered_at := rn_registered_at q\<rparr>) (t_runners s)\<rparr>"
      using assms unfolding UpsertRunner_def tx_bind_run Now_def Let_def by (simp add: row_def [symmetric] split: if_splits)
    moreover from True obtain q where "q \<in> set (t_runners s)" "rn_id q = rn_id row" by (metis imageE)
    ultimately have "row\<lparr>rn_registered_at := rn_registered_at q\<rparr> \<in> set (t_runners s')" by (auto simp: in_sql_update)
    then show ?thesis using row by (intro bexI) simp_all
  next
    case False
    then have "s' = s\<lparr>reads := Suc (reads s), t_runners := t_runners s @ [row]\<rparr>"
      using assms unfolding UpsertRunner_def tx_bind_run Now_def Let_def by (simp add: row_def [symmetric] split: if_splits)
    then show ?thesis using row by auto
  qed
qed

lemma UpsertRunner_again:
  assumes "tables_ok s" and "r \<in> set (t_runners s)" and "rn_id r = rr_id u" and "rn_name r = rr_name u"
  shows "\<exists>s'. UpsertRunner u s = (Inr (), s')"
proof -
  have "rr_id u \<noteq> []" using assms(1-3) by (auto simp: tables_ok_def)
  moreover have "\<not> (\<exists>q \<in> set (t_runners s). rn_id q \<noteq> rr_id u \<and> rn_name q = rr_name u)"
    using assms distinct_keys_eq [of rn_name "t_runners s" _ r] unfolding tables_ok_def by metis
  moreover have "rr_id u \<in> rn_id ` set (t_runners s)" using assms(2,3) by (metis imageI)
  ultimately show ?thesis by (simp add: UpsertRunner_def tx_bind_run Now_def Let_def runner_row_def)
qed

lemma register_tx_row:
  assumes "register_tx fresh req s = (Inr i, s')"
  shows "\<exists>r \<in> set (t_runners s'). rn_id r = i \<and> rn_name r = rq_name req \<and> rn_labels r = rq_labels req \<and>
    rn_capacity r = (if rq_capacity req \<le> 0 then 1 else rq_capacity req)"
proof -
  from assms obtain v where "UpsertRunner (register_init req i v) s = (Inr (), s')"
    by (auto simp: register_tx_def GetRunnerByName_def tx_bind_eq_Inr split: option.splits)
  from UpsertRunner_row [OF this, unfolded register_init_def RunnerInit.select_convs] show ?thesis .
qed

text \<open>
  Registration is idempotent. Registering a name twice, with whatever fresh ids are at hand, answers the
  same runner id; afterwards exactly one runner carries the name, with the labels and the capacity
  of the last registration.
\<close>

theorem register_idempotent:
  assumes "tables_ok (st (sv_sched sv))" and "handleRegister fresh (BodyOK req) sv = ((200, Some i), sv1)"
  shows "\<exists>sv2. handleRegister fresh' (BodyOK req) sv1 = ((200, Some i), sv2) \<and>
    (\<exists>r \<in> set (t_runners (st (sv_sched sv2))). filter (\<lambda>q. rn_name q = rq_name req) (t_runners (st (sv_sched sv2))) = [r] \<and>
      rn_id r = i \<and> rn_labels r = rq_labels req \<and> rn_capacity r = (if rq_capacity req \<le> 0 then 1 else rq_capacity req))"
proof -
  from assms(2) obtain s1 where ok: "\<not> (rq_name req = [] \<or> rq_capacity req < 0)" and tx: "register_tx fresh req (st (sv_sched sv)) = (Inr i, s1)"
    and sv1: "st (sv_sched sv1) = s1"
    by (auto simp: handleRegister_def decodeBody_def Tx_def split: if_splits prod.splits sum.splits)
  have tab: "tables_ok s1" using tx_alwaysD [OF tidy_register_tx assms(1) tx] .
  from register_tx_row [OF tx] obtain r where r: "r \<in> set (t_runners s1)" "rn_id r = i" "rn_name r = rq_name req" by blast
  have "find (\<lambda>q. rn_name q = rn_name r) (t_runners s1) = Some r"
    by (rule find_keyed_Some [OF _ r(1)]) (use tab in \<open>simp add: tables_ok_def\<close>)
  then have find: "GetRunnerByName (rq_name req) s1 = (Inr r, s1)" using r(3) by (simp add: GetRunnerByName_def)
  have "\<exists>s2. UpsertRunner (register_init req i (rn_version r)) s1 = (Inr (), s2)"
    by (rule UpsertRunner_again [OF tab r(1)]) (simp_all add: register_init_def r)
  with find r(2) obtain s2 where tx2: "register_tx fresh' req s1 = (Inr i, s2)"
    by (auto simp: register_tx_def tx_bind_run)
  from register_tx_row [OF tx2] obtain q where q: "q \<in> set (t_runners s2)" "rn_id q = i" "rn_name q = rq_name req"
    "rn_labels q = rq_labels req" "rn_capacity q = (if rq_capacity req \<le> 0 then 1 else rq_capacity req)" by blast
  have "distinct (map rn_name (t_runners s2))" using tx_alwaysD [OF tidy_register_tx tab tx2] by (simp add: tables_ok_def)
  from keyed_filter [OF this q(1)] q(3) have one: "filter (\<lambda>x. rn_name x = rq_name req) (t_runners s2) = [q]" by simp
  have "handleRegister fresh' (BodyOK req) sv1 = ((200, Some i), sv1\<lparr>sv_sched := (sv_sched sv1)\<lparr>st := s2\<rparr>\<rparr>)"
    using ok tx2 sv1 by (simp add: handleRegister_def decodeBody_def Tx_def)
  then show ?thesis using q one by (intro exI conjI) (assumption, rule bexI [of _ q], simp_all)
qed

theorem register_idempotent_witness:
  "\<exists>sv1 sv2. handleRegister ''id1'' (BodyOK \<lparr>rq_name = ''one'', rq_labels = [], rq_capacity = 2\<rparr>) demo_sv0 = ((200, Some ''id1''), sv1) \<and>
     handleRegister ''id2'' (BodyOK \<lparr>rq_name = ''one'', rq_labels = [], rq_capacity = 2\<rparr>) sv1 = ((200, Some ''id1''), sv2)"
proof -
  let ?r = "handleRegister ''id1'' (BodyOK \<lparr>rq_name = ''one'', rq_labels = [], rq_capacity = 2\<rparr>) demo_sv0"
  have "fst ?r = (200, Some ''id1'')" by code_simp
  then obtain sv1 where r: "?r = ((200, Some ''id1''), sv1)" by (metis prod.collapse)
  have "tables_ok (st (sv_sched demo_sv0))" by (rule reach_inv(2) [OF demo_sv0_init rtranclp.rtrancl_refl])
  from register_idempotent [OF this r, of "''id2''"] r show ?thesis by blast
qed

text \<open>
  Authentication. A request is served exactly when it carries the configured token after the scheme
  and one space; a server without a token serves nobody; any other request is answered 401 and changes nothing.
\<close>

lemma requireToken_iff:
  "requireToken t h \<longleftrightarrow> t \<noteq> [] \<and> h = Some (''Bearer '' @ t)"
  by (cases h) (auto simp: requireToken_def Let_def prefix_def)

theorem token_required:
  "withToken sv header h = (if sv_token sv \<noteq> [] \<and> header = Some (''Bearer '' @ sv_token sv) then h sv else ((401, None), sv))"
  by (simp add: withToken_def requireToken_iff)

end
