(* ===== verification/Executor.thy ===== *)
theory Executor
  imports Pipeline
begin

text \<open>
  internal/executor: what a runner asks an executor to run and what it gets back, and the scripted
  executor of the in-process harness (executor/fake.go).
\<close>


section \<open>executor.go\<close>

record JobSpec =
  js_job_id :: string
  js_run_id :: string
  js_attempt :: int
  js_job :: PJob
  js_artifact_dir :: "string option"

record ExecResult =
  ex_exit_code :: int
  ex_oom_killed :: bool
  ex_duration :: int

definition zero_result :: ExecResult where
  "zero_result = \<lparr>ex_exit_code = 0, ex_oom_killed = False, ex_duration = 0\<rparr>"

text \<open>The error of a run: the context ended, the job's own scripted error, or a failure of the platform.\<close>

datatype exec_error = CtxErr | Scripted string | Platform string

text \<open>
  The contract the runner relies on: a run that gives no error has an exit code to report, and a
  run whose context ended before anything else happened gives the context's error.
\<close>

locale executor_contract =
  fixes exec_run :: "'env \<Rightarrow> exec_error option \<times> ExecResult"
    and stopped :: "'env \<Rightarrow> bool"
  assumes stopped_error: "stopped e \<Longrightarrow> fst (exec_run e) = Some CtxErr"
begin

lemma stopped_never_ok: "stopped e \<Longrightarrow> exec_run e = (x, r) \<Longrightarrow> x = Some CtxErr"
  using stopped_error by fastforce

end


section \<open>fake.go\<close>

record Outcome =
  oc_exit_code :: int
  oc_err :: "string option"
  oc_delay :: int
  oc_hang :: bool
  oc_log_bytes :: nat
  oc_artifacts :: "(string \<times> string) list"

definition zero_outcome :: Outcome where
  "zero_outcome = \<lparr>oc_exit_code = 0, oc_err = None, oc_delay = 0, oc_hang = False, oc_log_bytes = 0, oc_artifacts = []\<rparr>"

record Execution =
  xn_spec :: JobSpec
  xn_err :: "exec_error option"

text \<open>\<open>fe_release\<close>: the names whose channel exists, with whether it is closed.\<close>

record FakeExecutor =
  fe_outcomes :: "(string \<times> Outcome) list"
  fe_execs :: "Execution list"
  fe_release :: "(string \<times> bool) list"

definition NewFake :: FakeExecutor where
  "NewFake = \<lparr>fe_outcomes = [], fe_execs = [], fe_release = []\<rparr>"

definition Script :: "string \<Rightarrow> Outcome \<Rightarrow> FakeExecutor \<Rightarrow> FakeExecutor" where
  "Script name oc f = f\<lparr>fe_outcomes := AList.update name oc (fe_outcomes f)\<rparr>"

definition releaseChan :: "string \<Rightarrow> FakeExecutor \<Rightarrow> FakeExecutor" where
  "releaseChan name f = (case map_of (fe_release f) name of
     None \<Rightarrow> f\<lparr>fe_release := AList.update name False (fe_release f)\<rparr> | Some _ \<Rightarrow> f)"

definition Release :: "string \<Rightarrow> FakeExecutor \<Rightarrow> FakeExecutor" where
  "Release name f = (let g = releaseChan name f in g\<lparr>fe_release := AList.update name True (fe_release g)\<rparr>)"

text \<open>\<open>writeBytes\<close>: the writes a job's output is made of, line by line.\<close>

definition fake_line :: string where
  "fake_line = ''fake executor output line'' @ [CHR 10]"

function writeBytes :: "nat \<Rightarrow> string list" where
  "writeBytes n = (if n = 0 then [] else
     let chunk = (if n < length fake_line then take n fake_line else fake_line)
     in chunk # writeBytes (n - length chunk))"
  by pat_completeness auto
termination
  by (relation "measure id") (auto simp: fake_line_def split: if_splits)

declare writeBytes.simps [simp del]

text \<open>
  One run: whether the log writer failed, whether the context ended while hanging, while waiting, or
  was found ended at the final check. A release counts only for a job that hangs.
\<close>

record fake_env =
  fk_log_error :: "string option"
  fk_done_hanging :: bool
  fk_done_waiting :: bool
  fk_done :: bool
  fk_duration :: int

definition fake_run :: "Outcome \<Rightarrow> fake_env \<Rightarrow> exec_error option \<times> ExecResult" where
  "fake_run oc e =
     (if 0 < oc_log_bytes oc \<and> fk_log_error e \<noteq> None then (map_option Platform (fk_log_error e), zero_result)
      else if oc_hang oc \<and> fk_done_hanging e then (Some CtxErr, zero_result)
      else if 0 < oc_delay oc \<and> fk_done_waiting e then (Some CtxErr, zero_result)
      else if fk_done e then (Some CtxErr, zero_result)
      else case oc_err oc of
        Some m \<Rightarrow> (Some (Scripted m), zero_result)
      | None \<Rightarrow> (None, zero_result\<lparr>ex_exit_code := oc_exit_code oc\<rparr>))"

text \<open>
  \<open>Run\<close>: the call is recorded before it runs and its error after; artifacts are written for a
  success with a directory (\<open>wrote\<close>: the first file that could not be). The third value is what a
  successful run leaves there.
\<close>

definition fake_Run :: "fake_env \<Rightarrow> string option \<Rightarrow> JobSpec \<Rightarrow> FakeExecutor \<Rightarrow>
    (exec_error option \<times> ExecResult \<times> (string \<times> string) list) \<times> FakeExecutor" where
  "fake_Run e wrote spec f =
     (let oc = (case map_of (fe_outcomes f) (pj_name (js_job spec)) of None \<Rightarrow> zero_outcome | Some oc \<Rightarrow> oc);
          g = releaseChan (pj_name (js_job spec)) (f\<lparr>fe_execs := fe_execs f @ [\<lparr>xn_spec = spec, xn_err = None\<rparr>]\<rparr>);
          (err, res0) = fake_run oc e;
          res = res0\<lparr>ex_duration := fk_duration e\<rparr>;
          writes = (err = None \<and> ex_exit_code res = 0 \<and> js_artifact_dir spec \<noteq> None);
          err' = (if writes then map_option Platform wrote else err)
      in ((err', res, if writes \<and> wrote = None then oc_artifacts oc else []),
          g\<lparr>fe_execs := (fe_execs g)[length (fe_execs f) := \<lparr>xn_spec = spec, xn_err = err'\<rparr>]\<rparr>))"

lemma writeBytes_total: "concat (writeBytes n) = take n (concat (replicate n fake_line))"
proof (induction n rule: less_induct)
  case (less n)
  have len: "length fake_line = 26" by (simp add: fake_line_def)
  have cat: "concat (replicate n fake_line) = fake_line @ concat (replicate (n - 1) fake_line)" if "0 < n" for n
    using that by (cases n) simp_all
  show ?case
  proof (cases "n < 26")
    case True
    then show ?thesis using len cat [of n] by (cases "n = 0") (simp_all add: writeBytes.simps [of n] writeBytes.simps [of 0] Let_def)
  next
    case False
    define m where "m = n - 26"
    have n: "n = m + 26" using False by (simp add: m_def)
    have "concat (writeBytes n) = fake_line @ take m (concat (replicate m fake_line))"
      using less [of m] False len by (subst writeBytes.simps) (simp add: Let_def n)
    moreover have "take n (concat (replicate n fake_line)) = fake_line @ take m (concat (replicate (n - 1) fake_line))"
      using cat [of n] False len by (simp add: n)
    moreover have "take m (concat (replicate (n - 1) fake_line)) = take m (concat (replicate m fake_line))"
    proof -
      have "n - 1 = m + 25" using n by simp
      moreover have "m \<le> length (concat (replicate m fake_line))" by (induction m) (simp_all add: len)
      ultimately show ?thesis by (simp add: replicate_add)
    qed
    ultimately show ?thesis by simp
  qed
qed

lemma fake_records:
  assumes "fake_Run e wrote spec f = ((err, res, files), g)"
  shows "fe_execs g = fe_execs f @ [\<lparr>xn_spec = spec, xn_err = err\<rparr>]" and "fe_outcomes g = fe_outcomes f"
  using assms by (auto simp: fake_Run_def releaseChan_def Let_def split: prod.splits option.splits)

interpretation fake: executor_contract "fake_run oc" "\<lambda>e. fk_log_error e = None \<and> fk_done e"
  by unfold_locales (simp add: fake_run_def)

end
