(* ===== verification/Agent.thy ===== *)
theory Agent
  imports Settle Logship Executor
begin

text \<open>
  internal/agent: the runner. Its HTTP client with the reconnect and retry loops, one attempt from
  the executor's result to the report, and the runner as a transition system of its poll loop,
  its heartbeats and its attempt goroutines. A call of the network, the executor or the clock is
  an input: the loops run over the list of what the successive calls gave, and are \<open>None\<close> when
  the list ends before they do.
\<close>


section \<open>client.go: replies\<close>

text \<open>What one exchange gave: a transport failure, or a status with the decoded body (\<open>None\<close>: not JSON).\<close>

datatype 'a reply = NoReply | Reply nat "'a option"

datatype cerr = CtxDone | connectionError | statusError nat | BadReply | errFenced | NoRunnerID | LocalFile | GaveUp "cerr option"

definition Retryable :: "nat \<Rightarrow> bool" where
  "Retryable c \<longleftrightarrow> 500 \<le> c"

text \<open>\<open>wants\<close>: the caller passed a place to decode the body into. \<open>Inr None\<close> is a 204.\<close>

definition postOnce :: "bool \<Rightarrow> 'a reply \<Rightarrow> cerr + 'a option option" where
  "postOnce wants r = (case r of
     NoReply \<Rightarrow> Inl connectionError
   | Reply c body \<Rightarrow>
       if c = 204 then Inr None
       else if c < 200 \<or> 300 \<le> c then Inl (statusError c)
       else if wants \<and> body = None then Inl BadReply
       else Inr (Some body))"

definition DefaultCompleteBackoff :: int where "DefaultCompleteBackoff = 500 * 1000000"

definition maxCompleteBackoff :: int where "maxCompleteBackoff = 10 * 1000000000"

definition double_backoff :: "int \<Rightarrow> int" where
  "double_backoff b = min (b * 2) maxCompleteBackoff"

definition first_delay :: "int \<Rightarrow> int" where
  "first_delay backoff = min (if backoff \<le> 0 then DefaultCompleteBackoff else backoff) maxCompleteBackoff"

text \<open>
  One turn of a loop: whether the context was alive before the call, what the call gave, and
  whether the timer fired before the context ended. The result comes with the waits.
\<close>

type_synonym 'a turn = "bool \<times> (cerr + 'a) \<times> bool"

fun reconnect :: "int \<Rightarrow> 'a turn list \<Rightarrow> ((cerr + 'a) \<times> int list) option" where
  "reconnect delay [] = None"
| "reconnect delay ((alive, r, waited) # ts) =
     (if \<not> alive then Some (Inl CtxDone, [])
      else case r of
        Inl connectionError \<Rightarrow>
          if \<not> waited then Some (Inl CtxDone, [delay])
          else map_option (\<lambda>(x, ds). (x, delay # ds)) (reconnect (double_backoff delay) ts)
      | _ \<Rightarrow> Some (r, []))"

definition client_post :: "bool \<Rightarrow> int \<Rightarrow> (bool \<times> 'a reply \<times> bool) list \<Rightarrow> ((cerr + 'a option option) \<times> int list) option" where
  "client_post wants backoff ts = reconnect (first_delay backoff) (map (\<lambda>(alive, r, w). (alive, postOnce wants r, w)) ts)"

definition client_register :: "int \<Rightarrow> (bool \<times> string reply \<times> bool) list \<Rightarrow> (cerr + string) option" where
  "client_register backoff ts = map_option (\<lambda>(r, _). case r of
     Inl e \<Rightarrow> Inl e
   | Inr (Some (Some i)) \<Rightarrow> if i = [] then Inl NoRunnerID else Inr i
   | Inr _ \<Rightarrow> Inl NoRunnerID) (client_post True backoff ts)"

text \<open>A claim: a job, or nothing to do.\<close>

definition client_claim :: "int \<Rightarrow> (bool \<times> 'j option reply \<times> bool) list \<Rightarrow> (cerr + 'j option) option" where
  "client_claim backoff ts = map_option (\<lambda>(r, _). case r of
     Inl e \<Rightarrow> Inl e | Inr (Some (Some j)) \<Rightarrow> Inr j | Inr _ \<Rightarrow> Inr None) (client_post True backoff ts)"

definition client_heartbeat :: "int \<Rightarrow> (bool \<times> 'd list reply \<times> bool) list \<Rightarrow> (cerr + 'd list) option" where
  "client_heartbeat backoff ts = map_option (\<lambda>(r, _). case r of
     Inl e \<Rightarrow> Inl e | Inr (Some (Some ds)) \<Rightarrow> Inr ds | Inr _ \<Rightarrow> Inr []) (client_post True backoff ts)"

definition map_complete :: "cerr + 'a \<Rightarrow> cerr + unit" where
  "map_complete r = (case r of
     Inl (statusError c) \<Rightarrow> if c = 409 then Inl errFenced else Inl (statusError c)
   | Inl e \<Rightarrow> Inl e | Inr _ \<Rightarrow> Inr ())"

definition client_complete :: "int \<Rightarrow> (bool \<times> 'a reply \<times> bool) list \<Rightarrow> (cerr + unit) option" where
  "client_complete backoff ts = map_option (map_complete \<circ> fst) (client_post False backoff ts)"

text \<open>The shipper's contract: no reconnect here, since the shipper paces its own retries.\<close>

definition client_logs :: "'a reply \<Rightarrow> answer" where
  "client_logs r = (case postOnce False r of
     Inr _ \<Rightarrow> SinkOK
   | Inl (statusError c) \<Rightarrow> if c = 409 then SinkStale else if \<not> Retryable c then SinkRejected (Itoa (int c)) else SinkTransient
   | Inl _ \<Rightarrow> SinkTransient)"


section \<open>client.go: completeWithRetry\<close>

text \<open>A try: whether the timer fired before it, what \<open>complete\<close> gave, whether the context was alive after it.
  \<open>err\<close> is the error of the previous try.\<close>

fun retry_loop :: "nat \<Rightarrow> bool \<Rightarrow> int \<Rightarrow> cerr option \<Rightarrow> (bool \<times> (cerr + unit) \<times> bool) list
    \<Rightarrow> ((cerr + unit) \<times> int list \<times> nat) option" where
  "retry_loop 0 again backoff err ts = Some (Inl (GaveUp err), [], 0)"
| "retry_loop (Suc n) again backoff err [] = None"
| "retry_loop (Suc n) again backoff err ((waited, r, alive) # ts) =
     (if again \<and> \<not> waited then Some (Inl CtxDone, [backoff], 0)
      else
        let ws = (if again then [backoff] else []);
            backoff' = (if again then double_backoff backoff else backoff)
        in case r of
          Inr _ \<Rightarrow> Some (r, ws, 1)
        | Inl e \<Rightarrow>
            if e = errFenced \<or> (case e of statusError c \<Rightarrow> \<not> Retryable c | _ \<Rightarrow> False) \<or> \<not> alive then Some (Inl e, ws, 1)
            else map_option (\<lambda>(x, ws', k). (x, ws @ ws', Suc k)) (retry_loop n True backoff' (Some e) ts))"

definition completeWithRetry :: "nat \<Rightarrow> int \<Rightarrow> (bool \<times> (cerr + unit) \<times> bool) list \<Rightarrow> ((cerr + unit) \<times> int list \<times> nat) option" where
  "completeWithRetry attempts backoff ts = retry_loop attempts False (min backoff maxCompleteBackoff) None ts"


section \<open>client.go: uploads and sources\<close>

text \<open>
  The reply of an upload carries the size and the digest the server stored; they are compared
  with those of the file sent, which is opened anew for each try (\<open>None\<close>: it cannot be).
\<close>

definition uploadArtifactOnce :: "(int \<times> string) option \<Rightarrow> (int \<times> string) reply \<Rightarrow> cerr + unit" where
  "uploadArtifactOnce file r = (case file of
     None \<Rightarrow> Inl LocalFile
   | Some (sz, sha) \<Rightarrow>
       (case r of
          NoReply \<Rightarrow> Inl connectionError
        | Reply c body \<Rightarrow>
            if c = 409 then Inl errFenced
            else if c < 200 \<or> 300 \<le> c then Inl (statusError c)
            else case body of
              None \<Rightarrow> Inl BadReply
            | Some (n, h) \<Rightarrow> if h \<noteq> sha \<or> n \<noteq> sz then Inl BadReply else Inr ()))"

definition uploadArtifact :: "int \<Rightarrow> (bool \<times> ((int \<times> string) option \<times> (int \<times> string) reply) \<times> bool) list \<Rightarrow> (cerr + unit) option" where
  "uploadArtifact backoff ts =
     map_option fst (reconnect (first_delay backoff) (map (\<lambda>(alive, (file, r), w). (alive, uploadArtifactOnce file r, w)) ts))"

text \<open>
  A source download: the body as it arrived, and whether the connection held until its end. The
  spool file is emptied before each try, so a broken download leaves nothing behind.
\<close>

datatype source_reply = SourceNone | SourceFound "char list" bool | SourceStatus nat | SourceNoReply

definition source_try :: "source_reply \<Rightarrow> char list \<Rightarrow> (cerr + bool) \<times> char list" where
  "source_try r file = (let emptied = take 0 file in case r of
     SourceNoReply \<Rightarrow> (Inl connectionError, emptied)
   | SourceNone \<Rightarrow> (Inr False, emptied)
   | SourceStatus c \<Rightarrow> (Inl (statusError c), emptied)
   | SourceFound bs whole \<Rightarrow> (if whole then Inr True else Inl connectionError, emptied @ bs))"

fun source_loop :: "int \<Rightarrow> (bool \<times> source_reply \<times> bool) list \<Rightarrow> char list \<Rightarrow> (cerr + char list option) option" where
  "source_loop delay [] file = None"
| "source_loop delay ((alive, r, waited) # ts) file =
     (if \<not> alive then Some (Inl CtxDone)
      else case source_try r file of
        (Inl connectionError, file') \<Rightarrow>
          if \<not> waited then Some (Inl CtxDone) else source_loop (double_backoff delay) ts file'
      | (Inl e, _) \<Rightarrow> Some (Inl e)
      | (Inr found, file') \<Rightarrow> Some (Inr (if found then Some file' else None)))"

definition client_source :: "int \<Rightarrow> (bool \<times> source_reply \<times> bool) list \<Rightarrow> (cerr + char list option) option" where
  "client_source backoff ts = source_loop (first_delay backoff) ts []"


section \<open>agent.go: configuration and registration\<close>

record agent_config =
  ac_server_url :: string
  ac_token :: string
  ac_name :: string
  ac_labels :: "(string \<times> string) list"
  ac_capacity :: int
  ac_version :: string
  ac_poll_interval :: int
  ac_heartbeat_interval :: int
  ac_complete_retries :: int
  ac_complete_backoff :: int
  ac_log_flush_interval :: int
  ac_log_flush_bytes :: int
  ac_log_flush_timeout :: int

definition DefaultPollInterval :: int where "DefaultPollInterval = 1000000000"

definition DefaultHeartbeatInterval :: int where "DefaultHeartbeatInterval = 5 * 1000000000"

definition DefaultCapacity :: int where "DefaultCapacity = 2"

definition DefaultCompleteRetries :: int where "DefaultCompleteRetries = 8"

definition DefaultLogFlushTimeout :: int where "DefaultLogFlushTimeout = 30 * 1000000000"

text \<open>
  The shared state of a runner: the semaphore with one token per busy slot, whether the poll loop
  holds one, the attempt goroutines, the keys of the map \<open>active\<close>, the id the server gave, and
  whether the context of \<open>Run\<close> has ended. A goroutine has been spawned, has entered itself into
  \<open>active\<close>, or has left it again and is about to give its slot back; with it, why the context of
  its executor ended, of which the first reason stays.
\<close>

datatype phase_of_attempt = Spawned | Entered | Leaving

datatype cause = errTimeout | errCancelled | errAbort | ParentDone

type_synonym attemptKey = "string \<times> int"

record agent =
  ag_capacity :: nat
  ag_sem :: nat
  ag_polling :: bool
  ag_jobs :: "(attemptKey \<times> phase_of_attempt \<times> cause option) list"
  ag_active :: "attemptKey list"
  ag_runner_id :: string
  ag_stopping :: bool

text \<open>Required fields, and the defaults for zero values. Logger, metrics and HTTP client are left out.\<close>

definition agent_New :: "agent_config \<Rightarrow> bool \<Rightarrow> (agent_config \<times> agent) option" where
  "agent_New cfg has_executor =
     (if ac_server_url cfg = [] \<or> ac_name cfg = [] then None
      else if \<not> has_executor then None
      else let cfg' = cfg
        \<lparr>ac_capacity := (if ac_capacity cfg \<le> 0 then DefaultCapacity else ac_capacity cfg),
         ac_poll_interval := (if ac_poll_interval cfg \<le> 0 then DefaultPollInterval else ac_poll_interval cfg),
         ac_heartbeat_interval := (if ac_heartbeat_interval cfg \<le> 0 then DefaultHeartbeatInterval else ac_heartbeat_interval cfg),
         ac_complete_retries := (if ac_complete_retries cfg \<le> 0 then DefaultCompleteRetries else ac_complete_retries cfg),
         ac_complete_backoff := min (if ac_complete_backoff cfg \<le> 0 then DefaultCompleteBackoff else ac_complete_backoff cfg) maxCompleteBackoff,
         ac_log_flush_timeout := (if ac_log_flush_timeout cfg \<le> 0 then DefaultLogFlushTimeout else ac_log_flush_timeout cfg)\<rparr>
      in Some (cfg', \<lparr>ag_capacity = nat (ac_capacity cfg'), ag_sem = 0, ag_polling = False, ag_jobs = [], ag_active = [],
        ag_runner_id = [], ag_stopping = False\<rparr>))"

text \<open>A turn of the registration loop: what the client gave, the context after it, the timer.\<close>

fun agent_register :: "int \<Rightarrow> ((cerr + string) \<times> bool \<times> bool) list \<Rightarrow> ((cerr + string) \<times> int list) option" where
  "agent_register backoff [] = None"
| "agent_register backoff ((r, alive, waited) # ts) =
     (case r of
        Inr i \<Rightarrow> Some (Inr i, [])
      | Inl e \<Rightarrow>
          if (case e of statusError c \<Rightarrow> \<not> Retryable c | _ \<Rightarrow> False) then Some (Inl e, [])
          else if \<not> alive then Some (Inl CtxDone, [])
          else if \<not> waited then Some (Inl CtxDone, [backoff])
          else map_option (\<lambda>(x, ws). (x, backoff # ws)) (agent_register (double_backoff backoff) ts))"

section \<open>agent.go: one attempt\<close>

text \<open>A cancelled context keeps its first cause.\<close>

definition first_cause :: "cause \<Rightarrow> cause option \<Rightarrow> cause option" where
  "first_cause c old = (case old of None \<Rightarrow> Some c | Some _ \<Rightarrow> old)"

text \<open>The retries of one artifact: a try, the context after it, and the timer.\<close>

fun upload_file :: "nat \<Rightarrow> int \<Rightarrow> ((cerr + unit) \<times> bool \<times> bool) list \<Rightarrow> (cerr + unit) option" where
  "upload_file left backoff [] = None"
| "upload_file left backoff ((r, alive, waited) # ts) =
     (case r of
        Inr _ \<Rightarrow> Some r
      | Inl e \<Rightarrow>
          if e = errFenced \<or> (case e of statusError c \<Rightarrow> \<not> Retryable c | _ \<Rightarrow> False) \<or> \<not> alive \<or> left \<le> 1 \<or> \<not> waited
          then Some (Inl e)
          else upload_file (left - 1) (double_backoff backoff) ts)"

text \<open>The walk over the files in lexical order ends at the first error.\<close>

fun uploadArtifacts :: "nat \<Rightarrow> int \<Rightarrow> (string \<times> ((cerr + unit) \<times> bool \<times> bool) list) list \<Rightarrow> (string list \<times> (cerr + unit)) option" where
  "uploadArtifacts retries backoff [] = Some ([], Inr ())"
| "uploadArtifacts retries backoff ((path, ts) # fs) =
     (case upload_file retries backoff ts of
        None \<Rightarrow> None
      | Some (Inl e) \<Rightarrow> Some ([], Inl e)
      | Some (Inr _) \<Rightarrow> map_option (\<lambda>(ps, r). (path # ps, r)) (uploadArtifacts retries backoff fs))"

definition infra :: "string \<Rightarrow> Result" where
  "infra msg = \<lparr>res_status = ''failed'', res_failure_kind = ''infra'', res_exit_code = None, res_error = msg\<rparr>"

text \<open>The verdict of \<open>runAttempt\<close>, in the order of its cases; \<open>None\<close> reports nothing.\<close>

definition attempt_result :: "cause option \<Rightarrow> string option \<Rightarrow> ExecResult \<Rightarrow> bool \<Rightarrow> Result option" where
  "attempt_result c execErr res shutdown =
     (if c = Some errTimeout then
        Some \<lparr>res_status = ''failed'', res_failure_kind = ''timeout'', res_exit_code = None, res_error = ''job timed out''\<rparr>
      else if c = Some errCancelled then
        Some \<lparr>res_status = ''failed'', res_failure_kind = ''cancelled'', res_exit_code = None, res_error = ''job cancelled by user''\<rparr>
      else case execErr of
        None \<Rightarrow>
          if ex_exit_code res = 0
          then Some \<lparr>res_status = ''succeeded'', res_failure_kind = [], res_exit_code = None, res_error = []\<rparr>
          else Some \<lparr>res_status = ''failed'', res_failure_kind = ''exit_code'', res_exit_code = Some (ex_exit_code res),
            res_error = ''exit code '' @ Itoa (ex_exit_code res) @ (if ex_oom_killed res then '' (out of memory)'' else [])\<rparr>
      | Some msg \<Rightarrow>
          if c = Some errAbort then None
          else if shutdown then Some (infra ''runner shutting down'')
          else Some (infra msg))"

text \<open>
  One attempt with its environment: the decoded spec, the artifact directory, the executor, the
  uploads, the cause of the context's end when the verdict is fixed (when an upload was fenced
  off: when that was learnt), and whether the runner is stopping. The result is the sequence of what the attempt does to the outside.
\<close>

record attempt_env =
  ae_spec :: "string + PJob"
  ae_mkdir :: "string option"
  ae_exec :: "string option \<times> ExecResult"
  ae_upload :: "(cerr \<times> string) option"
  ae_cause :: "cause option"
  ae_shutdown :: bool

datatype effect = Execute | UploadAll | CloseLogs bool | Report Result

definition runAttempt :: "attempt_env \<Rightarrow> effect list" where
  "runAttempt env = (case ae_spec env of
     Inl msg \<Rightarrow> [Report (infra msg)]
   | Inr pj \<Rightarrow>
       (case (if pj_artifacts pj = [] then None else ae_mkdir env) of
          Some msg \<Rightarrow> [Report (infra (''artifact dir: '' @ msg))]
        | None \<Rightarrow>
            (case ae_exec env of (execErr, res) \<Rightarrow>
               let uploads = (execErr = None \<and> ex_exit_code res = 0 \<and> pj_artifacts pj \<noteq> []);
                   failed = (if uploads then ae_upload env else None);
                   execErr' = (case failed of Some (_, msg) \<Rightarrow> Some (''upload artifacts: '' @ msg) | None \<Rightarrow> execErr);
                   c = (case failed of Some (errFenced, _) \<Rightarrow> first_cause errAbort (ae_cause env) | _ \<Rightarrow> ae_cause env);
                   aborted = (execErr' \<noteq> None \<and> c = Some errAbort)
               in [Execute] @ (if uploads then [UploadAll] else []) @ [CloseLogs aborted] @
                  (case attempt_result c execErr' res (ae_shutdown env) of None \<Rightarrow> [] | Some req \<Rightarrow> [Report req]))))"


section \<open>agent.go: the runner\<close>

text \<open>The poll loop: it takes a slot, claims, and either gives the slot back or hands it to a goroutine.\<close>

definition poll_take :: "agent \<Rightarrow> agent" where
  "poll_take g = g\<lparr>ag_sem := Suc (ag_sem g), ag_polling := True\<rparr>"

definition poll_nothing :: "agent \<Rightarrow> agent" where
  "poll_nothing g = g\<lparr>ag_sem := ag_sem g - 1, ag_polling := False\<rparr>"

definition agent_start :: "attemptKey \<Rightarrow> agent \<Rightarrow> agent" where
  "agent_start k g = g\<lparr>ag_polling := False,
     ag_jobs := ag_jobs g @ [(k, Spawned, if ag_stopping g then Some ParentDone else None)]\<rparr>"

text \<open>The goroutine enters itself into \<open>active\<close>, leaves it when the report is out, and then frees its slot.\<close>

definition set_phase :: "attemptKey \<Rightarrow> phase_of_attempt \<Rightarrow> agent \<Rightarrow> agent" where
  "set_phase k p g = g\<lparr>ag_jobs := map (\<lambda>(q, old, c). (q, if q = k then p else old, c)) (ag_jobs g)\<rparr>"

definition attempt_enter :: "attemptKey \<Rightarrow> agent \<Rightarrow> agent" where
  "attempt_enter k g = (set_phase k Entered g)\<lparr>ag_active := List.insert k (ag_active g)\<rparr>"

definition attempt_leave :: "attemptKey \<Rightarrow> agent \<Rightarrow> agent" where
  "attempt_leave k g = (set_phase k Leaving g)\<lparr>ag_active := removeAll k (ag_active g)\<rparr>"

definition attempt_release :: "attemptKey \<Rightarrow> agent \<Rightarrow> agent" where
  "attempt_release k g = g\<lparr>ag_sem := ag_sem g - 1, ag_jobs := filter (\<lambda>j. fst j \<noteq> k) (ag_jobs g)\<rparr>"

definition activeRefs :: "agent \<Rightarrow> attemptKey list" where
  "activeRefs g = ag_active g"

definition set_cause :: "attemptKey \<Rightarrow> cause \<Rightarrow> agent \<Rightarrow> agent" where
  "set_cause k c g = g\<lparr>ag_jobs := map (\<lambda>(q, p, old). (q, p, if q = k then first_cause c old else old)) (ag_jobs g)\<rparr>"

text \<open>A directive is free text on the wire; an unknown one is ignored, and so is one for an attempt that ended.\<close>

definition agent_apply :: "string \<times> int \<times> string \<Rightarrow> agent \<Rightarrow> agent" where
  "agent_apply d g = (case d of (jobID, attempt, what) \<Rightarrow>
     if what = ''abort'' then if (jobID, attempt) \<in> set (ag_active g) then set_cause (jobID, attempt) errAbort g else g
     else if what = ''cancel'' then if (jobID, attempt) \<in> set (ag_active g) then set_cause (jobID, attempt) errCancelled g else g
     else g)"

text \<open>One tick of the heartbeat: no call when idle, nothing done when the call failed.\<close>

definition heartbeat_tick :: "cerr + (string \<times> int \<times> string) list \<Rightarrow> agent \<Rightarrow> agent" where
  "heartbeat_tick r g = (if activeRefs g = [] then g else case r of Inl _ \<Rightarrow> g | Inr ds \<Rightarrow> fold agent_apply ds g)"

definition agent_stop :: "agent \<Rightarrow> agent" where
  "agent_stop g = g\<lparr>ag_stopping := True, ag_jobs := map (\<lambda>(q, p, old). (q, p, first_cause ParentDone old)) (ag_jobs g)\<rparr>"

text \<open>
  The interleaving. The guard of \<open>claim_job\<close> is the server's promise that an attempt is handed
  out once. After the runner's context ended the poll loop may take one more slot, since the
  select of a ready slot and an ended context is free, and a claim already under way may still
  bring a job; the steps allow both.
\<close>

inductive agent_step :: "agent \<Rightarrow> agent \<Rightarrow> bool" where
  take_slot: "\<not> ag_polling g \<Longrightarrow> ag_sem g < ag_capacity g \<Longrightarrow> agent_step g (poll_take g)"
| claim_nothing: "ag_polling g \<Longrightarrow> agent_step g (poll_nothing g)"
| claim_job: "ag_polling g \<Longrightarrow> k \<notin> fst ` set (ag_jobs g) \<Longrightarrow> agent_step g (agent_start k g)"
| enter: "(k, Spawned, c) \<in> set (ag_jobs g) \<Longrightarrow> agent_step g (attempt_enter k g)"
| heartbeat: "agent_step g (heartbeat_tick r g)"
| stale_log: "(k, Entered, c) \<in> set (ag_jobs g) \<Longrightarrow> agent_step g (set_cause k errAbort g)"
| timeout: "(k, Entered, c) \<in> set (ag_jobs g) \<Longrightarrow> agent_step g (set_cause k errTimeout g)"
| stop: "agent_step g (agent_stop g)"
| leave: "(k, Entered, c) \<in> set (ag_jobs g) \<Longrightarrow> agent_step g (attempt_leave k g)"
| release: "(k, Leaving, c) \<in> set (ag_jobs g) \<Longrightarrow> agent_step g (attempt_release k g)"


section \<open>Backoff\<close>

text \<open>A backoff that grows up to a cap. The runner's and the shipper's are two of the kind.\<close>

locale capped_backoff =
  fixes next_delay :: "int \<Rightarrow> int" and cap :: int
  assumes next_bounds: "0 < b \<Longrightarrow> b \<le> cap \<Longrightarrow> b \<le> next_delay b \<and> next_delay b \<le> cap"
begin

lemma delay_bounds: "0 < b \<Longrightarrow> b \<le> cap \<Longrightarrow> 0 < (next_delay ^^ n) b \<and> b \<le> (next_delay ^^ n) b \<and> (next_delay ^^ n) b \<le> cap"
proof (induction n)
  case (Suc n)
  then have "0 < (next_delay ^^ n) b" "b \<le> (next_delay ^^ n) b" "(next_delay ^^ n) b \<le> cap" by simp_all
  with next_bounds [of "(next_delay ^^ n) b"] show ?case by simp
qed simp

end

interpretation agent_backoff: capped_backoff double_backoff maxCompleteBackoff
  by unfold_locales (auto simp: double_backoff_def maxCompleteBackoff_def)

interpretation ship_backoff: capped_backoff next_backoff maxBackoff
  by unfold_locales (auto simp: next_backoff_def maxBackoff_def)

lemma first_delay_bounds: "0 < first_delay b" "first_delay b \<le> maxCompleteBackoff"
  by (auto simp: first_delay_def DefaultCompleteBackoff_def maxCompleteBackoff_def)

text \<open>The reconnect loop hands through the first answer that is not a connection failure, after doubling waits.\<close>

lemma reconnect_answer:
  assumes "r \<noteq> Inl connectionError"
  shows "reconnect d (replicate n (True, Inl connectionError, True) @ (True, r, w) # ts) =
    Some (r, map (\<lambda>i. (double_backoff ^^ i) d) [0..<n])"
proof (induction n arbitrary: d)
  case 0
  show ?case using assms by (cases r) (auto split: cerr.splits)
next
  case (Suc n)
  have "map (\<lambda>i. (double_backoff ^^ i) d) [0..<Suc n] = d # map (\<lambda>i. (double_backoff ^^ i) (double_backoff d)) [0..<n]"
    by (simp only: upt_conv_Cons [OF zero_less_Suc] list.map funpow_0 id_apply map_Suc_upt [symmetric] map_map comp_def)
      (simp add: funpow_swap1)
  with Suc [of "double_backoff d"] show ?case by simp
qed


section \<open>Properties of the runner\<close>

subsection \<open>Slots\<close>

definition in_flight :: "agent \<Rightarrow> attemptKey set" where
  "in_flight g = {k. \<exists>c. (k, Entered, c) \<in> set (ag_jobs g)}"

definition agent_inv :: "nat \<Rightarrow> agent \<Rightarrow> bool" where
  "agent_inv n g \<longleftrightarrow> ag_capacity g = n \<and> ag_sem g = length (ag_jobs g) + (if ag_polling g then 1 else 0) \<and> ag_sem g \<le> n \<and>
     distinct (map fst (ag_jobs g)) \<and> set (ag_active g) = in_flight g"

lemma agent_fields [simp]:
  "ag_capacity (set_cause k c g) = ag_capacity g" "ag_sem (set_cause k c g) = ag_sem g"
  "ag_polling (set_cause k c g) = ag_polling g" "ag_active (set_cause k c g) = ag_active g"
  "ag_capacity (set_phase k p g) = ag_capacity g" "ag_sem (set_phase k p g) = ag_sem g"
  "ag_polling (set_phase k p g) = ag_polling g"
  "length (ag_jobs (set_cause k c g)) = length (ag_jobs g)" "length (ag_jobs (set_phase k p g)) = length (ag_jobs g)"
  by (simp_all add: set_cause_def set_phase_def)

lemma agent_keys [simp]:
  "map fst (ag_jobs (set_cause k c g)) = map fst (ag_jobs g)" "map fst (ag_jobs (set_phase k p g)) = map fst (ag_jobs g)"
  "map fst (ag_jobs (agent_stop g)) = map fst (ag_jobs g)"
  by (simp_all add: set_cause_def set_phase_def agent_stop_def comp_def case_prod_unfold)

lemma in_flight_cause [simp]: "in_flight (set_cause k c g) = in_flight g" "in_flight (agent_stop g) = in_flight g"
  by (force simp: in_flight_def set_cause_def agent_stop_def image_iff)+

lemma set_phase_jobs: "(q, s, c) \<in> set (ag_jobs (set_phase k p g)) \<longleftrightarrow>
    (if q = k then s = p \<and> (\<exists>old. (q, old, c) \<in> set (ag_jobs g)) else (q, s, c) \<in> set (ag_jobs g))"
  by (force simp: set_phase_def)

lemma in_flight_phase:
  assumes "(k, p0, c) \<in> set (ag_jobs g)"
  shows "in_flight (set_phase k p g) = (if p = Entered then insert k (in_flight g) else in_flight g - {k})"
  using assms by (auto simp: in_flight_def set_phase_jobs split: if_splits)

lemma set_cause_inv: "agent_inv n g \<Longrightarrow> agent_inv n (set_cause k c g)"
  by (simp add: agent_inv_def)

lemma apply_inv: "agent_inv n g \<Longrightarrow> agent_inv n (agent_apply d g)"
  by (cases d) (auto simp: agent_apply_def intro: set_cause_inv)

lemma tick_inv: "agent_inv n g \<Longrightarrow> agent_inv n (heartbeat_tick r g)"
proof -
  have "agent_inv n g \<Longrightarrow> agent_inv n (fold agent_apply ds g)" for ds
    by (induction ds arbitrary: g) (auto intro: apply_inv)
  then show "agent_inv n g \<Longrightarrow> ?thesis" by (auto simp: heartbeat_tick_def split: sum.splits)
qed

lemma release_inv:
  assumes "agent_inv n g" and "(k, Leaving, c) \<in> set (ag_jobs g)"
  shows "agent_inv n (attempt_release k g)"
proof -
  have dist: "distinct (map fst (ag_jobs g))" using assms(1) by (simp add: agent_inv_def)
  from keyed_filter [OF this assms(2)] have "length (filter (\<lambda>q. fst q = k) (ag_jobs g)) = 1" by simp
  with sum_length_filter_compl [of "\<lambda>q. fst q = k" "ag_jobs g"]
  have "Suc (length (filter (\<lambda>q. fst q \<noteq> k) (ag_jobs g))) = length (ag_jobs g)" by simp
  moreover have "distinct (map fst (filter (\<lambda>q. fst q \<noteq> k) (ag_jobs g)))" using dist by (simp add: distinct_map inj_on_def)
  moreover have "q \<noteq> k" if "(q, Entered, d) \<in> set (ag_jobs g)" for q d
    using that assms(2) dist unfolding distinct_map inj_on_def by (metis fst_conv snd_conv phase_of_attempt.distinct(5))
  ultimately show ?thesis using assms(1) by (auto simp: agent_inv_def attempt_release_def in_flight_def)
qed

lemma agent_step_inv: "agent_step g g' \<Longrightarrow> agent_inv n g \<Longrightarrow> agent_inv n g'"
proof (induction rule: agent_step.induct)
  case (claim_job g k)
  then show ?case by (auto simp: agent_inv_def agent_start_def in_flight_def)
next
  case (enter k c g)
  then show ?case using in_flight_phase [OF enter(1), of Entered] by (simp add: agent_inv_def attempt_enter_def in_flight_def)
next
  case (leave k c g)
  then show ?case using in_flight_phase [OF leave(1), of Leaving] by (simp add: agent_inv_def attempt_leave_def in_flight_def)
next
  case (stop g)
  moreover have "length (ag_jobs (agent_stop g)) = length (ag_jobs g)" "ag_capacity (agent_stop g) = ag_capacity g"
    "ag_sem (agent_stop g) = ag_sem g" "ag_polling (agent_stop g) = ag_polling g" "ag_active (agent_stop g) = ag_active g"
    by (simp_all add: agent_stop_def)
  ultimately show ?case unfolding agent_inv_def by simp
next
  case (take_slot g)
  then show ?case by (simp add: agent_inv_def poll_take_def in_flight_def)
next
  case (claim_nothing g)
  then show ?case by (simp add: agent_inv_def poll_nothing_def in_flight_def)
qed (blast intro: tick_inv release_inv set_cause_inv)+

lemma agent_New_fresh:
  assumes "agent_New cfg ex = Some (cfg', g)"
  shows "0 < ac_capacity cfg'" "g = \<lparr>ag_capacity = nat (ac_capacity cfg'), ag_sem = 0, ag_polling = False, ag_jobs = [], ag_active = [],
    ag_runner_id = [], ag_stopping = False\<rparr>"
proof -
  have "\<not> (ac_server_url cfg = [] \<or> ac_name cfg = [])" "ex" using assms by (auto simp: agent_New_def split: if_split_asm)
  with assms show "0 < ac_capacity cfg'" "g = \<lparr>ag_capacity = nat (ac_capacity cfg'), ag_sem = 0, ag_polling = False, ag_jobs = [],
    ag_active = [], ag_runner_id = [], ag_stopping = False\<rparr>"
    by (auto simp: agent_New_def Let_def DefaultCapacity_def)
qed

interpretation runner: inductive_invariant "\<lambda>g. \<exists>cfg ex. agent_New cfg ex = Some (cfg', g)" agent_step "agent_inv (nat (ac_capacity cfg'))"
proof
  show "\<exists>cfg ex. agent_New cfg ex = Some (cfg', g) \<Longrightarrow> agent_inv (nat (ac_capacity cfg')) g" for g
    by (auto simp: agent_inv_def in_flight_def dest!: agent_New_fresh(2))
  show "agent_inv n g \<Longrightarrow> agent_step g g' \<Longrightarrow> agent_inv n g'" for n g g' by (rule agent_step_inv)
qed

text \<open>
  C25. Capacity. However polls, claims, heartbeats, timeouts, completions and shutdown interleave, a runner
  runs at most as many attempts at once as its configuration gives slots (at least one), no slot
  is lost or used twice, and its heartbeats name exactly the attempts that have entered and not left.
\<close>

theorem agent_capacity:
  assumes "agent_New cfg ex = Some (cfg', g0)" and "agent_step\<^sup>*\<^sup>* g0 g"
  shows "0 < ac_capacity cfg' \<and> int (length (ag_jobs g)) \<le> ac_capacity cfg' \<and>
    ag_sem g = length (ag_jobs g) + (if ag_polling g then 1 else 0) \<and> int (ag_sem g) \<le> ac_capacity cfg' \<and>
    set (activeRefs g) = in_flight g \<and> distinct (map fst (ag_jobs g))"
proof -
  have "0 < ac_capacity cfg'" by (rule agent_New_fresh(1) [OF assms(1)])
  moreover have "agent_inv (nat (ac_capacity cfg')) g" using runner.reachable_I assms by blast
  ultimately show ?thesis by (auto simp: agent_inv_def activeRefs_def)
qed

definition demo_agent_config :: agent_config where
  "demo_agent_config = \<lparr>ac_server_url = ''http://q'', ac_token = ''t'', ac_name = ''r'', ac_labels = [], ac_capacity = 1,
     ac_version = [], ac_poll_interval = 0, ac_heartbeat_interval = 0, ac_complete_retries = 0, ac_complete_backoff = 0,
     ac_log_flush_interval = 0, ac_log_flush_bytes = 0, ac_log_flush_timeout = 0\<rparr>"

definition demo_agent :: agent where
  "demo_agent = snd (the (agent_New demo_agent_config True))"

theorem agent_capacity_witness:
  "\<exists>g. agent_step\<^sup>*\<^sup>* demo_agent g \<and> ag_jobs g = [((''4'', 1), Entered, Some errCancelled)] \<and> set (activeRefs g) = in_flight g"
proof -
  let ?k = "(''4'', 1) :: attemptKey" let ?g1 = "poll_take demo_agent"
  let ?g2 = "agent_start ?k ?g1" let ?g3 = "attempt_enter ?k ?g2"
  let ?g4 = "heartbeat_tick (Inr [(''4'', 1, ''cancel'')]) ?g3"
  have new: "agent_New demo_agent_config True = Some (fst (the (agent_New demo_agent_config True)), demo_agent)"
    by (simp add: demo_agent_def agent_New_def demo_agent_config_def)
  have "agent_step demo_agent ?g1" by (rule take_slot) code_simp+
  moreover have "agent_step ?g1 ?g2" by (rule claim_job) code_simp+
  moreover have "agent_step ?g2 ?g3" by (rule enter [of _ None]) code_simp
  moreover have "agent_step ?g3 ?g4" by (rule heartbeat)
  ultimately have r: "agent_step\<^sup>*\<^sup>* demo_agent ?g4" by (meson r_into_rtranclp rtranclp.rtrancl_into_rtrancl)
  have "ag_jobs ?g4 = [((''4'', 1), Entered, Some errCancelled)]" by code_simp
  with agent_capacity [OF new r] r show ?thesis by blast
qed


subsection \<open>Reports\<close>

text \<open>
  How an attempt ended, in terms of its environment: it never started (no spec, or no directory
  for its artifacts), or its execution or the upload of its artifacts broke off.
\<close>

definition never_started :: "attempt_env \<Rightarrow> bool" where
  "never_started env = (case ae_spec env of Inl _ \<Rightarrow> True | Inr pj \<Rightarrow> pj_artifacts pj \<noteq> [] \<and> ae_mkdir env \<noteq> None)"

definition broke_off :: "attempt_env \<Rightarrow> bool" where
  "broke_off env = (case ae_exec env of (execErr, res) \<Rightarrow> execErr \<noteq> None \<or> ex_exit_code res = 0 \<and> ae_upload env \<noteq> None \<and>
     (case ae_spec env of Inl _ \<Rightarrow> False | Inr pj \<Rightarrow> pj_artifacts pj \<noteq> []))"

lemma report_fields:
  assumes "Report req \<in> set (runAttempt env)"
  shows "never_started env \<Longrightarrow> res_status req = ''failed'' \<and> res_failure_kind req = ''infra''"
    and "\<not> never_started env \<Longrightarrow> (case ae_cause env of
        Some errTimeout \<Rightarrow> res_status req = ''failed'' \<and> res_failure_kind req = ''timeout''
      | Some errCancelled \<Rightarrow> res_status req = ''failed'' \<and> res_failure_kind req = ''cancelled''
      | c \<Rightarrow> if broke_off env then res_status req = ''failed'' \<and> res_failure_kind req = ''infra''
          else if ex_exit_code (snd (ae_exec env)) = 0 then res_status req = ''succeeded''
          else res_status req = ''failed'' \<and> res_failure_kind req = ''exit_code'' \<and>
            res_exit_code req = Some (ex_exit_code (snd (ae_exec env))))"
proof -
  show "res_status req = ''failed'' \<and> res_failure_kind req = ''infra''" if "never_started env"
    using assms that by (auto simp: runAttempt_def never_started_def infra_def split: sum.splits option.splits if_splits)
  assume started: "\<not> never_started env"
  then obtain pj where pj: "ae_spec env = Inr pj" "(if pj_artifacts pj = [] then None else ae_mkdir env) = None"
    by (auto simp: never_started_def split: sum.splits)
  obtain execErr res where ex: "ae_exec env = (execErr, res)" by fastforce
  define up where "up \<longleftrightarrow> execErr = None \<and> ex_exit_code res = 0 \<and> pj_artifacts pj \<noteq> []"
  define failed where "failed = (if up then ae_upload env else None)"
  define err where "err = (case failed of Some (_, msg) \<Rightarrow> Some (''upload artifacts: '' @ msg) | None \<Rightarrow> execErr)"
  define c where "c = (case failed of Some (errFenced, _) \<Rightarrow> first_cause errAbort (ae_cause env) | _ \<Rightarrow> ae_cause env)"
  have req: "attempt_result c err res (ae_shutdown env) = Some req"
    using assms pj ex unfolding runAttempt_def up_def failed_def err_def c_def
    by (auto simp: Let_def split: option.splits if_splits)
  have broke: "broke_off env \<longleftrightarrow> err \<noteq> None"
    using pj(1) ex by (auto simp: broke_off_def err_def failed_def up_def split: option.splits)
  have cause: "c = ae_cause env \<or> ae_cause env = None \<and> c = Some errAbort \<and> err \<noteq> None"
    by (auto simp: c_def err_def first_cause_def split: option.splits cerr.splits)
  show "case ae_cause env of
        Some errTimeout \<Rightarrow> res_status req = ''failed'' \<and> res_failure_kind req = ''timeout''
      | Some errCancelled \<Rightarrow> res_status req = ''failed'' \<and> res_failure_kind req = ''cancelled''
      | c \<Rightarrow> if broke_off env then res_status req = ''failed'' \<and> res_failure_kind req = ''infra''
          else if ex_exit_code (snd (ae_exec env)) = 0 then res_status req = ''succeeded''
          else res_status req = ''failed'' \<and> res_failure_kind req = ''exit_code'' \<and>
            res_exit_code req = Some (ex_exit_code (snd (ae_exec env)))"
    using req cause unfolding broke
    by (auto simp: attempt_result_def infra_def ex split: option.splits cause.splits if_splits)
qed

lemma outcome_kinds:
  "res_status r = ''succeeded'' \<Longrightarrow> j_state (outcome j r n) = JobSucceeded"
  "res_status r = ''failed'' \<Longrightarrow> res_failure_kind r = ''timeout'' \<Longrightarrow>
     j_state (outcome j r n) = JobFailed \<and> j_failure_kind (outcome j r n) = Some FailureTimeout"
  "res_status r = ''failed'' \<Longrightarrow> res_failure_kind r = ''exit_code'' \<Longrightarrow>
     j_state (outcome j r n) = JobFailed \<and> j_failure_kind (outcome j r n) = Some FailureExitCode \<and>
     j_exit_code (outcome j r n) = res_exit_code r"
  "res_status r = ''failed'' \<Longrightarrow> res_failure_kind r = ''cancelled'' \<Longrightarrow> (if j_cancel_reason j = Some CancelReasonTimeout
     then j_state (outcome j r n) = JobFailed \<and> j_failure_kind (outcome j r n) = Some FailureTimeout
     else j_state (outcome j r n) = JobCancelled)"
  "res_status r = ''failed'' \<Longrightarrow> res_failure_kind r = ''infra'' \<Longrightarrow>
     (if j_attempt j < j_max_attempts j \<and> j_cancel_requested_at j \<in> {None, Some 0}
      then j_state (outcome j r n) = JobQueued \<and> j_runner_id (outcome j r n) = None \<and> j_lease_expires_at (outcome j r n) = None
      else j_state (outcome j r n) = JobFailed \<and> j_failure_kind (outcome j r n) = Some FailureInfra)"
  by (simp_all add: outcome_def Let_def)

lemma report_known:
  assumes "Report req \<in> set (runAttempt env)"
  shows "report_ok req"
  using report_fields [OF assms]
  by (cases "never_started env") (auto simp: report_ok_def split: option.splits cause.splits if_splits)

text \<open>What the stored row says of an attempt, by how the attempt ended.\<close>

definition row_says :: "attempt_env \<Rightarrow> Job \<Rightarrow> Job \<Rightarrow> bool" where
  "row_says env j row \<longleftrightarrow>
    (if never_started env \<or> ae_cause env \<notin> {Some errTimeout, Some errCancelled} \<and> broke_off env
     then if j_attempt j < j_max_attempts j \<and> j_cancel_requested_at j \<in> {None, Some 0}
       then j_state row = JobQueued \<and> j_runner_id row = None \<and> j_lease_expires_at row = None
       else j_state row = JobFailed \<and> j_failure_kind row = Some FailureInfra
     else if ae_cause env = Some errTimeout then j_state row = JobFailed \<and> j_failure_kind row = Some FailureTimeout
     else if ae_cause env = Some errCancelled
     then if j_cancel_reason j = Some CancelReasonTimeout
       then j_state row = JobFailed \<and> j_failure_kind row = Some FailureTimeout else j_state row = JobCancelled
     else if ex_exit_code (snd (ae_exec env)) = 0 then j_state row = JobSucceeded
     else j_state row = JobFailed \<and> j_failure_kind row = Some FailureExitCode \<and>
       j_exit_code row = Some (ex_exit_code (snd (ae_exec env))))"

lemma outcome_says:
  assumes "Report req \<in> set (runAttempt env)"
  shows "row_says env j (outcome j req now)"
proof -
  note f = report_fields [OF assms]
  show ?thesis
  proof (cases "never_started env")
    case True
    with f(1) outcome_kinds(5) [of req j] show ?thesis by (simp add: row_says_def)
  next
    case False
    consider "ae_cause env = Some errTimeout" | "ae_cause env = Some errCancelled"
      | "ae_cause env \<notin> {Some errTimeout, Some errCancelled}" by blast
    then show ?thesis
    proof cases
      case 1 with False f(2) outcome_kinds(2) [of req j] show ?thesis by (simp add: row_says_def)
    next
      case 2 with False f(2) outcome_kinds(4) [of req j] show ?thesis by (simp add: row_says_def)
    next
      case 3
      with False f(2) have "if broke_off env then res_status req = ''failed'' \<and> res_failure_kind req = ''infra''
          else if ex_exit_code (snd (ae_exec env)) = 0 then res_status req = ''succeeded''
          else res_status req = ''failed'' \<and> res_failure_kind req = ''exit_code'' \<and>
            res_exit_code req = Some (ex_exit_code (snd (ae_exec env)))" by (simp split: option.splits cause.splits)
      then show ?thesis using False 3 outcome_kinds(1,3,5) [of req j] by (auto simp: row_says_def split: if_splits)
    qed
  qed
qed

lemma report_accepted:
  assumes inv: "store_inv (st (sv_sched sv))" and j: "j \<in> set (t_jobs (st (sv_sched sv)))" "j_state j = JobRunning"
    and "runnerID \<noteq> []" and rep: "Report req \<in> set (runAttempt env)"
  shows "\<exists>row sv'. handleComplete (j_id j) (BodyOK (runnerID, j_attempt j, req)) sv = ((200, Some row), sv') \<and>
    row \<in> set (t_jobs (st (sv_sched sv'))) \<and> j_id row = j_id j \<and> j_attempt row = j_attempt j \<and>
    row_says env j row"
proof -
  have "job_wf j" using inv j(1) by (simp add: store_inv_def base_def)
  then have a: "0 < j_attempt j" using j(2) by (auto simp: job_wf_def)
  define row where "row = outcome j req (clock (st (sv_sched sv)) (reads (st (sv_sched sv))))"
  from Complete_outcome [OF inv j report_known [OF rep]] obtain sc'
    where c: "Complete (sv_sched sv) (j_id j) (j_attempt j) req = (Inr row, sc')" "row \<in> set (t_jobs (st sc'))"
    unfolding row_def by blast
  have "handleComplete (j_id j) (BodyOK (runnerID, j_attempt j, req)) sv = ((200, Some row), sv\<lparr>sv_sched := sc'\<rparr>)"
    using c(1) assms(4) a by (simp add: handleComplete_def decodeBody_def)
  moreover have "j_id row = j_id j" "j_attempt row = j_attempt j" by (simp_all add: row_def outcome_def Let_def)
  ultimately show ?thesis using c(2) outcome_says [OF rep]
    by (intro exI [of _ row] exI [of _ "sv\<lparr>sv_sched := sc'\<rparr>"] conjI) (simp_all add: row_def)
qed

text \<open>
  C26. Verdicts the server understands. Every report of an attempt, also of one that never started, is accepted by
  the server while the attempt is the running one, and the stored row says how the attempt ended:
  failed by timeout; cancelled (or timed out, when the server's backstop asked for it); succeeded
  on exit code zero; failed with its exit code otherwise; and, when the attempt never started or
  the runner, its executor or an upload failed, queued again while attempts are left and nobody
  cancelled, failed if not.
\<close>

theorem reports_settle:
  assumes "sys_init sv0" and "(sys_step decode)\<^sup>*\<^sup>* sv0 sv" and "j \<in> set (t_jobs (st (sv_sched sv)))"
    and "j_state j = JobRunning" and "runnerID \<noteq> []" and "Report req \<in> set (runAttempt env)"
  shows "\<exists>row sv'. handleComplete (j_id j) (BodyOK (runnerID, j_attempt j, req)) sv = ((200, Some row), sv') \<and>
    row \<in> set (t_jobs (st (sv_sched sv'))) \<and> j_id row = j_id j \<and> j_attempt row = j_attempt j \<and>
    row_says env j row"
  by (rule report_accepted [OF reach_inv(1) [OF assms(1,2)] assms(3-6)])

definition demo_attempt :: attempt_env where
  "demo_attempt = \<lparr>ae_spec = Inr \<lparr>pj_name = ''build'', pj_image = ''i'', pj_steps = [''make''], pj_needs = [], pj_env = [], pj_labels = [],
     pj_artifacts = [''dist''], pj_timeout = 0, pj_resources = \<lparr>res_cpu = Fin 0, res_memory = []\<rparr>\<rparr>, ae_mkdir = None,
     ae_exec = (None, \<lparr>ex_exit_code = 0, ex_oom_killed = False, ex_duration = 1\<rparr>), ae_upload = None, ae_cause = None, ae_shutdown = False\<rparr>"

lemma demo_attempt_run: "runAttempt demo_attempt = [Execute, UploadAll, CloseLogs False,
    Report \<lparr>res_status = ''succeeded'', res_failure_kind = [], res_exit_code = None, res_error = []\<rparr>]"
  by (simp add: runAttempt_def demo_attempt_def attempt_result_def Let_def)

theorem reports_settle_witness:
  "\<exists>row sv'. handleComplete ''4'' (BodyOK (''r1'', 2, demo_result ''succeeded'' [])) demo_sv4 = ((200, Some row), sv') \<and>
     j_id row = ''4'' \<and> j_state row = JobSucceeded"
proof -
  obtain j where j: "j \<in> set (t_jobs (st (sv_sched demo_sv4)))" "j_id j = ''4''" "j_state j = JobRunning" "j_attempt j = 2"
    by (rule demo_running)
  have "Report (demo_result ''succeeded'' []) \<in> set (runAttempt demo_attempt)"
    by (simp add: demo_attempt_run demo_result_def)
  from reports_settle [OF demo_sv0_init demo_reach(4) j(1,3) _ this, of "''r1''"] j(2,4) show ?thesis
    by (auto simp: row_says_def never_started_def broke_off_def demo_attempt_def)
qed

text \<open>
  Order within an attempt. An attempt reports at most once, as its last act, and only an attempt the server
  aborted reports nothing; a report after an execution comes after the flush of the logs, and the
  artifacts go up before that flush.
\<close>

theorem report_comes_last:
  "\<exists>pre post. runAttempt env = pre @ post \<and> (post = [] \<or> (\<exists>req. post = [Report req])) \<and> (\<forall>req. Report req \<notin> set pre) \<and>
    (pre = [] \<or> (\<exists>aborted. pre \<in> {[Execute, CloseLogs aborted], [Execute, UploadAll, CloseLogs aborted]} \<and>
      (post = [] \<longrightarrow> aborted))) \<and> (pre = [] \<longrightarrow> post \<noteq> [])"
proof (cases "ae_spec env")
  case (Inl msg)
  then show ?thesis by (intro exI [of _ "[]"] exI [of _ "[Report (infra msg)]"]) (simp add: runAttempt_def)
next
  case (Inr pj)
  show ?thesis
  proof (cases "if pj_artifacts pj = [] then None else ae_mkdir env")
    case (Some msg)
    then show ?thesis using Inr
      by (intro exI [of _ "[]"] exI [of _ "[Report (infra (''artifact dir: '' @ msg))]"]) (simp add: runAttempt_def)
  next
    case None
    obtain execErr res where ex: "ae_exec env = (execErr, res)" by (cases "ae_exec env")
    define uploads where "uploads \<longleftrightarrow> execErr = None \<and> ex_exit_code res = 0 \<and> pj_artifacts pj \<noteq> []"
    define failed where "failed = (if uploads then ae_upload env else None)"
    define execErr' where "execErr' = (case failed of Some (_, msg) \<Rightarrow> Some (''upload artifacts: '' @ msg) | None \<Rightarrow> execErr)"
    define c where "c = (case failed of Some (errFenced, _) \<Rightarrow> first_cause errAbort (ae_cause env) | _ \<Rightarrow> ae_cause env)"
    define pre where "pre = [Execute] @ (if uploads then [UploadAll] else []) @ [CloseLogs (execErr' \<noteq> None \<and> c = Some errAbort)]"
    define post where "post = (case attempt_result c execErr' res (ae_shutdown env) of None \<Rightarrow> [] | Some req \<Rightarrow> [Report req])"
    have "runAttempt env = pre @ post"
      using Inr None ex unfolding runAttempt_def pre_def post_def c_def execErr'_def failed_def uploads_def by (simp add: Let_def)
    moreover have "execErr' \<noteq> None \<and> c = Some errAbort" if "post = []"
      using that by (auto simp: post_def attempt_result_def split: option.splits if_splits)
    moreover have "post = [] \<or> (\<exists>req. post = [Report req])" by (auto simp: post_def split: option.splits)
    moreover have "\<exists>aborted. pre \<in> {[Execute, CloseLogs aborted], [Execute, UploadAll, CloseLogs aborted]} \<and> (post = [] \<longrightarrow> aborted)"
      using calculation(2) by (cases uploads) (auto simp: pre_def)
    moreover have "\<forall>req. Report req \<notin> set pre" by (simp add: pre_def)
    ultimately show ?thesis by (intro exI [of _ pre] exI [of _ post]) auto
  qed
qed

theorem report_comes_last_witness:
  "\<exists>pre req. runAttempt demo_attempt = pre @ [Report req] \<and> (\<forall>q. Report q \<notin> set pre) \<and> res_status req = ''succeeded''"
proof -
  note run = demo_attempt_run
  from report_comes_last [of demo_attempt] obtain pre post where pp: "runAttempt demo_attempt = pre @ post"
    "post = [] \<or> (\<exists>req. post = [Report req])" "\<forall>req. Report req \<notin> set pre" by blast
  from pp(1,3) run have "post \<noteq> []" by auto
  with pp(2) obtain req where post: "post = [Report req]" by blast
  have "last (runAttempt demo_attempt) = Report req" using pp(1) post by simp
  with run have "res_status req = ''succeeded''" by auto
  with pp(1,3) post show ?thesis by blast
qed


subsection \<open>Retries\<close>

definition final_try :: "cerr + unit \<Rightarrow> bool" where
  "final_try r \<longleftrightarrow> (case r of Inr _ \<Rightarrow> True | Inl e \<Rightarrow> e = errFenced \<or> (case e of statusError c \<Rightarrow> c < 500 | _ \<Rightarrow> False))"

lemma retry_loop_spec:
  assumes "n \<le> length ts" and "0 < b" and "b \<le> maxCompleteBackoff"
  shows "\<exists>r ws k. retry_loop n again b err ts = Some (r, ws, k) \<and> k \<le> n \<and> length ws \<le> n \<and>
    (\<forall>w \<in> set ws. 0 < w \<and> w \<le> maxCompleteBackoff) \<and>
    (\<forall>i < k - 1. \<not> final_try (fst (snd (ts ! i)))) \<and>
    (r = Inr () \<longrightarrow> 0 < k \<and> fst (snd (ts ! (k - 1))) = Inr ()) \<and>
    (\<forall>i < n. i < k \<longrightarrow> fst (snd (ts ! i)) = Inr () \<longrightarrow> r = Inr ())"
  using assms
proof (induction n again b err ts rule: retry_loop.induct)
  case (3 n again b err waited r alive ts)
  show ?case
  proof (cases "again \<and> \<not> waited \<or> final_try r \<or> \<not> alive")
    case True
    then show ?thesis using 3(3,4) by (cases r) (auto simp: final_try_def Let_def Retryable_def split: cerr.splits if_splits)
  next
    case False
    then obtain e where r: "r = Inl e" and e: "e \<noteq> errFenced" "\<not> (case e of statusError c \<Rightarrow> \<not> Retryable c | _ \<Rightarrow> False)"
      by (cases r) (auto simp: final_try_def Retryable_def split: cerr.splits)
    define b' where "b' = (if again then double_backoff b else b)"
    have b': "0 < b'" "b' \<le> maxCompleteBackoff" using agent_backoff.next_bounds [OF 3(3,4)] 3(3,4) by (auto simp: b'_def)
    from 3(1) [of "if again then [b] else []" b' e] False r e b' 3(2)
    obtain r' ws k where rest: "retry_loop n True b' (Some e) ts = Some (r', ws, k)" "k \<le> n" "length ws \<le> n"
      "\<forall>w \<in> set ws. 0 < w \<and> w \<le> maxCompleteBackoff" "\<forall>i < k - 1. \<not> final_try (fst (snd (ts ! i)))"
      "r' = Inr () \<longrightarrow> 0 < k \<and> fst (snd (ts ! (k - 1))) = Inr ()"
      "\<forall>i < n. i < k \<longrightarrow> fst (snd (ts ! i)) = Inr () \<longrightarrow> r' = Inr ()" by (auto simp: b'_def)
    have "retry_loop (Suc n) again b err ((waited, r, alive) # ts) = Some (r', (if again then [b] else []) @ ws, Suc k)"
      using False r e rest(1) by (auto simp: Let_def b'_def)
    moreover have "\<not> final_try (fst (snd (((waited, r, alive) # ts) ! i)))" if "i < Suc k - 1" for i
      using that rest(5) False by (cases i) auto
    ultimately show ?thesis using rest 3(3,4) r
      by (intro exI [of _ r'] exI [of _ "(if again then [b] else []) @ ws"] exI [of _ "Suc k"]) (auto simp: nth_Cons split: nat.splits)
  qed
qed simp_all

text \<open>
  Bounded retries. Reporting a result ends: it makes at most the configured number of tries, waits at
  most ten seconds before each, never repeats a try that was accepted, fenced off or rejected, and
  reports success exactly when its last try was accepted.
\<close>

theorem complete_retries_end:
  assumes "attempts \<le> length ts" and "0 < backoff"
  shows "\<exists>r ws k. completeWithRetry attempts backoff ts = Some (r, ws, k) \<and> k \<le> attempts \<and> length ws \<le> attempts \<and>
    (\<forall>w \<in> set ws. w \<le> maxCompleteBackoff) \<and> (\<forall>i < k - 1. \<not> final_try (fst (snd (ts ! i)))) \<and>
    (r = Inr () \<longleftrightarrow> 0 < k \<and> fst (snd (ts ! (k - 1))) = Inr ())"
proof -
  have "0 < min backoff maxCompleteBackoff" "min backoff maxCompleteBackoff \<le> maxCompleteBackoff"
    using assms(2) by (simp_all add: maxCompleteBackoff_def)
  from retry_loop_spec [OF assms(1) this, of False None] obtain r ws k
    where "retry_loop attempts False (min backoff maxCompleteBackoff) None ts = Some (r, ws, k)" "k \<le> attempts" "length ws \<le> attempts"
      "\<forall>w \<in> set ws. 0 < w \<and> w \<le> maxCompleteBackoff" "\<forall>i < k - 1. \<not> final_try (fst (snd (ts ! i)))"
      "r = Inr () \<longrightarrow> 0 < k \<and> fst (snd (ts ! (k - 1))) = Inr ()"
      "\<forall>i < attempts. i < k \<longrightarrow> fst (snd (ts ! i)) = Inr () \<longrightarrow> r = Inr ()" by blast
  moreover from this(2,7) have "0 < k \<and> fst (snd (ts ! (k - 1))) = Inr () \<longrightarrow> r = Inr ()"
    by (metis diff_less less_le_trans zero_less_one)
  ultimately show ?thesis unfolding completeWithRetry_def by blast
qed

theorem complete_retries_end_witness:
  "\<exists>r ws k. completeWithRetry 3 1000 [(True, Inl (statusError 500), True), (True, Inr (), True), (True, Inr (), True)] = Some (r, ws, k) \<and> k \<le> 3"
  using complete_retries_end [of 3 "[(True, Inl (statusError 500), True), (True, Inr (), True), (True, Inr (), True)]" 1000] by fastforce

subsection \<open>Sources\<close>

lemma source_loop_whole:
  "source_loop d ts spool = Some (Inr (Some bs)) \<Longrightarrow> \<exists>alive w. (alive, SourceFound bs True, w) \<in> set ts"
proof (induction ts arbitrary: d spool)
  case (Cons t ts)
  obtain alive r w where t: "t = (alive, r, w)" by (cases t)
  show ?case
  proof (cases "\<exists>spool'. source_try r spool = (Inl connectionError, spool')")
    case True
    with Cons t show ?thesis by (fastforce split: if_splits)
  next
    case False
    with Cons.prems t have "r = SourceFound bs True"
      by (cases r) (auto simp: source_try_def Let_def split: if_splits)
    with t show ?thesis by auto
  qed
qed simp

lemma source_loop_none:
  "source_loop d ts spool = Some (Inr None) \<Longrightarrow> \<exists>alive w. (alive, SourceNone, w) \<in> set ts"
proof (induction ts arbitrary: d spool)
  case (Cons t ts)
  obtain alive r w where t: "t = (alive, r, w)" by (cases t)
  show ?case
  proof (cases "\<exists>spool'. source_try r spool = (Inl connectionError, spool')")
    case True
    with Cons t show ?thesis by (fastforce split: if_splits)
  next
    case False
    with Cons.prems t have "r = SourceNone"
      by (cases r) (auto simp: source_try_def Let_def split: if_splits)
    with t show ?thesis by auto
  qed
qed simp

text \<open>
  Source bundles are whole. When a download succeeds after broken ones, the executor gets the complete body of
  one reply, never a mixture; it is told there is no bundle only if the server said so.
\<close>

theorem source_is_whole:
  assumes "client_source backoff ts = Some (Inr found)"
  shows "(\<forall>bs. found = Some bs \<longrightarrow> (\<exists>alive w. (alive, SourceFound bs True, w) \<in> set ts)) \<and>
    (found = None \<longrightarrow> (\<exists>alive w. (alive, SourceNone, w) \<in> set ts))"
  using source_loop_whole source_loop_none assms unfolding client_source_def by blast

theorem source_is_whole_witness:
  "\<exists>alive w. (alive, SourceFound ''tar'' True, w) \<in> set [(True, SourceFound ''t'' False, True), (True, SourceFound ''tar'' True, True)]"
proof -
  have "client_source 0 [(True, SourceFound ''t'' False, True), (True, SourceFound ''tar'' True, True)] = Some (Inr (Some ''tar''))"
    by code_simp
  from source_is_whole [OF this] show ?thesis by blast
qed

end
