(* ===== verification/Docker.thy ===== *)
theory Docker
  imports Executor Artifact_Store "HOL-Library.Word"
begin

text \<open>
  internal/executor/docker: memory limits, the environment and the script of a job, the artifacts
  that leave a container, one attempt as a sequence of calls to the daemon, and the reaping of what
  a previous process left behind. The daemon's answers are inputs.
\<close>


section \<open>docker.go: limits\<close>

text \<open>
  \<open>strings.ToLower\<close>, as far as \<open>parseMemory\<close> can tell: besides the ASCII capitals only the Kelvin
  sign and the dotted capital I become ASCII letters, and any other non-ASCII letter stays one
  and makes the number unreadable either way.
\<close>

fun lower :: "string \<Rightarrow> string" where
  "lower (a # b # c # cs) =
     (if of_char a = (0xE2 :: nat) \<and> of_char b = (0x84 :: nat) \<and> of_char c = (0xAA :: nat) then CHR ''k'' # lower cs
      else if of_char a = (0xC4 :: nat) \<and> of_char b = (0xB0 :: nat) then CHR ''i'' # lower (c # cs)
      else (if 65 \<le> (of_char a :: nat) \<and> (of_char a :: nat) \<le> 90 then char_of (of_char a + 32 :: nat) else a) # lower (b # c # cs))"
| "lower [a, b] =
     (if of_char a = (0xC4 :: nat) \<and> of_char b = (0xB0 :: nat) then [CHR ''i'']
      else (if 65 \<le> (of_char a :: nat) \<and> (of_char a :: nat) \<le> 90 then char_of (of_char a + 32 :: nat) else a) # lower [b])"
| "lower [a] = [if 65 \<le> (of_char a :: nat) \<and> (of_char a :: nat) \<le> 90 then char_of (of_char a + 32 :: nat) else a]"
| "lower [] = []"

text \<open>\<open>strings.TrimSpace\<close>: white space of Unicode, on the bytes of its UTF-8 form; the right side on the reversed string.\<close>

fun trim_left :: "string \<Rightarrow> string" where
  "trim_left (a # b # c # cs) =
     (if ascii_space a then trim_left (b # c # cs) else if space2 a b then trim_left (c # cs)
      else if space3 a b c then trim_left cs else a # b # c # cs)"
| "trim_left [a, b] = (if ascii_space a then trim_left [b] else if space2 a b then [] else [a, b])"
| "trim_left [a] = (if ascii_space a then [] else [a])"
| "trim_left [] = []"

fun trim_right_rev :: "string \<Rightarrow> string" where
  "trim_right_rev (c # b # a # cs) =
     (if ascii_space c then trim_right_rev (b # a # cs) else if space2 b c then trim_right_rev (a # cs)
      else if space3 a b c then trim_right_rev cs else c # b # a # cs)"
| "trim_right_rev [b, a] = (if ascii_space b then trim_right_rev [a] else if space2 a b then [] else [b, a])"
| "trim_right_rev [a] = (if ascii_space a then [] else [a])"
| "trim_right_rev [] = []"

definition TrimSpace :: "string \<Rightarrow> string" where
  "TrimSpace s = rev (trim_right_rev (rev (trim_left s)))"

definition TrimSuffix :: "string \<Rightarrow> char \<Rightarrow> string" where
  "TrimSuffix s c = (if s \<noteq> [] \<and> last s = c then butlast s else s)"

text \<open>\<open>strconv.ParseInt(t, 10, 64)\<close>: an optional sign, digits, and a range check.\<close>

definition is_digit :: "char \<Rightarrow> bool" where
  "is_digit c \<longleftrightarrow> 48 \<le> (of_char c :: nat) \<and> (of_char c :: nat) \<le> 57"

definition digits_value :: "string \<Rightarrow> nat" where
  "digits_value ds = foldl (\<lambda>n c. 10 * n + (of_char c - 48)) 0 ds"

definition ParseInt64 :: "string \<Rightarrow> int option" where
  "ParseInt64 t =
     (let neg = (t \<noteq> [] \<and> hd t = CHR ''-'');
          ds = (if t \<noteq> [] \<and> (hd t = CHR ''-'' \<or> hd t = CHR ''+'') then tl t else t);
          n = (if neg then - int (digits_value ds) else int (digits_value ds))
      in if ds = [] \<or> \<not> list_all is_digit ds then None
         else if n < - (2 ^ 63) \<or> 2 ^ 63 \<le> n then None else Some n)"

definition memory_unit :: "string \<Rightarrow> int \<times> string" where
  "memory_unit t =
     (if t = [] then (1, t)
      else if last t = CHR ''k'' then (2 ^ 10, butlast t)
      else if last t = CHR ''m'' then (2 ^ 20, butlast t)
      else if last t = CHR ''g'' then (2 ^ 30, butlast t)
      else (1, t))"

text \<open>The product is an \<open>int64\<close>: it wraps.\<close>

definition parseMemory :: "string \<Rightarrow> exec_error + int" where
  "parseMemory s =
     (let t = TrimSuffix (TrimSuffix (lower (TrimSpace s)) (CHR ''b'')) (CHR ''i'');
          (mult, t') = memory_unit t
      in case ParseInt64 t' of
           None \<Rightarrow> Inl (Platform (''docker: resources.memory '' @ s @ '' is not a size like 512m or 1Gi''))
         | Some n \<Rightarrow> if n \<le> 0 then Inl (Platform (''docker: resources.memory '' @ s @ '' is not a size like 512m or 1Gi''))
             else Inr (sint (word_of_int (n * mult) :: 64 word)))"

text \<open>\<open>nano\<close> is \<open>int64(cpu * 1e9)\<close>, an operation of floating point.\<close>

record HostConfig =
  hc_volume :: string
  hc_target :: string
  hc_memory :: int
  hc_nano_cpus :: int

definition float_positive :: "float64 \<Rightarrow> bool" where
  "float_positive x = (case x of Fin q \<Rightarrow> 0 < q | PosInf \<Rightarrow> True | _ \<Rightarrow> False)"

definition hostConfig :: "(float64 \<Rightarrow> int) \<Rightarrow> string \<Rightarrow> Resources \<Rightarrow> exec_error + HostConfig" where
  "hostConfig nano vol r =
     (let hc = \<lparr>hc_volume = vol, hc_target = ''/workspace'', hc_memory = 0, hc_nano_cpus = 0\<rparr>;
          cpus = (\<lambda>hc. if float_positive (res_cpu r) then hc\<lparr>hc_nano_cpus := nano (res_cpu r)\<rparr> else hc)
      in if res_memory r \<noteq> [] then (case parseMemory (res_memory r) of Inl e \<Rightarrow> Inl e | Inr b \<Rightarrow> Inr (cpus (hc\<lparr>hc_memory := b\<rparr>)))
         else Inr (cpus hc))"


section \<open>docker.go: environment and script\<close>

definition platformEnv :: "string list" where
  "platformEnv = [''CI'', ''QUARRY_JOB'', ''QUARRY_RUN'', ''QUARRY_ATTEMPT'']"

definition platform_value :: "JobSpec \<Rightarrow> string \<Rightarrow> string option" where
  "platform_value spec k =
     map_of [(''CI'', ''true''), (''QUARRY_JOB'', js_job_id spec), (''QUARRY_RUN'', js_run_id spec),
       (''QUARRY_ATTEMPT'', Itoa (js_attempt spec))] k"

text \<open>Go iterates a map in any order: the job's own variables are listed in the order given.\<close>

definition docker_env :: "JobSpec \<Rightarrow> string list" where
  "docker_env spec =
     map (\<lambda>(k, v). k @ ''='' @ v) (filter (\<lambda>(k, v). platform_value spec k = None) (pj_env (js_job spec))) @
     map (\<lambda>k. k @ ''='' @ the (platform_value spec k)) platformEnv"

definition quote_step :: "string \<Rightarrow> string" where
  "quote_step s = concat (map (\<lambda>c. if c = CHR 39 then [CHR 39, CHR 92, CHR 39, CHR 39] else [c]) s)"

definition script_step :: "string \<Rightarrow> string" where
  "script_step s = ''echo '' @ [CHR 39] @ ''+ '' @ quote_step s @ [CHR 39, CHR 10] @ s @ [CHR 10]"

definition runScript :: "string list \<Rightarrow> string" where
  "runScript steps = ''#!/bin/sh'' @ [CHR 10] @ ''set -e'' @ [CHR 10] @ concat (map script_step steps)"


section \<open>artifacts.go\<close>

text \<open>\<open>path.Clean\<close> on segments: \<open>..\<close> removes a segment, disappears at a root, and stays in front of a relative path.\<close>

definition go_clean_step :: "bool \<Rightarrow> string list \<Rightarrow> string \<Rightarrow> string list" where
  "go_clean_step rooted out seg =
     (if seg = [] \<or> seg = ''.'' then out
      else if seg = ''..'' then
        (if out \<noteq> [] \<and> last out \<noteq> ''..'' then butlast out else if rooted then out else out @ [seg])
      else out @ [seg])"

definition path_Clean :: "string \<Rightarrow> string" where
  "path_Clean p =
     (let rooted = prefix ''/'' p; segs = foldl (go_clean_step rooted) [] (split_slash p)
      in if rooted then ''/'' @ join_slash segs else if segs = [] then ''.'' else join_slash segs)"

definition artifactPaths :: "string \<Rightarrow> exec_error + string \<times> string" where
  "artifactPaths declared =
     (let p = path_Clean (TrimSpace declared);
          (src, rel) = (if prefix ''/'' p then (p, tl p) else (path_Clean (''/workspace/'' @ p), p))
      in if rel = [] \<or> rel = ''.'' \<or> rel = ''..'' \<or> prefix ''../'' rel \<or> CHR 92 \<in> set rel
         then Inl (Platform (''docker: invalid artifact path '' @ declared)) else Inr (rel, src))"

definition stripFirst :: "string \<Rightarrow> string option" where
  "stripFirst name0 =
     (let name = (if name0 \<noteq> [] \<and> last name0 = CHR ''/'' then butlast name0 else name0)
      in if name = [] \<or> prefix ''/'' name \<or> CHR 92 \<in> set name then None
         else if check_segments (split_slash name) \<noteq> None then None
         else Some (join_slash (tl (split_slash name))))"

text \<open>
  A tar stream: entries with their type, announced size and the bytes that arrive, then its end or an
  error. The file system is the one of \<open>Artifact_Store\<close>, with the host's root as its root.
\<close>

datatype tar_type = TypeDir | TypeReg | TypeOther

record tar_entry =
  te_name :: string
  te_type :: tar_type
  te_size :: int
  te_data :: "char list"

definition write_target :: "string list \<Rightarrow> tar_entry \<Rightarrow> localfs \<Rightarrow> (exec_error + unit) \<times> localfs" where
  "write_target target te fs =
     (if blocked_by_file target fs then (Inl (Platform ''mkdir''), fs)
      else let fs1 = mkdirs target fs in
        if target \<in> set (lf_dirs fs1) then (Inl (Platform ''open''), fs1)
        else let fs2 = fs1\<lparr>lf_files := AList.update target (te_data te) (lf_files fs1)\<rparr>
          in if int (length (te_data te)) \<noteq> te_size te then (Inl (Platform ''short tar entry''), fs2) else (Inr (), fs2))"

definition make_dir :: "string list \<Rightarrow> localfs \<Rightarrow> (exec_error + unit) \<times> localfs" where
  "make_dir target fs =
     (if lf_file fs target \<noteq> None \<or> blocked_by_file target fs then (Inl (Platform ''mkdir''), fs)
      else let fs1 = mkdirs target fs in
        (Inr (), if target \<in> set (lf_dirs fs1) \<or> target = [] then fs1 else fs1\<lparr>lf_dirs := lf_dirs fs1 @ [target]\<rparr>))"

fun extractArtifact :: "tar_entry list \<Rightarrow> string option \<Rightarrow> string list \<Rightarrow> nat \<Rightarrow> localfs \<Rightarrow> (exec_error + nat) \<times> localfs" where
  "extractArtifact [] failed dest files fs =
     (case failed of None \<Rightarrow> (Inr files, fs) | Some m \<Rightarrow> (Inl (Platform m), fs))"
| "extractArtifact (te # tes) failed dest files fs =
     (case stripFirst (te_name te) of
        None \<Rightarrow> (Inl (Platform (''unsafe tar entry '' @ te_name te)), fs)
      | Some name \<Rightarrow>
          let target = (if name = [] then dest else join_clean dest name) in
          (case te_type te of
             TypeDir \<Rightarrow>
               (case make_dir target fs of (Inl e, fs') \<Rightarrow> (Inl e, fs') | (Inr _, fs') \<Rightarrow> extractArtifact tes failed dest files fs')
           | TypeReg \<Rightarrow>
               (case write_target target te fs of
                  (Inl e, fs') \<Rightarrow> (Inl e, fs') | (Inr _, fs') \<Rightarrow> extractArtifact tes failed dest (Suc files) fs')
           | TypeOther \<Rightarrow> extractArtifact tes failed dest files fs))"

datatype copy_reply = CopyTar "tar_entry list" "string option" | CopyNotFound | CopyError string

text \<open>\<open>copy\<close> is \<open>CopyFromContainer\<close> as a function of the path asked for; \<open>dir\<close> is the artifact directory.\<close>

fun collectArtifacts :: "(string \<Rightarrow> copy_reply) \<Rightarrow> string list \<Rightarrow> string list \<Rightarrow> localfs \<Rightarrow> (exec_error + unit) \<times> localfs" where
  "collectArtifacts copy dir [] fs = (Inr (), fs)"
| "collectArtifacts copy dir (declared # ds) fs =
     (case artifactPaths declared of
        Inl e \<Rightarrow> (Inl e, fs)
      | Inr (rel, src) \<Rightarrow>
          (case copy src of
             CopyNotFound \<Rightarrow> collectArtifacts copy dir ds fs
           | CopyError m \<Rightarrow> (Inl (Platform (''docker: copy artifact '' @ declared @ '': '' @ m)), fs)
           | CopyTar tes failed \<Rightarrow>
               (case extractArtifact tes failed (join_clean dir rel) 0 fs of
                  (Inl e, fs') \<Rightarrow> (Inl (Platform (''docker: extract artifact '' @ declared)), fs')
                | (Inr n, fs') \<Rightarrow> collectArtifacts copy dir ds fs')))"


section \<open>docker.go: one attempt\<close>

text \<open>The messages of an image pull; only milestones become log lines.\<close>

record pull_msg =
  pm_status :: string
  pm_id :: string
  pm_progress :: string
  pm_error :: string

fun pull_loop :: "string \<Rightarrow> pull_msg list \<Rightarrow> string option \<Rightarrow> exec_error option \<times> string list" where
  "pull_loop ref [] end_error =
     (map_option (\<lambda>m. Platform (''docker: pull '' @ ref @ '': '' @ m)) end_error, [])"
| "pull_loop ref (m # ms) end_error =
     (if pm_error m \<noteq> [] then (Some (Platform (''docker: pull '' @ ref @ '': '' @ pm_error m)), [])
      else if pm_progress m \<noteq> [] \<or> pm_status m = [] then pull_loop ref ms end_error
      else apsnd (Cons (if pm_id m \<noteq> [] then ''[quarry] '' @ pm_id m @ '': '' @ pm_status m else ''[quarry] '' @ pm_status m))
        (pull_loop ref ms end_error))"

definition ensureImage :: "bool \<Rightarrow> string \<Rightarrow> string + pull_msg list \<times> string option \<Rightarrow> exec_error option \<times> string list" where
  "ensureImage present ref pull =
     (if present then (None, [])
      else apsnd (Cons (''[quarry] pulling image '' @ ref)) (case pull of
        Inl m \<Rightarrow> (Some (Platform (''docker: pull '' @ ref @ '': '' @ m)), [])
      | Inr (msgs, end_error) \<Rightarrow> pull_loop ref msgs end_error))"

datatype daemon_call =
  VolumeCreate string | VolumeRemove string | ContainerCreate string | ContainerRemove string
| CopySource | CopyScript string | Attach | Detach | WaitNextExit | ContainerStart | ContainerKill | ContainerInspect | CopyArtifacts

datatype source_outcome = NoSource | FetchFailed string | Fetched "string option"

datatype wait_reply = Exited int "string option" | WaitFailed string | CtxEnded

text \<open>
  What the daemon answers to each call of an attempt (\<open>None\<close>: done). At most one of them fails, and
  \<open>dr_done\<close> says whether the context had ended by then.
\<close>

record docker_run =
  dr_present :: bool
  dr_pull :: "string + pull_msg list \<times> string option"
  dr_volume :: "string option"
  dr_container :: "string option"
  dr_source :: source_outcome
  dr_script :: "string option"
  dr_attach :: "string option"
  dr_start :: "string option"
  dr_wait :: wait_reply
  dr_duration :: int
  dr_oom :: "bool option"
  dr_copy :: "string \<Rightarrow> copy_reply"
  dr_done :: bool

definition orCtx :: "bool \<Rightarrow> exec_error \<Rightarrow> exec_error" where
  "orCtx ended e = (if ended then CtxErr else e)"

definition injectSource :: "source_outcome \<Rightarrow> exec_error option \<times> daemon_call list" where
  "injectSource src = (case src of
     NoSource \<Rightarrow> (None, [])
   | FetchFailed m \<Rightarrow> (Some (Platform (''docker: fetch source: '' @ m)), [])
   | Fetched None \<Rightarrow> (None, [CopySource])
   | Fetched (Some m) \<Rightarrow> (Some (Platform (''docker: copy source: '' @ m)), [CopySource]))"

text \<open>From the start of the container to its result.\<close>

definition run_started :: "docker_run \<Rightarrow> JobSpec \<Rightarrow> localfs \<Rightarrow> (exec_error option \<times> ExecResult) \<times> daemon_call list \<times> localfs" where
  "run_started env spec fs =
     (case dr_start env of
        Some m \<Rightarrow> ((Some (orCtx (dr_done env) (Platform (''docker: start: '' @ m))), zero_result), [ContainerStart], fs)
      | None \<Rightarrow>
          (case dr_wait env of
             WaitFailed m \<Rightarrow> ((Some (Platform (''docker: wait: '' @ m)), zero_result), [ContainerStart], fs)
           | CtxEnded \<Rightarrow> ((Some CtxErr, zero_result), [ContainerStart, ContainerKill], fs)
           | Exited code werr \<Rightarrow>
               let res = zero_result\<lparr>ex_duration := dr_duration env, ex_exit_code := code\<rparr> in
               (case werr of
                  Some m \<Rightarrow> ((Some (Platform (''docker: wait: '' @ m)), res), [ContainerStart], fs)
                | None \<Rightarrow>
                    let res' = (case dr_oom env of Some oom \<Rightarrow> res\<lparr>ex_oom_killed := oom\<rparr> | None \<Rightarrow> res) in
                    (case js_artifact_dir spec of
                       Some dir \<Rightarrow>
                         if code = 0 \<and> pj_artifacts (js_job spec) \<noteq> [] then
                           (case collectArtifacts (dr_copy env) (join_clean [] dir) (pj_artifacts (js_job spec)) fs of
                              (r, fs') \<Rightarrow> ((case r of Inl e \<Rightarrow> Some (orCtx (dr_done env) e) | Inr _ \<Rightarrow> None, res'),
                                [ContainerStart, ContainerInspect, CopyArtifacts], fs'))
                         else ((None, res'), [ContainerStart, ContainerInspect], fs)
                     | None \<Rightarrow> ((None, res'), [ContainerStart, ContainerInspect], fs)))))"

text \<open>From the created container on; closing the attached stream is deferred.\<close>

definition run_created :: "docker_run \<Rightarrow> JobSpec \<Rightarrow> localfs \<Rightarrow> (exec_error option \<times> ExecResult) \<times> daemon_call list \<times> localfs" where
  "run_created env spec fs =
     (case injectSource (dr_source env) of (err, cs) \<Rightarrow>
        let cs1 = cs @ [CopyScript (runScript (pj_steps (js_job spec)))] in
        (case err of
           Some e \<Rightarrow> ((Some (orCtx (dr_done env) e), zero_result), cs, fs)
         | None \<Rightarrow>
             (case dr_script env of
                Some m \<Rightarrow> ((Some (orCtx (dr_done env) (Platform (''docker: copy run.sh: '' @ m))), zero_result), cs1, fs)
              | None \<Rightarrow>
                  (case dr_attach env of
                     Some m \<Rightarrow> ((Some (orCtx (dr_done env) (Platform (''docker: attach: '' @ m))), zero_result), cs1 @ [Attach], fs)
                   | None \<Rightarrow>
                       (case run_started env spec fs of (r, cs2, fs') \<Rightarrow> (r, cs1 @ [Attach, WaitNextExit] @ cs2 @ [Detach], fs'))))))"

definition attempt_name :: "JobSpec \<Rightarrow> string" where
  "attempt_name spec = ''quarry-'' @ js_job_id spec @ ''-'' @ Itoa (js_attempt spec)"

definition kept :: "bool \<Rightarrow> exec_error option \<times> ExecResult \<Rightarrow> bool" where
  "kept keepFailed r \<longleftrightarrow> keepFailed \<and> (fst r \<noteq> None \<or> ex_exit_code (snd r) \<noteq> 0)"

definition docker_Run :: "(float64 \<Rightarrow> int) \<Rightarrow> bool \<Rightarrow> docker_run \<Rightarrow> JobSpec \<Rightarrow> localfs
    \<Rightarrow> (exec_error option \<times> ExecResult) \<times> daemon_call list \<times> localfs" where
  "docker_Run nano keepFailed env spec fs =
     (let name = attempt_name spec in
      case hostConfig nano name (pj_resources (js_job spec)) of
        Inl e \<Rightarrow> ((Some (orCtx (dr_done env) e), zero_result), [], fs)
      | Inr _ \<Rightarrow>
          (case fst (ensureImage (dr_present env) (pj_image (js_job spec)) (dr_pull env)) of
             Some e \<Rightarrow> ((Some (orCtx (dr_done env) e), zero_result), [], fs)
           | None \<Rightarrow>
               (case dr_volume env of
                  Some m \<Rightarrow> ((Some (orCtx (dr_done env) (Platform (''docker: create volume: '' @ m))), zero_result), [VolumeCreate name], fs)
                | None \<Rightarrow>
                    (case (case dr_container env of
                             Some m \<Rightarrow> ((Some (orCtx (dr_done env) (Platform (''docker: create container: '' @ m))), zero_result),
                               [ContainerCreate name], fs)
                           | None \<Rightarrow>
                               (case run_created env spec fs of (r, cs, fs') \<Rightarrow>
                                  (r, [ContainerCreate name] @ cs @ (if kept keepFailed r then [] else [ContainerRemove name]), fs'))) of
                       (r, cs, fs') \<Rightarrow> (r, [VolumeCreate name] @ cs @ (if kept keepFailed r then [] else [VolumeRemove name]), fs')))))"


section \<open>reap.go\<close>

datatype reap_call = ListContainers string | RemoveContainer string | ListVolumes string | RemoveVolume string

text \<open>The lists are the daemon's answers to the label filter; a failed removal is logged and does not stop the pass.\<close>

definition Reap :: "bool \<Rightarrow> string \<Rightarrow> (string \<Rightarrow> string + string list) \<Rightarrow> (string \<Rightarrow> string + string list) \<Rightarrow> string option \<times> reap_call list" where
  "Reap keepFailed runner containers volumes =
     (if keepFailed then (None, [])
      else let f = ''quarry.runner='' @ runner in
        (case containers f of
           Inl m \<Rightarrow> (Some (''docker: reap: list containers: '' @ m), [ListContainers f])
         | Inr cs \<Rightarrow>
             (case volumes f of
                Inl m \<Rightarrow> (Some (''docker: reap: list volumes: '' @ m), [ListContainers f] @ map RemoveContainer cs @ [ListVolumes f])
              | Inr vs \<Rightarrow> (None, [ListContainers f] @ map RemoveContainer cs @ [ListVolumes f] @ map RemoveVolume vs))))"


section \<open>Cleaning up\<close>

lemma injectSource_calls: "injectSource src = (err, cs) \<Longrightarrow> set cs \<subseteq> {CopySource}"
  by (auto simp: injectSource_def split: source_outcome.splits option.splits)

lemma run_started_calls:
  assumes "run_started env spec fs = (r, cs, fs')"
  shows "\<exists>rest. cs = ContainerStart # rest \<and> set rest \<subseteq> {ContainerKill, ContainerInspect, CopyArtifacts}"
  using assms by (auto simp: run_started_def Let_def split: option.splits wait_reply.splits if_splits prod.splits)

lemma run_created_calls:
  assumes "run_created env spec fs = (r, cs, fs')"
  shows "set cs \<inter> (range VolumeCreate \<union> range VolumeRemove \<union> range ContainerCreate \<union> range ContainerRemove) = {} \<and>
    (ContainerStart \<in> set cs \<longrightarrow> dr_source env \<in> {NoSource, Fetched None} \<and> dr_script env = None \<and> dr_attach env = None \<and>
      (\<exists>pre post. cs = pre @ ContainerStart # post \<and> ContainerStart \<notin> set pre \<and> ContainerStart \<notin> set post \<and>
      {CopyScript (runScript (pj_steps (js_job spec))), Attach, WaitNextExit} \<subseteq> set pre))"
proof -
  obtain err cs0 where src: "injectSource (dr_source env) = (err, cs0)" by fastforce
  note c0 = injectSource_calls [OF src]
  let ?cs1 = "cs0 @ [CopyScript (runScript (pj_steps (js_job spec)))]"
  show ?thesis
  proof (cases "err = None \<and> dr_script env = None \<and> dr_attach env = None")
    case False
    with assms src c0 show ?thesis by (auto simp: run_created_def Let_def split: option.splits)
  next
    case True
    obtain r2 cs2 fs2 where st: "run_started env spec fs = (r2, cs2, fs2)" by (cases "run_started env spec fs")
    from run_started_calls [OF this] obtain rest where cs2: "cs2 = ContainerStart # rest"
      "set rest \<subseteq> {ContainerKill, ContainerInspect, CopyArtifacts}" by blast
    have cs: "cs = (?cs1 @ [Attach, WaitNextExit]) @ ContainerStart # (rest @ [Detach])"
      using assms True src st cs2(1) by (simp add: run_created_def)
    have "dr_source env \<in> {NoSource, Fetched None}"
      using src True by (auto simp: injectSource_def split: source_outcome.splits option.splits)
    then have answers: "dr_source env \<in> {NoSource, Fetched None} \<and> dr_script env = None \<and> dr_attach env = None" using True by blast
    show ?thesis
    proof (intro conjI impI)
      show "set cs \<inter> (range VolumeCreate \<union> range VolumeRemove \<union> range ContainerCreate \<union> range ContainerRemove) = {}"
        using c0 cs2(2) unfolding cs by auto
      show "\<exists>pre post. cs = pre @ ContainerStart # post \<and> ContainerStart \<notin> set pre \<and> ContainerStart \<notin> set post \<and>
        {CopyScript (runScript (pj_steps (js_job spec))), Attach, WaitNextExit} \<subseteq> set pre"
        using c0 cs2(2) by (intro exI [of _ "?cs1 @ [Attach, WaitNextExit]"] exI [of _ "rest @ [Detach]"]) (auto simp: cs)
    qed (use answers in blast)+
  qed
qed

text \<open>
  C27. Nothing is left behind. Whatever the daemon answers and whenever the context ends, an attempt removes exactly
  the container and the volume it created, the container first and as its last acts, unless it
  failed and failed attempts are to be kept. A container is started at most once, and only when its volume and
  itself were created, the source (if the run has one) and the script were copied and its output
  was attached, each without an error, and after its exit began to be waited for.
\<close>

theorem docker_cleanup:
  assumes "docker_Run nano keepFailed env spec fs = (r, calls, fs')"
  shows "\<exists>body. set body \<inter> (range VolumeRemove \<union> range ContainerRemove) = {} \<and>
    calls = body @ (if keepFailed \<and> (fst r \<noteq> None \<or> ex_exit_code (snd r) \<noteq> 0) then [] else
      (if ContainerCreate (attempt_name spec) \<in> set body \<and> dr_container env = None then [ContainerRemove (attempt_name spec)] else []) @
      (if VolumeCreate (attempt_name spec) \<in> set body \<and> dr_volume env = None then [VolumeRemove (attempt_name spec)] else [])) \<and>
    set body \<inter> (range VolumeCreate \<union> range ContainerCreate) \<subseteq> {VolumeCreate (attempt_name spec), ContainerCreate (attempt_name spec)} \<and>
    (ContainerStart \<in> set calls \<longrightarrow> dr_volume env = None \<and> dr_container env = None \<and>
      dr_source env \<in> {NoSource, Fetched None} \<and> dr_script env = None \<and> dr_attach env = None \<and>
      (\<exists>pre post. body = pre @ ContainerStart # post \<and> ContainerStart \<notin> set pre \<and> ContainerStart \<notin> set post \<and>
      {CopyScript (runScript (pj_steps (js_job spec))), Attach, WaitNextExit} \<subseteq> set pre))"
proof -
  let ?n = "attempt_name spec"
  consider (early) "calls = []" | (volume) "calls = [VolumeCreate ?n]" "dr_volume env \<noteq> None"
    | (container) "calls = [VolumeCreate ?n, ContainerCreate ?n] @ (if kept keepFailed r then [] else [VolumeRemove ?n])"
        "dr_volume env = None" "dr_container env \<noteq> None"
    | (created) cs fs1 where "run_created env spec fs = (r, cs, fs1)" "dr_volume env = None" "dr_container env = None"
        "calls = [VolumeCreate ?n, ContainerCreate ?n] @ cs @ (if kept keepFailed r then [] else [ContainerRemove ?n, VolumeRemove ?n])"
    using assms by (auto simp: docker_Run_def Let_def split: sum.splits option.splits prod.splits if_splits)
  then show ?thesis
  proof cases
    case early
    then show ?thesis by (intro exI [of _ "[]"]) simp
  next
    case volume
    then show ?thesis by (intro exI [of _ "[VolumeCreate ?n]"]) auto
  next
    case container
    then show ?thesis by (intro exI [of _ "[VolumeCreate ?n, ContainerCreate ?n]"]) (auto simp: kept_def)
  next
    case created
    note c = run_created_calls [OF created(1)]
    have apart: "VolumeRemove m \<notin> set cs" "ContainerRemove m \<notin> set cs" "VolumeCreate m \<notin> set cs" "ContainerCreate m \<notin> set cs" for m
      using conjunct1 [OF c] by (auto simp: disjoint_iff)
    show ?thesis
    proof (rule exI [of _ "[VolumeCreate ?n, ContainerCreate ?n] @ cs"], intro conjI impI)
      assume "ContainerStart \<in> set calls"
      with created(4) have start: "ContainerStart \<in> set cs" by (auto split: if_splits)
      with c show "dr_source env \<in> {NoSource, Fetched None}" "dr_script env = None" "dr_attach env = None" by blast+
      from start c obtain pre post where "cs = pre @ ContainerStart # post" "ContainerStart \<notin> set pre" "ContainerStart \<notin> set post"
        "{CopyScript (runScript (pj_steps (js_job spec))), Attach, WaitNextExit} \<subseteq> set pre" by blast
      then show "\<exists>pre post. [VolumeCreate ?n, ContainerCreate ?n] @ cs = pre @ ContainerStart # post \<and> ContainerStart \<notin> set pre \<and>
          ContainerStart \<notin> set post \<and> {CopyScript (runScript (pj_steps (js_job spec))), Attach, WaitNextExit} \<subseteq> set pre"
        by (intro exI [of _ "[VolumeCreate ?n, ContainerCreate ?n] @ pre"] exI [of _ post]) auto
    qed (use apart created(2-4) in \<open>auto simp: kept_def\<close>)
  qed
qed

definition demo_docker :: docker_run where
  "demo_docker = \<lparr>dr_present = True, dr_pull = Inl [], dr_volume = None, dr_container = None, dr_source = NoSource, dr_script = None,
     dr_attach = None, dr_start = None, dr_wait = CtxEnded, dr_duration = 0, dr_oom = None, dr_copy = \<lambda>_. CopyNotFound, dr_done = True\<rparr>"

definition demo_job_spec :: JobSpec where
  "demo_job_spec = \<lparr>js_job_id = ''j'', js_run_id = ''r'', js_attempt = 1, js_job = \<lparr>pj_name = ''build'', pj_image = ''i'', pj_steps = [''make''],
     pj_needs = [], pj_env = [], pj_labels = [], pj_artifacts = [''dist''], pj_timeout = 0,
     pj_resources = \<lparr>res_cpu = Fin 0, res_memory = []\<rparr>\<rparr>, js_artifact_dir = Some ''/tmp/a''\<rparr>"

theorem docker_cleanup_witness:
  "\<exists>body. fst (snd (docker_Run (\<lambda>_. 0) False demo_docker demo_job_spec \<lparr>lf_files = [], lf_dirs = []\<rparr>)) =
     body @ [ContainerRemove (attempt_name demo_job_spec), VolumeRemove (attempt_name demo_job_spec)] \<and> ContainerKill \<in> set body"
proof -
  let ?run = "docker_Run (\<lambda>_. 0) False demo_docker demo_job_spec \<lparr>lf_files = [], lf_dirs = []\<rparr>"
  have start: "ContainerKill \<in> set (fst (snd ?run))" "ContainerCreate (attempt_name demo_job_spec) \<in> set (fst (snd ?run))"
      "VolumeCreate (attempt_name demo_job_spec) \<in> set (fst (snd ?run))"
    by (simp_all add: docker_Run_def demo_docker_def demo_job_spec_def hostConfig_def float_positive_def ensureImage_def
        run_created_def run_started_def injectSource_def Let_def)
  have "?run = (fst ?run, fst (snd ?run), snd (snd ?run))" by simp
  from docker_cleanup [OF this] start show ?thesis by (auto simp: demo_docker_def)
qed


section \<open>Artifacts stay below their directory\<close>

lemma split_join:
  "xs \<noteq> [] \<Longrightarrow> \<forall>seg \<in> set xs. CHR ''/'' \<notin> set seg \<Longrightarrow> split_slash (join_slash xs) = xs"
  by (induction xs rule: join_slash.induct) (simp_all add: split_slash_plain split_slash_append)

lemma plain_join:
  "xs \<noteq> [] \<Longrightarrow> check_segments xs = None \<Longrightarrow> \<forall>seg \<in> set xs. CHR ''/'' \<notin> set seg \<Longrightarrow> join_slash xs \<noteq> []"
  by (cases xs rule: join_slash.cases) (auto split: if_splits)

text \<open>A cleaned path: some \<open>..\<close> in front, none for a rooted one, then plain segments.\<close>

lemma go_clean_form:
  assumes "\<forall>seg \<in> set segs. CHR ''/'' \<notin> set seg"
  shows "\<exists>k xs. foldl (go_clean_step rooted) [] segs = replicate k ''..'' @ xs \<and> check_segments xs = None \<and>
    (\<forall>seg \<in> set xs. CHR ''/'' \<notin> set seg) \<and> (rooted \<longrightarrow> k = 0)"
  using assms
proof (induction segs rule: rev_induct)
  case (snoc seg segs)
  then obtain k xs where IH: "foldl (go_clean_step rooted) [] segs = replicate k ''..'' @ xs" "check_segments xs = None"
    "\<forall>seg \<in> set xs. CHR ''/'' \<notin> set seg" "rooted \<longrightarrow> k = 0" by auto
  let ?out = "replicate k ''..'' @ xs"
  consider (skip) "seg = [] \<or> seg = ''.''" | (up) "seg = ''..''" "xs \<noteq> []" | (top) "seg = ''..''" "xs = []"
    | (plain) "seg \<noteq> []" "seg \<noteq> ''.''" "seg \<noteq> ''..''" by blast
  then show ?case
  proof cases
    case skip
    then have "go_clean_step rooted ?out seg = ?out" by (auto simp: go_clean_step_def)
    then show ?thesis using IH by auto
  next
    case up
    then have "last xs \<noteq> ''..''" using IH(2) last_in_set [of xs] by (auto simp: check_segments_None)
    with up have "go_clean_step rooted ?out seg = replicate k ''..'' @ butlast xs" by (simp add: go_clean_step_def butlast_append)
    moreover have "check_segments (butlast xs) = None" "\<forall>seg \<in> set (butlast xs). CHR ''/'' \<notin> set seg"
      using IH(2,3) by (auto simp: check_segments_None dest: in_set_butlastD)
    ultimately show ?thesis using IH(1,4) by auto
  next
    case top
    have "last (replicate k ''..'') = ''..''" if "k \<noteq> 0" using that by (simp add: last_replicate)
    then have "go_clean_step rooted ?out seg = replicate (if rooted then k else Suc k) ''..''"
      using top IH(4) by (cases "k = 0") (auto simp: go_clean_step_def replicate_append_same [symmetric])
    then show ?thesis using IH(1,4) top by (intro exI [of _ "if rooted then k else Suc k"] exI [of _ "[]"]) auto
  next
    case plain
    then have "go_clean_step rooted ?out seg = replicate k ''..'' @ (xs @ [seg])" by (auto simp: go_clean_step_def)
    moreover have "check_segments (xs @ [seg]) = None" using IH(2) plain by (auto simp: check_segments_None)
    ultimately show ?thesis using IH(1,3,4) snoc.prems by (intro exI [of _ k] exI [of _ "xs @ [seg]"]) auto
  qed
qed (intro exI [of _ 0] exI [of _ "[]"], simp)

lemma artifactPaths_plain:
  assumes "artifactPaths declared = Inr (rel, src)"
  shows "check_segments (split_slash rel) = None"
proof -
  define p where "p = TrimSpace declared"
  let ?rooted = "prefix ''/'' p"
  define segs where "segs = foldl (go_clean_step ?rooted) [] (split_slash p)"
  obtain k xs where form: "segs = replicate k ''..'' @ xs" "check_segments xs = None" "\<forall>seg \<in> set xs. CHR ''/'' \<notin> set seg" "?rooted \<longrightarrow> k = 0"
    using go_clean_form [of "split_slash p" ?rooted] split_slash_segs unfolding segs_def by blast
  have clean: "path_Clean p = (if ?rooted then ''/'' @ join_slash segs else if segs = [] then ''.'' else join_slash segs)"
    by (simp add: path_Clean_def segs_def Let_def)
  have noslash: "CHR ''/'' \<notin> set (hd segs)" "hd segs \<noteq> []" if "segs \<noteq> []"
    using that form by (cases k; auto simp: check_segments_None hd_append)+
  have head: "\<not> prefix ''/'' (join_slash segs)" if "segs \<noteq> []"
    using noslash [OF that] that by (cases segs rule: join_slash.cases; cases "hd segs") auto
  have rel: "rel = (if segs = [] then (if ?rooted then [] else ''.'') else join_slash segs)"
    and bad: "rel \<noteq> []" "rel \<noteq> ''.''" "rel \<noteq> ''..''" "\<not> prefix ''../'' rel"
    using assms head by (auto simp: artifactPaths_def p_def [symmetric] clean Let_def split: if_splits)
  then have ne: "segs \<noteq> []" by (auto split: if_splits)
  have "k = 0"
  proof (rule ccontr)
    assume "k \<noteq> 0"
    then obtain k' where "segs = ''..'' # replicate k' ''..'' @ xs" using form(1) by (cases k) auto
    then have "join_slash segs = ''..'' \<or> prefix ''../'' (join_slash segs)" by (cases "replicate k' ''..'' @ xs") auto
    with rel ne bad show False by auto
  qed
  then have "segs = xs" using form(1) by simp
  then show ?thesis using rel ne form(2,3) split_join by auto
qed

lemma stripFirst_plain:
  assumes "stripFirst name = Some rest" and "rest \<noteq> []"
  shows "check_segments (split_slash rest) = None"
proof -
  obtain q where q: "check_segments (split_slash q) = None" "rest = join_slash (tl (split_slash q))"
    using assms(1) by (auto simp: stripFirst_def Let_def split: if_splits)
  then have ne: "tl (split_slash q) \<noteq> []" using assms(2) by auto
  have "\<forall>seg \<in> set (tl (split_slash q)). CHR ''/'' \<notin> set seg" using split_slash_segs by (meson list.set_sel(2) split_slash_ne)
  then have "split_slash rest = tl (split_slash q)" unfolding q(2) by (rule split_join [OF ne])
  with q(1) show ?thesis by (cases "split_slash q") (simp_all split: if_splits)
qed

text \<open>Two trees that differ only below a directory, which exists.\<close>

definition below :: "string list \<Rightarrow> localfs \<Rightarrow> localfs \<Rightarrow> bool" where
  "below d fs fs' \<longleftrightarrow> (\<forall>p. lf_file fs' p \<noteq> lf_file fs p \<longrightarrow> strict_prefix d p) \<and>
     set (lf_dirs fs) \<subseteq> set (lf_dirs fs') \<and> (\<forall>p \<in> set (lf_dirs fs') - set (lf_dirs fs). strict_prefix d p)"

definition anchored :: "string list \<Rightarrow> localfs \<Rightarrow> bool" where
  "anchored d fs \<longleftrightarrow> d = [] \<or> insert d (set (parents d)) \<subseteq> set (lf_dirs fs)"

lemma below_refl: "below d fs fs"
  by (simp add: below_def)

lemma below_trans: "below d a b \<Longrightarrow> below d b c \<Longrightarrow> below d a c"
  unfolding below_def by (metis (full_types) Diff_iff subset_iff)

lemma anchored_mono: "anchored d a \<Longrightarrow> below d a b \<Longrightarrow> anchored d b"
  by (auto simp: anchored_def below_def)

lemma target_parents:
  assumes "anchored d fs" and "strict_prefix d target"
  shows "set (parents target) \<subseteq> set (lf_dirs fs) \<union> {p. strict_prefix d p}"
proof
  fix q assume "q \<in> set (parents target)"
  then have q: "q \<noteq> []" "prefix q target" by (auto simp: parents_iff)
  from prefix_same_cases [OF q(2), of d] assms(2) consider "strict_prefix d q" | "prefix q d" by (auto simp: strict_prefix_def)
  then show "q \<in> set (lf_dirs fs) \<union> {p. strict_prefix d p}"
  proof cases
    case 2
    then have "d \<noteq> []" "q = d \<or> q \<in> set (parents d)" using q(1) by (auto simp: parents_iff strict_prefix_def)
    then show ?thesis using assms(1) by (auto simp: anchored_def)
  qed simp
qed

lemma mkdirs_below: "anchored d fs \<Longrightarrow> strict_prefix d target \<Longrightarrow> below d fs (mkdirs target fs)"
  using target_parents by (fastforce simp: below_def)

lemma write_target_below:
  assumes "anchored d fs" and "strict_prefix d target"
  shows "below d fs (snd (write_target target te fs))"
proof -
  have "below d (mkdirs target fs) ((mkdirs target fs)\<lparr>lf_files := AList.update target (te_data te) (lf_files (mkdirs target fs))\<rparr>)"
    using assms(2) by (auto simp: below_def lf_file_def update_conv')
  with mkdirs_below [OF assms] show ?thesis by (auto simp: write_target_def Let_def below_refl intro: below_trans)
qed

lemma make_dir_below:
  assumes "anchored d fs" and "strict_prefix d target"
  shows "below d fs (snd (make_dir target fs))"
proof -
  have "below d (mkdirs target fs) ((mkdirs target fs)\<lparr>lf_dirs := lf_dirs (mkdirs target fs) @ [target]\<rparr>)"
    using assms(2) by (auto simp: below_def lf_file_def)
  with mkdirs_below [OF assms] show ?thesis by (auto simp: make_dir_def Let_def below_refl intro: below_trans)
qed

lemma extract_below:
  assumes "anchored d fs" and "strict_prefix d dest"
  shows "below d fs (snd (extractArtifact tes failed dest n fs))"
  using assms(1)
proof (induction tes arbitrary: n fs)
  case Nil
  then show ?case by (simp add: below_refl split: option.splits)
next
  case (Cons te tes)
  show ?case
  proof (cases "stripFirst (te_name te)")
    case None
    then show ?thesis by (simp add: below_refl)
  next
    case (Some name)
    define target where "target = (if name = [] then dest else join_clean dest name)"
    have "target = dest @ (if name = [] then [] else split_slash name)"
      using stripFirst_plain [OF Some] clean_plain by (auto simp: target_def join_clean_def)
    then have tg: "strict_prefix d target" using assms(2) by (auto intro: strict_prefixI' simp: strict_prefix_def)
    have next_step: "below d fs (snd (extractArtifact tes failed dest m fs1))" if "below d fs fs1" for fs1 m
      using Cons.IH [OF anchored_mono [OF Cons.prems that]] below_trans [OF that] by blast
    show ?thesis
    proof (cases "te_type te")
      case TypeDir
      obtain r fs1 where mk: "make_dir target fs = (r, fs1)" by fastforce
      then have "below d fs fs1" using make_dir_below [OF Cons.prems tg] by (metis snd_conv)
      with next_step TypeDir Some mk show ?thesis by (cases r) (auto simp: target_def [symmetric] Let_def)
    next
      case TypeReg
      obtain r fs1 where mk: "write_target target te fs = (r, fs1)" by fastforce
      then have "below d fs fs1" using write_target_below [OF Cons.prems tg] by (metis snd_conv)
      with next_step TypeReg Some mk show ?thesis by (cases r) (auto simp: target_def [symmetric] Let_def)
    next
      case TypeOther
      with next_step [OF below_refl] Some show ?thesis by (simp add: Let_def)
    qed
  qed
qed

lemma collect_below:
  assumes "anchored d fs"
  shows "below d fs (snd (collectArtifacts copy d ds fs))"
  using assms
proof (induction ds arbitrary: fs)
  case (Cons declared ds)
  show ?case
  proof (cases "artifactPaths declared")
    case (Inl e)
    then show ?thesis by (simp add: below_refl)
  next
    case (Inr rs)
    obtain rel src where rs: "rs = (rel, src)" by fastforce
    have "join_clean d rel = d @ split_slash rel"
      using artifactPaths_plain [of declared rel src] Inr rs by (simp add: join_clean_def clean_plain)
    then have dest: "strict_prefix d (join_clean d rel)" by (simp add: strict_prefix_def)
    show ?thesis
    proof (cases "copy src")
      case (CopyTar tes failed)
      obtain r fs1 where ex: "extractArtifact tes failed (join_clean d rel) 0 fs = (r, fs1)" by fastforce
      then have "below d fs fs1" using extract_below [OF Cons.prems dest] by (metis snd_conv)
      then show ?thesis using Inr rs CopyTar ex Cons.IH [OF anchored_mono [OF Cons.prems]] below_trans by (cases r) auto
    qed (use Inr rs Cons in \<open>simp_all add: below_refl\<close>)
  qed
qed (simp add: below_refl)


text \<open>
  C28. Artifacts stay below their directory. Whatever paths a pipeline declares and whatever a container's tar streams
  name, the files and directories an attempt creates or changes on the runner's host are all below
  the directory set aside for the attempt's artifacts; an attempt without one changes nothing.
\<close>

theorem artifacts_contained:
  assumes "docker_Run nano keepFailed env spec fs = (r, calls, fs')" and "fs_ok fs"
    and "\<forall>dir. js_artifact_dir spec = Some dir \<longrightarrow> join_clean [] dir \<in> set (lf_dirs fs)"
  shows "(\<forall>p. lf_file fs' p \<noteq> lf_file fs p \<longrightarrow> (\<exists>dir. js_artifact_dir spec = Some dir \<and> strict_prefix (join_clean [] dir) p)) \<and>
    (\<forall>p \<in> set (lf_dirs fs') - set (lf_dirs fs). \<exists>dir. js_artifact_dir spec = Some dir \<and> strict_prefix (join_clean [] dir) p)"
proof -
  have "fs' = fs \<or> (\<exists>dir. js_artifact_dir spec = Some dir \<and>
      fs' = snd (collectArtifacts (dr_copy env) (join_clean [] dir) (pj_artifacts (js_job spec)) fs))"
  proof -
    have started: "fs1 = fs \<or> (\<exists>dir. js_artifact_dir spec = Some dir \<and>
      fs1 = snd (collectArtifacts (dr_copy env) (join_clean [] dir) (pj_artifacts (js_job spec)) fs))"
      if "run_started env spec fs = (r1, cs1, fs1)" for r1 cs1 fs1
      using that by (auto simp: run_started_def Let_def split: option.splits wait_reply.splits if_splits prod.splits)
    have created: "fs1 = fs \<or> (\<exists>dir. js_artifact_dir spec = Some dir \<and>
      fs1 = snd (collectArtifacts (dr_copy env) (join_clean [] dir) (pj_artifacts (js_job spec)) fs))"
      if "run_created env spec fs = (r1, cs1, fs1)" for r1 cs1 fs1
      using that started by (simp add: run_created_def Let_def split: option.splits prod.splits)
    show ?thesis using assms(1) created by (simp add: docker_Run_def Let_def split: sum.splits option.splits prod.splits)
  qed
  then show ?thesis
  proof
    assume "\<exists>dir. js_artifact_dir spec = Some dir \<and>
      fs' = snd (collectArtifacts (dr_copy env) (join_clean [] dir) (pj_artifacts (js_job spec)) fs)"
    then obtain dir where dir: "js_artifact_dir spec = Some dir"
      "fs' = snd (collectArtifacts (dr_copy env) (join_clean [] dir) (pj_artifacts (js_job spec)) fs)" by blast
    have "anchored (join_clean [] dir) fs" using assms(2,3) dir(1) by (auto simp: anchored_def fs_ok_def)
    from collect_below [OF this, of "dr_copy env" "pj_artifacts (js_job spec)"] dir show ?thesis by (auto simp: below_def)
  qed simp
qed

definition demo_tar :: docker_run where
  "demo_tar = demo_docker\<lparr>dr_wait := Exited 0 None, dr_copy := \<lambda>_. CopyTar [\<lparr>te_name = ''dist/app'', te_type = TypeReg, te_size = 3, te_data = ''bin''\<rparr>,
     \<lparr>te_name = ''dist/../../etc/passwd'', te_type = TypeReg, te_size = 1, te_data = ''x''\<rparr>] None\<rparr>"

theorem artifacts_contained_witness:
  "{p. lf_file (snd (snd (docker_Run (\<lambda>_. 0) False demo_tar demo_job_spec \<lparr>lf_files = [], lf_dirs = [[''tmp''], [''tmp'', ''a'']]\<rparr>))) p \<noteq> None}
     \<subseteq> {p. strict_prefix [''tmp'', ''a''] p} \<and>
   lf_file (snd (snd (docker_Run (\<lambda>_. 0) False demo_tar demo_job_spec \<lparr>lf_files = [], lf_dirs = [[''tmp''], [''tmp'', ''a'']]\<rparr>)))
     [''tmp'', ''a'', ''dist'', ''app''] = Some ''bin''"
proof -
  let ?fs = "\<lparr>lf_files = [], lf_dirs = [[''tmp''], [''tmp'', ''a'']]\<rparr>" let ?run = "docker_Run (\<lambda>_. 0) False demo_tar demo_job_spec ?fs"
  have dir: "js_artifact_dir demo_job_spec = Some ''/tmp/a''" "join_clean [] ''/tmp/a'' = [''tmp'', ''a'']"
    by (simp_all add: demo_job_spec_def) code_simp
  have "fs_ok ?fs" by code_simp
  moreover have "?run = (fst ?run, fst (snd ?run), snd (snd ?run))" by simp
  moreover have "\<forall>d. js_artifact_dir demo_job_spec = Some d \<longrightarrow> join_clean [] d \<in> set (lf_dirs ?fs)" using dir by simp
  ultimately have "\<forall>p. lf_file (snd (snd ?run)) p \<noteq> lf_file ?fs p \<longrightarrow>
      (\<exists>d. js_artifact_dir demo_job_spec = Some d \<and> strict_prefix (join_clean [] d) p)" using artifacts_contained by blast
  then have "{p. lf_file (snd (snd ?run)) p \<noteq> None} \<subseteq> {p. strict_prefix [''tmp'', ''a''] p}" using dir by (auto simp: lf_file_def)
  moreover have "lf_file (snd (snd ?run)) [''tmp'', ''a'', ''dist'', ''app''] = Some ''bin''" by code_simp
  ultimately show ?thesis by blast
qed


section \<open>Memory limits\<close>

definition visible :: "char \<Rightarrow> bool" where
  "visible c \<longleftrightarrow> 33 \<le> (of_char c :: nat) \<and> (of_char c :: nat) < 128"

definition lower_ascii :: "char \<Rightarrow> char" where
  "lower_ascii c = (if 65 \<le> (of_char c :: nat) \<and> (of_char c :: nat) \<le> 90 then char_of (of_char c + 32 :: nat) else c)"

lemma lower_visible: "list_all visible s \<Longrightarrow> lower s = map lower_ascii s"
  by (induction s rule: lower.induct) (auto simp: visible_def lower_ascii_def)

lemma not_space: "visible c \<Longrightarrow> \<not> ascii_space c" "visible c \<Longrightarrow> \<not> space2 c b" "visible c \<Longrightarrow> \<not> space2 b c"
  "visible c \<Longrightarrow> \<not> space3 c b a" "visible c \<Longrightarrow> \<not> space3 a b c"
  by (auto simp: visible_def ascii_space_def space2_def space3_def Let_def)

lemma TrimSpace_visible: "s \<noteq> [] \<Longrightarrow> list_all visible s \<Longrightarrow> TrimSpace s = s"
proof -
  assume s: "s \<noteq> []" "list_all visible s"
  have left: "trim_left s = s" using s by (cases s rule: trim_left.cases) (simp_all add: not_space)
  have "list_all visible (rev s)" using s(2) by simp
  then have "trim_right_rev (rev s) = rev s" by (cases "rev s" rule: trim_right_rev.cases) (simp_all add: not_space)
  with left show ?thesis by (simp add: TrimSpace_def)
qed

lemma is_digit_digit: "d < 10 \<Longrightarrow> is_digit (digit d)"
  by (simp add: is_digit_def digit_value)

lemma itoa_is_digit: "list_all is_digit (itoa_nat n)"
  using itoa_nat_digits is_digit_digit by (fastforce simp: list_all_iff)

lemma digit_visible: "is_digit c \<Longrightarrow> visible c \<and> lower_ascii c = c"
  by (auto simp: is_digit_def visible_def lower_ascii_def)

lemma digits_value_snoc: "digits_value (ds @ [c]) = 10 * digits_value ds + (of_char c - 48)"
  by (simp add: digits_value_def)

lemma digits_value_itoa: "digits_value (itoa_nat n) = n"
proof (induction n rule: itoa_nat.induct)
  case (1 n)
  show ?case
  proof (cases "n < 10")
    case True
    then show ?thesis using digits_value_snoc [of "[]" "digit n"] by (subst itoa_nat.simps) (simp add: digits_value_def digit_value)
  next
    case False
    then show ?thesis using 1 by (subst itoa_nat.simps) (simp add: digits_value_snoc digit_value)
  qed
qed

lemma ParseInt64_itoa: "int n < 2 ^ 63 \<Longrightarrow> ParseInt64 (itoa_nat n) = Some (int n)"
proof -
  assume n: "int n < 2 ^ 63"
  have "is_digit (hd (itoa_nat n))" using itoa_is_digit [of n] by (simp add: list_all_iff)
  then have "hd (itoa_nat n) \<noteq> CHR ''-''" "hd (itoa_nat n) \<noteq> CHR ''+''" by (auto simp: is_digit_def)
  with n itoa_is_digit [of n] show ?thesis by (simp add: ParseInt64_def digits_value_itoa)
qed

text \<open>The spellings of the units.\<close>

definition memory_units :: "(string \<times> int) list" where
  "memory_units = [([], 1), (''b'', 1), (''B'', 1)] @
     concat (map (\<lambda>(u, m). [([u], m), ([u, CHR ''b''], m), ([u, CHR ''B''], m), ([u, CHR ''i''], m), ([u, CHR ''i'', CHR ''B''], m)])
       [(CHR ''k'', 2 ^ 10), (CHR ''K'', 2 ^ 10), (CHR ''m'', 2 ^ 20), (CHR ''M'', 2 ^ 20), (CHR ''g'', 2 ^ 30), (CHR ''G'', 2 ^ 30)])"

definition lower_units :: "(string \<times> int) list" where
  "lower_units = [([], 1), (''b'', 1), (''k'', 2 ^ 10), (''kb'', 2 ^ 10), (''ki'', 2 ^ 10), (''kib'', 2 ^ 10), (''m'', 2 ^ 20), (''mb'', 2 ^ 20),
     (''mi'', 2 ^ 20), (''mib'', 2 ^ 20), (''g'', 2 ^ 30), (''gb'', 2 ^ 30), (''gi'', 2 ^ 30), (''gib'', 2 ^ 30)]"

lemma units_lowered: "list_all (\<lambda>(u, m). 0 \<le> m \<and> list_all visible u \<and> (map lower_ascii u, m) \<in> set lower_units) memory_units"
  by code_simp

lemma lower_units_read:
  assumes "(u, m) \<in> set lower_units" and "ds \<noteq> []" and "last ds \<notin> set ''bikmg''"
  shows "memory_unit (TrimSuffix (TrimSuffix (ds @ u) (CHR ''b'')) (CHR ''i'')) = (m, ds)"
  using assms(1) unfolding lower_units_def list.set insert_iff empty_iff prod.inject
  by (elim disjE conjE; use assms(2,3) in \<open>simp add: memory_unit_def TrimSuffix_def butlast_append\<close>)

lemma memory_unit_digits:
  assumes "(u, m) \<in> set memory_units" and "ds \<noteq> []" and "list_all is_digit ds"
  shows "memory_unit (TrimSuffix (TrimSuffix (lower (TrimSpace (ds @ u))) (CHR ''b'')) (CHR ''i'')) = (m, ds)"
proof -
  have u: "list_all visible u" "(map lower_ascii u, m) \<in> set lower_units"
    using units_lowered assms(1) by (auto simp: list_all_iff)
  have ds: "list_all visible ds" "map lower_ascii ds = ds"
    using assms(3) digit_visible by (auto simp: list_all_iff intro: map_idI)
  have "is_digit (last ds)" using assms(2,3) by (simp add: list_all_iff)
  then have "last ds \<notin> set ''bikmg''" by (auto simp: is_digit_def)
  with lower_units_read [OF u(2) assms(2)] u(1) ds assms(2) show ?thesis by (simp add: TrimSpace_visible lower_visible)
qed

text \<open>
  Memory limits. A limit written as a number with any spelling of a binary unit is read exactly as long as the number
  of bytes fits 63 bits; beyond that it wraps, so that a large enough limit becomes no limit.
\<close>

theorem parseMemory_reads:
  assumes "(u, m) \<in> set memory_units" and "0 < n" and "int n < 2 ^ 63"
  shows "parseMemory (itoa_nat n @ u) =
    Inr (if int n * m < 2 ^ 63 then int n * m else (int n * m + 2 ^ 63) mod 2 ^ 64 - 2 ^ 63)"
proof -
  have mod: "sint (word_of_int x :: 64 word) = (x + 2 ^ 63) mod 2 ^ 64 - 2 ^ 63" for x
    by (simp add: sint_sbintrunc' signed_take_bit_eq_take_bit_shift take_bit_eq_mod)
  have "0 \<le> m" using assms(1) units_lowered by (auto simp: list_all_iff)
  then have nonneg: "0 \<le> int n * m" by simp
  have parsed: "parseMemory (itoa_nat n @ u) = Inr (sint (word_of_int (int n * m) :: 64 word))"
    using memory_unit_digits [OF assms(1) itoa_nat_ne itoa_is_digit, of n] ParseInt64_itoa [OF assms(3)] assms(2)
    by (simp add: parseMemory_def)
  show ?thesis
  proof (cases "int n * m < 2 ^ 63")
    case True
    have "(int n * m + 2 ^ 63) mod 2 ^ 64 = int n * m + 2 ^ 63" by (rule mod_pos_pos_trivial) (use nonneg True in simp_all)
    then show ?thesis unfolding parsed mod using True by simp
  next
    case False
    then show ?thesis unfolding parsed mod by (simp only: if_False)
  qed
qed

theorem parseMemory_reads_witness:
  "parseMemory ''512Mi'' = Inr 536870912 \<and> parseMemory ''17179869184g'' = Inr 0"
proof -
  have units: "(''Mi'', 2 ^ 20) \<in> set memory_units" "(''g'', 2 ^ 30) \<in> set memory_units" by (simp_all add: memory_units_def)
  have "itoa_nat 512 = ''512''" "itoa_nat 17179869184 = ''17179869184''" by (simp_all add: itoa_nat.simps digit_def) code_simp+
  with parseMemory_reads [OF units(1), of 512] parseMemory_reads [OF units(2), of 17179869184] show ?thesis by simp
qed


section \<open>The script and the environment\<close>

text \<open>
  How a POSIX shell reads one word: between single quotes every character stands for itself, outside
  a backslash quotes the next character and white space ends the word.
\<close>

fun posix_word :: "bool \<Rightarrow> string \<Rightarrow> string \<times> string" where
  "posix_word quoted [] = ([], [])"
| "posix_word True (c # cs) = (if c = CHR 39 then posix_word False cs else apfst (Cons c) (posix_word True cs))"
| "posix_word False (c # cs) =
     (if c = CHR 39 then posix_word True cs
      else if c = CHR 92 then (case cs of [] \<Rightarrow> ([c], []) | d # ds \<Rightarrow> apfst (Cons d) (posix_word False ds))
      else if c = CHR 32 \<or> c = CHR 9 \<or> c = CHR 10 then ([], c # cs)
      else apfst (Cons c) (posix_word False cs))"

lemma posix_quote: "posix_word True (quote_step s @ CHR 39 # CHR 10 # rest) = (s, CHR 10 # rest)"
  by (induction s) (simp_all add: quote_step_def)

text \<open>
  Steps are echoed as written. In the script of a job every step is preceded by an \<open>echo\<close> whose argument,
  as a shell reads it, is the step itself behind a plus sign, whatever quotes the step contains; and
  then the step follows verbatim.
\<close>

theorem script_echoes_step:
  "\<exists>w rest. runScript (xs @ s # ys) = runScript xs @ ''echo '' @ w @ [CHR 10] @ s @ [CHR 10] @ rest \<and>
    posix_word False (w @ [CHR 10] @ s @ [CHR 10] @ rest) = (''+ '' @ s, [CHR 10] @ s @ [CHR 10] @ rest)"
proof -
  let ?w = "CHR 39 # ''+ '' @ quote_step s @ [CHR 39]" and ?rest = "concat (map script_step ys)"
  have "runScript (xs @ s # ys) = runScript xs @ ''echo '' @ ?w @ [CHR 10] @ s @ [CHR 10] @ ?rest"
    by (simp add: runScript_def script_step_def)
  moreover have "posix_word False (?w @ [CHR 10] @ s @ [CHR 10] @ ?rest) = (''+ '' @ s, [CHR 10] @ s @ [CHR 10] @ ?rest)"
    using posix_quote [of s "s @ CHR 10 # ?rest"] by simp
  ultimately show ?thesis by blast
qed

lemma platform_value_keys: "platform_value spec k \<noteq> None \<longleftrightarrow> k \<in> set platformEnv"
  by (auto simp: platform_value_def platformEnv_def)

text \<open>The platform's variables win: each appears once, with the platform's value, whatever the job's own environment says.\<close>

lemma docker_env_platform:
  assumes "k \<in> set platformEnv" and "\<forall>(q, v) \<in> set (pj_env (js_job spec)). CHR ''='' \<notin> set q"
  shows "filter (\<lambda>e. takeWhile (\<lambda>c. c \<noteq> CHR ''='') e = k) (docker_env spec) = [k @ ''='' @ the (platform_value spec k)]"
proof -
  have name: "takeWhile (\<lambda>c. c \<noteq> CHR ''='') (q @ ''='' @ v) = q" if "CHR ''='' \<notin> set q" for q v
    using that by (induction q) auto
  let ?own = "map (\<lambda>(q, v). q @ ''='' @ v) (filter (\<lambda>(q, v). platform_value spec q = None) (pj_env (js_job spec)))"
  have "takeWhile (\<lambda>c. c \<noteq> CHR ''='') e \<noteq> k" if "e \<in> set ?own" for e
  proof -
    from that obtain q v where q: "(q, v) \<in> set (pj_env (js_job spec))" "platform_value spec q = None" "e = q @ ''='' @ v" by auto
    then have "takeWhile (\<lambda>c. c \<noteq> CHR ''='') e = q" using name assms(2) by blast
    moreover have "q \<noteq> k" using q(2) assms(1) platform_value_keys [of spec k] by auto
    ultimately show ?thesis by simp
  qed
  then have "filter (\<lambda>e. takeWhile (\<lambda>c. c \<noteq> CHR ''='') e = k) ?own = []" unfolding filter_empty_conv by blast
  then show ?thesis using assms(1) unfolding docker_env_def filter_append by (auto simp: platformEnv_def)
qed

lemma docker_stopped:
  assumes "dr_done env" and "fst (ensureImage (dr_present env) (pj_image (js_job spec)) (dr_pull env)) \<noteq> None"
  shows "fst (fst (docker_Run nano keepFailed env spec fs)) = Some CtxErr"
proof -
  obtain e where e: "fst (ensureImage (dr_present env) (pj_image (js_job spec)) (dr_pull env)) = Some e" using assms(2) by auto
  show ?thesis
    by (cases "hostConfig nano (attempt_name spec) (pj_resources (js_job spec))") (simp_all add: docker_Run_def Let_def e orCtx_def assms(1))
qed

interpretation docker: executor_contract "\<lambda>env. fst (docker_Run nano keepFailed env spec fs)"
  "\<lambda>env. dr_done env \<and> fst (ensureImage (dr_present env) (pj_image (js_job spec)) (dr_pull env)) \<noteq> None"
  by unfold_locales (simp add: docker_stopped)

end
