(* ===== verification/Render.thy ===== *)
theory Render
  imports Topo Artifact_Store
begin

text \<open>
  internal/cli/render.go: the order and the cells of the job table the client prints. The order is
  shown to be the one the server validated the pipeline with.
\<close>


section \<open>The wire type of a job\<close>

text \<open>\<open>cj_needs\<close> is what decoding the spec for its needs gives; an unreadable spec gives none.\<close>

record CliJob =
  cj_id :: string
  cj_name :: string
  cj_state :: string
  cj_attempt :: int
  cj_max_attempts :: int
  cj_runner_id :: string
  cj_failure_kind :: string
  cj_exit_code :: "int option"
  cj_needs :: "string list option"

definition dag_needs :: "CliJob \<Rightarrow> string list" where
  "dag_needs j = (case cj_needs j of None \<Rightarrow> [] | Some ns \<Rightarrow> ns)"


section \<open>dagOrder\<close>

definition dag_index :: "CliJob list \<Rightarrow> (string \<times> nat) list" where
  "dag_index jobs = foldl (\<lambda>m (i, j). AList.update (cj_name j) i m) [] (enumerate 0 jobs)"

text \<open>The nested loop over the needs: in-degrees and dependents, both by index.\<close>

definition dag_edge :: "(string \<times> nat) list \<Rightarrow> nat \<Rightarrow> int list \<times> nat list list \<Rightarrow> string \<Rightarrow> int list \<times> nat list list" where
  "dag_edge idx i g n = (case g of (indeg, deps) \<Rightarrow>
     (case map_of idx n of
        None \<Rightarrow> (indeg, deps)
      | Some j \<Rightarrow> (indeg[i := indeg ! i + 1], deps[j := deps ! j @ [i]])))"

definition dag_graph :: "CliJob list \<Rightarrow> int list \<times> nat list list" where
  "dag_graph jobs = foldl (\<lambda>g (i, j). foldl (dag_edge (dag_index jobs) i) g (dag_needs j))
     (replicate (length jobs) 0, replicate (length jobs) []) (enumerate 0 jobs)"

text \<open>The indexes are those of \<open>index\<close> and in range, where Go would panic.\<close>

fun dag_dec :: "nat list \<Rightarrow> int list \<Rightarrow> nat list \<Rightarrow> int list \<times> nat list" where
  "dag_dec [] indeg ready = (indeg, ready)"
| "dag_dec (d # ds) indeg ready =
     (let indeg' = indeg[d := indeg ! d - 1]
      in dag_dec ds indeg' (if d < length indeg \<and> indeg' ! d = 0 then ready @ [d] else ready))"

definition dag_positive :: "int list \<Rightarrow> nat" where
  "dag_positive indeg = length (filter (\<lambda>x. 0 < x) indeg)"

lemma dag_positive_update:
  "d < length indeg \<Longrightarrow> dag_positive (indeg[d := indeg ! d - 1]) + (if indeg ! d = 1 then 1 else 0) = dag_positive indeg"
proof (induction indeg arbitrary: d)
  case (Cons x indeg)
  then show ?case
  proof (cases d)
    case (Suc e)
    with Cons.prems Cons.IH [of e] show ?thesis by (simp add: dag_positive_def)
  qed (simp add: dag_positive_def)
qed simp

lemma dag_dec_measure:
  "dag_dec ds indeg ready = (indeg', ready') \<Longrightarrow> length ready' + dag_positive indeg' = length ready + dag_positive indeg"
proof (induction ds indeg ready rule: dag_dec.induct)
  case (2 d ds indeg ready)
  show ?case
  proof (cases "d < length indeg")
    case True
    with 2 dag_positive_update [of d indeg] show ?thesis by (auto simp: Let_def split: if_splits)
  next
    case False
    with 2 show ?thesis by (simp add: Let_def list_update_beyond)
  qed
qed simp

function dag_loop :: "nat list list \<Rightarrow> int list \<Rightarrow> nat list \<Rightarrow> nat list \<Rightarrow> nat list" where
  "dag_loop deps indeg ready out =
     (case sort ready of
        [] \<Rightarrow> out
      | i # rest \<Rightarrow> (case dag_dec (if i < length deps then deps ! i else []) indeg rest of
          (indeg', ready') \<Rightarrow> dag_loop deps indeg' ready' (out @ [i])))"
  by pat_completeness auto
termination dag_loop
proof (relation "measure (\<lambda>(deps, indeg, ready, out). length ready + dag_positive indeg)", goal_cases)
  case (2 deps indeg ready out i rest indeg' ready')
  from \<open>sort ready = i # rest\<close> have "length (sort ready) = Suc (length rest)" by simp
  then have "length ready = Suc (length rest)" by simp
  with dag_dec_measure [OF 2(2) [symmetric]] show ?case by simp
qed simp

declare dag_loop.simps [simp del]

text \<open>Jobs whose needs never resolve go last, so that nothing is hidden.\<close>

definition dag_indexes :: "CliJob list \<Rightarrow> nat list" where
  "dag_indexes jobs =
     (let (indeg, deps) = dag_graph jobs;
          out = dag_loop deps indeg (filter (\<lambda>i. indeg ! i = 0) [0..<length jobs]) []
      in out @ filter (\<lambda>i. i \<notin> set out) [0..<length jobs])"

definition dagOrder :: "CliJob list \<Rightarrow> CliJob list" where
  "dagOrder jobs = map (\<lambda>i. jobs ! i) (dag_indexes jobs)"


section \<open>Cells\<close>

definition job_state_cell :: "CliJob \<Rightarrow> string" where
  "job_state_cell j =
     (if cj_state j \<noteq> ''failed'' then cj_state j
      else case cj_exit_code j of
        Some c \<Rightarrow> ''failed (exit '' @ Itoa c @ '')''
      | None \<Rightarrow> if cj_failure_kind j \<noteq> [] then ''failed ('' @ cj_failure_kind j @ '')'' else cj_state j)"

definition attempt_cell :: "CliJob \<Rightarrow> string" where
  "attempt_cell j =
     (if cj_attempt j = 0 then ''-''
      else if 1 < cj_max_attempts j then Itoa (cj_attempt j) @ ''/'' @ Itoa (cj_max_attempts j) else Itoa (cj_attempt j))"

definition dash :: "string \<Rightarrow> string" where
  "dash s = (if s = [] then ''-'' else s)"

definition labels_cell :: "(string \<times> string) list \<Rightarrow> string" where
  "labels_cell m =
     (if m = [] then ''-''
      else concat (map (\<lambda>(i, k). (if i = 0 then [] else '','') @ k @ ''='' @ get_str m k) (enumerate 0 (sort (map fst m)))))"

text \<open>\<open>duration\<close> and the column layout belong to the standard library; \<open>dur\<close> is the printed duration.\<close>

definition duration_millis :: "int \<Rightarrow> int \<Rightarrow> int \<Rightarrow> int option" where
  "duration_millis started finished now =
     (if started = 0 then None else let e = (if finished = 0 then now else finished) in Some (max 0 (e - started)))"

definition renderJobs :: "(CliJob \<Rightarrow> string) \<Rightarrow> CliJob list \<Rightarrow> string list list" where
  "renderJobs dur jobs = [''JOB'', ''STATE'', ''ATTEMPT'', ''RUNNER'', ''DURATION''] #
     map (\<lambda>j. [cj_name j, job_state_cell j, attempt_cell j, dash (cj_runner_id j), dur j]) (dagOrder jobs)"


section \<open>The graph of a validated pipeline\<close>

lemma dag_index_snoc: "dag_index (jobs @ [j]) = AList.update (cj_name j) (length jobs) (dag_index jobs)"
  by (simp add: dag_index_def enumerate_append_eq)

lemma dag_index_name:
  "distinct (map cj_name jobs) \<Longrightarrow> i < length jobs \<Longrightarrow> map_of (dag_index jobs) (cj_name (jobs ! i)) = Some i"
proof (induction jobs rule: rev_induct)
  case (snoc j jobs)
  show ?case
  proof (cases "i = length jobs")
    case False
    then have i: "i < length jobs" using snoc.prems(2) by simp
    have "cj_name j \<notin> cj_name ` set jobs" using snoc.prems(1) by simp
    with imageI [OF nth_mem [OF i], of cj_name] have "cj_name (jobs ! i) \<noteq> cj_name j" by metis
    with snoc i show ?thesis by (simp add: dag_index_snoc update_conv' nth_append)
  qed (simp add: dag_index_snoc update_conv')
qed simp

text \<open>The jobs of a run as the API lists them: the pipeline's, in the order of declaration.\<close>

definition lists_pipeline :: "CliJob list \<Rightarrow> PJob list \<Rightarrow> bool" where
  "lists_pipeline jobs js \<longleftrightarrow> map (\<lambda>j. (cj_name j, cj_needs j)) jobs = map (\<lambda>p. (pj_name p, Some (pj_needs p))) js"

lemma lists_pipeline_at:
  assumes "lists_pipeline jobs js"
  shows "length jobs = length js" and "i < length js \<Longrightarrow> cj_name (jobs ! i) = pj_name (js ! i)"
    and "i < length js \<Longrightarrow> dag_needs (jobs ! i) = pj_needs (js ! i)" and "map cj_name jobs = map pj_name js"
proof -
  note eq = assms [unfolded lists_pipeline_def]
  show len: "length jobs = length js" using arg_cong [OF eq, of length] by simp
  have "(cj_name (jobs ! i), cj_needs (jobs ! i)) = (pj_name (js ! i), Some (pj_needs (js ! i)))" if "i < length js" for i
    using arg_cong [OF eq, of "\<lambda>xs. xs ! i"] that len by simp
  then show at: "cj_name (jobs ! i) = pj_name (js ! i)" and "dag_needs (jobs ! i) = pj_needs (js ! i)" if "i < length js" for i
    using that by (auto simp: dag_needs_def)
  show "map cj_name jobs = map pj_name js" using len at by (simp add: list_eq_iff_nth_eq)
qed

lemma dag_edges_needs:
  assumes "\<And>j. j < length deps \<Longrightarrow> map_of idx (nm j) = Some j" and "i < length indeg"
    and "distinct ns" and "\<forall>n \<in> set ns. \<exists>j < length deps. nm j = n"
    and "foldl (dag_edge idx i) (indeg, deps) ns = (indeg', deps')"
  shows "indeg' = indeg[i := indeg ! i + int (length ns)] \<and> length deps' = length deps \<and>
    (\<forall>j < length deps. deps' ! j = deps ! j @ (if nm j \<in> set ns then [i] else []))"
  using assms
proof (induction ns arbitrary: indeg deps)
  case (Cons n ns)
  from Cons.prems(4) obtain k where k: "k < length deps" "nm k = n" by auto
  let ?indeg = "indeg[i := indeg ! i + 1]" and ?deps = "deps[k := deps ! k @ [i]]"
  have edge: "dag_edge idx i (indeg, deps) n = (?indeg, ?deps)" using Cons.prems(1) [OF k(1)] k(2) by (simp add: dag_edge_def)
  have inj: "j = k" if "j < length deps" "nm j = n" for j
    using Cons.prems(1) [OF that(1)] Cons.prems(1) [OF k(1)] that(2) k(2) by simp
  have "foldl (dag_edge idx i) (?indeg, ?deps) ns = (indeg', deps')" using Cons.prems(5) edge by simp
  then have IH: "indeg' = ?indeg[i := ?indeg ! i + int (length ns)]" "length deps' = length deps"
      "\<And>j. j < length deps \<Longrightarrow> deps' ! j = ?deps ! j @ (if nm j \<in> set ns then [i] else [])"
    using Cons.IH [of ?deps ?indeg] Cons.prems(1-4) by simp_all
  have "indeg' = indeg[i := indeg ! i + int (length (n # ns))]" using IH(1) Cons.prems(2) by (simp add: add.assoc)
  moreover have "deps' ! j = deps ! j @ (if nm j \<in> set (n # ns) then [i] else [])" if j: "j < length deps" for j
  proof (cases "j = k")
    case True
    moreover have "nm k \<notin> set ns" using Cons.prems(3) k(2) by simp
    ultimately show ?thesis using IH(3) [OF j] k by simp
  next
    case False
    with inj [OF j] have "nm j \<noteq> n" by blast
    with IH(3) [OF j] False show ?thesis by simp
  qed
  ultimately show ?case using IH(2) by simp
qed simp

lemma dag_graph_spec:
  assumes l: "lists_pipeline jobs js" and g: "graph_ok js tdeps"
  obtains indeg deps where "dag_graph jobs = (indeg, deps)" and "length indeg = length js" and "length deps = length js"
    and "\<And>i. i < length js \<Longrightarrow> indeg ! i = int (length (pj_needs (js ! i)))"
    and "\<And>i. i < length js \<Longrightarrow> deps ! i = filter (\<lambda>k. pj_name (js ! i) \<in> set (pj_needs (js ! k))) [0..<length js]"
proof -
  note at = lists_pipeline_at [OF l]
  have dist: "distinct (map pj_name js)" and needs: "\<And>j. j \<in> set js \<Longrightarrow> needs_ok (pj_name ` set js) j"
    using g by (simp_all add: graph_ok_def)
  have idx: "map_of (dag_index jobs) (pj_name (js ! j)) = Some j" if "j < length js" for j
    using dag_index_name [of jobs j] dist at(1,2,4) that by simp
  let ?f = "\<lambda>g (i, j). foldl (dag_edge (dag_index jobs) i) g (dag_needs j)" and ?n = "length js"
  have "\<exists>indeg deps. foldl ?f (replicate ?n 0, replicate ?n []) (enumerate 0 (take k jobs)) = (indeg, deps) \<and>
      length indeg = ?n \<and> length deps = ?n \<and>
      (\<forall>i < ?n. indeg ! i = (if i < k then int (length (pj_needs (js ! i))) else 0)) \<and>
      (\<forall>i < ?n. deps ! i = filter (\<lambda>m. pj_name (js ! i) \<in> set (pj_needs (js ! m))) [0..<k])" if "k \<le> ?n" for k
    using that
  proof (induction k)
    case (Suc k)
    then obtain indeg deps where IH: "foldl ?f (replicate ?n 0, replicate ?n []) (enumerate 0 (take k jobs)) = (indeg, deps)"
      "length indeg = ?n" "length deps = ?n" "\<forall>i < ?n. indeg ! i = (if i < k then int (length (pj_needs (js ! i))) else 0)"
      "\<forall>i < ?n. deps ! i = filter (\<lambda>m. pj_name (js ! i) \<in> set (pj_needs (js ! m))) [0..<k]" by auto
    have k: "k < length js" "k < length jobs" using Suc.prems at(1) by simp_all
    obtain indeg' deps' where fold: "foldl (dag_edge (dag_index jobs) k) (indeg, deps) (pj_needs (js ! k)) = (indeg', deps')" by fastforce
    have nk: "needs_ok (pj_name ` set js) (js ! k)" using needs k(1) by simp
    have "distinct (pj_needs (js ! k))" using nk by (simp add: needs_ok_def)
    moreover have "\<forall>n \<in> set (pj_needs (js ! k)). \<exists>j < length deps. pj_name (js ! j) = n"
    proof
      fix n assume "n \<in> set (pj_needs (js ! k))"
      then have "n \<in> pj_name ` set js" using nk by (auto simp: needs_ok_def)
      then obtain j where "j \<in> set js" "n = pj_name j" by blast
      then show "\<exists>j < length deps. pj_name (js ! j) = n" using IH(3) by (auto simp: in_set_conv_nth)
    qed
    ultimately have new: "indeg' = indeg[k := indeg ! k + int (length (pj_needs (js ! k)))]" "length deps' = length deps"
      "\<forall>j < length deps. deps' ! j = deps ! j @ (if pj_name (js ! j) \<in> set (pj_needs (js ! k)) then [k] else [])"
      using dag_edges_needs [of deps "dag_index jobs" "\<lambda>j. pj_name (js ! j)" k indeg "pj_needs (js ! k)" indeg' deps'] fold idx IH(2,3) k(1)
      by simp_all
    have "foldl ?f (replicate ?n 0, replicate ?n []) (enumerate 0 (take (Suc k) jobs)) = (indeg', deps')"
      using IH(1) fold k at(3) by (simp add: take_Suc_conv_app_nth enumerate_append_eq)
    then show ?case using IH(2-5) new k(1) by (auto simp: nth_list_update)
  qed auto
  from this [of ?n] at(1) that show thesis by (auto simp: dag_graph_def)
qed


section \<open>The walk\<close>

lemma insort_key_map: "insort_key f (g x) (map g xs) = map g (insort_key (\<lambda>x. f (g x)) x xs)"
  by (induction xs) auto

lemma sort_key_map: "sort_key f (map g xs) = map g (sort_key (\<lambda>x. f (g x)) xs)"
  by (induction xs) (simp_all add: insort_key_map)

lemma insort_mono: "(\<And>y. y \<in> set xs \<Longrightarrow> f x \<le> f y \<longleftrightarrow> x \<le> y) \<Longrightarrow> insort_key f x xs = insort x xs"
  by (induction xs) auto

lemma sort_mono:
  "(\<And>x y. x \<in> set xs \<Longrightarrow> y \<in> set xs \<Longrightarrow> f x \<le> f y \<longleftrightarrow> x \<le> y) \<Longrightarrow> sort_key f xs = sort xs"
proof (induction xs)
  case (Cons x xs)
  then have "sort_key f xs = sort xs" by simp
  moreover have "insort_key f x (sort xs) = insort x (sort xs)" using Cons.prems by (intro insort_mono) simp
  ultimately show ?case by simp
qed simp

definition dag_sim :: "(nat \<Rightarrow> string) \<Rightarrow> nat \<Rightarrow> int list \<Rightarrow> (string \<times> int) list \<Rightarrow> bool" where
  "dag_sim nm n indeg tindeg \<longleftrightarrow> length indeg = n \<and> (\<forall>i < n. get_int tindeg (nm i) = indeg ! i)"

lemma dag_dec_sim:
  "inj_on nm {..<n} \<Longrightarrow> dag_sim nm n indeg tindeg \<Longrightarrow> set ds \<subseteq> {..<n} \<Longrightarrow> set ready \<subseteq> {..<n} \<Longrightarrow>
   dag_dec ds indeg ready = (indeg', ready') \<Longrightarrow>
   \<exists>tindeg'. topo_dec (map nm ds) tindeg (map nm ready) = (tindeg', map nm ready') \<and>
     dag_sim nm n indeg' tindeg' \<and> set ready' \<subseteq> {..<n}"
proof (induction ds arbitrary: indeg tindeg ready)
  case (Cons d ds)
  let ?i = "indeg[d := indeg ! d - 1]" and ?t = "AList.update (nm d) (get_int tindeg (nm d) - 1) tindeg"
  let ?r = "if indeg ! d - 1 = 0 then ready @ [d] else ready"
  have d: "d < n" "d < length indeg" using Cons.prems(2,3) by (auto simp: dag_sim_def)
  have same: "nm i = nm d \<longleftrightarrow> i = d" if "i < n" for i using Cons.prems(1) that d(1) by (auto simp: inj_on_def)
  have sim: "dag_sim nm n ?i ?t" using Cons.prems(2) d same by (auto simp: dag_sim_def nth_list_update)
  have "get_int ?t (nm d) = indeg ! d - 1" using Cons.prems(2) d(1) by (simp add: dag_sim_def)
  then have "topo_dec (map nm (d # ds)) tindeg (map nm ready) = topo_dec (map nm ds) ?t (map nm ?r)" by (simp add: Let_def)
  moreover have "dag_dec ds ?i ?r = (indeg', ready')" using Cons.prems(5) d(2) by (simp add: Let_def)
  moreover have "set ds \<subseteq> {..<n}" "set ?r \<subseteq> {..<n}" using Cons.prems(3,4) by auto
  ultimately show ?case using Cons.IH [OF Cons.prems(1) sim] by simp
qed simp

lemma dag_loop_sim:
  assumes inj: "inj_on nm {..<n}" and order: "\<And>i. i < n \<Longrightarrow> get_int order (nm i) = int i"
    and len: "length deps = n" and deps: "\<And>i. i < n \<Longrightarrow> get_list tdeps (nm i) = map nm (deps ! i) \<and> set (deps ! i) \<subseteq> {..<n}"
  shows "dag_sim nm n indeg tindeg \<Longrightarrow> set ready \<subseteq> {..<n} \<Longrightarrow> set out \<subseteq> {..<n} \<Longrightarrow>
    set (dag_loop deps indeg ready out) \<subseteq> {..<n} \<and>
    snd (topo_loop order tdeps tindeg (map nm ready) (map nm out)) = map nm (dag_loop deps indeg ready out)"
  using len deps
proof (induction deps indeg ready out arbitrary: tindeg rule: dag_loop.induct)
  case (1 deps indeg ready out)
  have "sort_key (\<lambda>i. get_int order (nm i)) ready = sort ready"
    using "1.prems"(2) order by (intro sort_mono) (auto simp: subset_iff)
  then have sorted: "sort_key (get_int order) (map nm ready) = map nm (sort ready)" by (simp add: sort_key_map)
  show ?case
  proof (cases "sort ready")
    case Nil
    with sorted "1.prems"(3) show ?thesis by (subst dag_loop.simps, subst (2) dag_loop.simps, subst topo_loop.simps) simp
  next
    case (Cons i rest)
    have "set (sort ready) = set ready" by simp
    with Cons "1.prems"(2) have i: "i < n" and rest: "set rest \<subseteq> {..<n}" by auto
    obtain indeg' ready' where dec: "dag_dec (if i < length deps then deps ! i else []) indeg rest = (indeg', ready')" by fastforce
    then have "dag_dec (deps ! i) indeg rest = (indeg', ready')" using i "1.prems"(4) by simp
    from dag_dec_sim [OF inj "1.prems"(1) _ rest this] "1.prems"(5) [OF i] obtain tindeg' where
      t: "topo_dec (get_list tdeps (nm i)) tindeg (map nm rest) = (tindeg', map nm ready')"
      "dag_sim nm n indeg' tindeg'" "set ready' \<subseteq> {..<n}" by auto
    have "topo_loop order tdeps tindeg (map nm ready) (map nm out) = topo_loop order tdeps tindeg' (map nm ready') (map nm (out @ [i]))"
      using sorted Cons t(1) by (subst topo_loop.simps) simp
    moreover have "dag_loop deps indeg ready out = dag_loop deps indeg' ready' (out @ [i])"
      using Cons dec by (subst dag_loop.simps) simp
    ultimately show ?thesis using "1.IH" [OF Cons dec [symmetric] t(2,3)] "1.prems"(3-5) i by simp
  qed
qed

text \<open>The order of the indexes is the order of the names.\<close>

lemma dag_indexes_topo:
  assumes l: "lists_pipeline jobs (p_jobs p)" and g: "graph_ok (p_jobs p) (p_deps p)" and ac: "acyclic (need_rel (p_jobs p))"
  shows "topo p = Inr (map (\<lambda>i. pj_name (p_jobs p ! i)) (dag_indexes jobs))" and "set (dag_indexes jobs) \<subseteq> {..<length jobs}"
proof -
  let ?js = "p_jobs p" and ?nm = "\<lambda>i. pj_name (p_jobs p ! i)"
  let ?n = "length ?js" and ?tready = "map pj_name (filter (\<lambda>j. get_int (topo_indeg (p_jobs p)) (pj_name j) = 0) (p_jobs p))"
  have dist: "distinct (map pj_name ?js)" using g by (simp add: graph_ok_def)
  obtain indeg deps where graph: "dag_graph jobs = (indeg, deps)" "length indeg = ?n" "length deps = ?n"
    "\<And>i. i < ?n \<Longrightarrow> indeg ! i = int (length (pj_needs (?js ! i)))"
    "\<And>i. i < ?n \<Longrightarrow> deps ! i = filter (\<lambda>k. ?nm i \<in> set (pj_needs (?js ! k))) [0..<?n]"
    by (rule dag_graph_spec [OF l g]) blast
  have inj: "inj_on ?nm {..<?n}" using dist by (auto simp: inj_on_def distinct_conv_nth)
  have sim: "dag_sim ?nm ?n indeg (topo_indeg ?js)"
    using graph(2,4) topo_indeg_get [OF dist nth_mem] by (simp add: dag_sim_def)
  have js: "filter P ?js = map ((!) ?js) (filter (\<lambda>i. P (?js ! i)) [0..<?n])" for P
    using filter_map [of P "(!) ?js" "[0..<?n]"] by (simp add: map_nth comp_def)
  let ?ready = "filter (\<lambda>i. indeg ! i = 0) [0..<?n]"
  have "filter (\<lambda>i. get_int (topo_indeg ?js) (?nm i) = 0) [0..<?n] = ?ready" using sim by (intro filter_cong) (auto simp: dag_sim_def)
  then have ready: "?tready = map ?nm ?ready" by (simp add: js comp_def)
  have tdeps: "get_list (p_deps p) (?nm i) = map ?nm (deps ! i) \<and> set (deps ! i) \<subseteq> {..<?n}" if "i < ?n" for i
    using g graph(5) [OF that] by (auto simp: graph_ok_def js comp_def)
  from dag_loop_sim [OF inj topo_order_at [OF dist] graph(3) tdeps sim, of ?ready "[]"]
  have walk: "set (dag_loop deps indeg ?ready []) \<subseteq> {..<?n}"
    "snd (topo_loop (topo_order ?js) (p_deps p) (topo_indeg ?js) ?tready []) = map ?nm (dag_loop deps indeg ?ready [])"
    by (auto simp: ready)
  from topo_cases(1) [OF g ac] obtain out where out: "topo p = Inr out" "set out = pj_name ` set ?js" by blast
  have "out = snd (topo_loop (topo_order ?js) (p_deps p) (topo_indeg ?js) ?tready [])"
    using out(1) by (auto simp: topo_def Let_def split: prod.splits if_splits)
  with walk(2) have eq: "out = map ?nm (dag_loop deps indeg ?ready [])" by simp
  have "i \<in> set (dag_loop deps indeg ?ready [])" if i: "i < ?n" for i
  proof -
    have "?nm i \<in> set out" using out(2) i by simp
    then obtain k where "k \<in> set (dag_loop deps indeg ?ready [])" "?nm k = ?nm i" using eq by auto
    with walk(1) inj i show ?thesis by (auto simp: inj_on_def subset_iff)
  qed
  then have "dag_indexes jobs = dag_loop deps indeg ?ready []"
    using lists_pipeline_at(1) [OF l] by (simp add: dag_indexes_def graph(1) filter_empty_conv)
  with eq out(1) walk(1) lists_pipeline_at(1) [OF l]
  show "topo p = Inr (map ?nm (dag_indexes jobs))" and "set (dag_indexes jobs) \<subseteq> {..<length jobs}" by simp_all
qed

text \<open>
  The table of jobs the client prints is in the order the server validated: for every pipeline
  that passed \<open>finalize\<close>, the index-based walk of \<open>dagOrder\<close> over the jobs the API lists gives the
  names in exactly the order of \<open>TopoOrder\<close>, and so hides no job and repeats none.
\<close>

theorem dagOrder_is_TopoOrder:
  assumes "finalize p = Inr p'" and "lists_pipeline jobs (p_jobs p')"
  shows "Some (map cj_name (dagOrder jobs)) = TopoOrder p' \<and> mset (dagOrder jobs) = mset jobs"
proof
  let ?nm = "\<lambda>i. pj_name (p_jobs p' ! i)"
  note f = finalize_Inr_facts [OF assms(1)] and at = lists_pipeline_at [OF assms(2)]
  have ac: "acyclic (need_rel (p_jobs p'))" using f(2,3) by simp
  note dag = dag_indexes_topo [OF assms(2) f(4) ac]
  have "map cj_name (dagOrder jobs) = map ?nm (dag_indexes jobs)"
    using dag(2) at(1,2) by (auto simp: dagOrder_def subset_iff)
  with dag(1) show "Some (map cj_name (dagOrder jobs)) = TopoOrder p'" by (simp add: TopoOrder_def)
  from topo_cases(1) [OF f(4) ac] dag(1)
  have out: "distinct (map ?nm (dag_indexes jobs))" "set (map ?nm (dag_indexes jobs)) = pj_name ` set (p_jobs p')" by auto
  have dist: "distinct (map pj_name (p_jobs p'))" using f(4) by (simp add: graph_ok_def)
  have "i \<in> set (dag_indexes jobs)" if i: "i < length jobs" for i
  proof -
    have "?nm i \<in> pj_name ` set (p_jobs p')" using i at(1) by simp
    then obtain k where k: "k \<in> set (dag_indexes jobs)" "?nm i = ?nm k" unfolding out(2) [symmetric] set_map by blast
    then have "k < length jobs" using dag(2) by auto
    then have "k = i" using dist k(2) i at(1) nth_eq_iff_index_eq [OF dist, of k i] by simp
    with k(1) show ?thesis by simp
  qed
  with dag(2) have "set (dag_indexes jobs) = set [0..<length jobs]" by auto
  moreover have "distinct (dag_indexes jobs)" using out(1) by (simp add: distinct_map)
  ultimately have "mset (dag_indexes jobs) = mset [0..<length jobs]" using set_eq_iff_mset_eq_distinct distinct_upt by blast
  then have "image_mset ((!) jobs) (mset (dag_indexes jobs)) = mset (map ((!) jobs) [0..<length jobs])" by simp
  then show "mset (dagOrder jobs) = mset jobs" by (simp only: dagOrder_def map_nth mset_map)
qed

definition demo_cli_job :: "PJob \<Rightarrow> CliJob" where
  "demo_cli_job p = \<lparr>cj_id = ''j'', cj_name = pj_name p, cj_state = ''pending'', cj_attempt = 0, cj_max_attempts = 1, cj_runner_id = [],
     cj_failure_kind = [], cj_exit_code = None, cj_needs = Some (pj_needs p)\<rparr>"

definition demo_cli_jobs :: "CliJob list" where
  "demo_cli_jobs = map demo_cli_job (p_jobs demo_final)"

theorem dagOrder_is_TopoOrder_witness:
  "lists_pipeline demo_cli_jobs (p_jobs demo_final) \<and>
   map cj_name (dagOrder demo_cli_jobs) = [''build'', ''test'', ''lint'', ''ship'']"
proof -
  have l: "lists_pipeline demo_cli_jobs (p_jobs demo_final)"
    by (simp add: lists_pipeline_def demo_cli_jobs_def demo_cli_job_def)
  with dagOrder_is_TopoOrder [OF demo_finalize l] demo_order show ?thesis by simp
qed

end
