(* ===== verification/Remote.thy ===== *)
theory Remote
  imports Artifact_Store
begin

text \<open>
  internal/artifact/remote: the artifact store over the HTTP API of a replicated object store. The
  coordinator is not part of the repository: it is a function that answers one request and moves its own
  state, and what the client relies on are the predicates \<open>writes_ok\<close>, \<open>reads_ok\<close> and \<open>lists_ok\<close>. Retries, spooling, the two
  requests of a delete and the pages of a listing are the client's. The weaker contract both backends
  meet is the locale \<open>atomic_store\<close>.
\<close>


section \<open>Configuration and errors\<close>

text \<open>Durations are nanoseconds.\<close>

record remote_config =
  rc_base :: string
  rc_bucket :: string
  rc_token :: string
  rc_spool :: string
  rc_request_timeout :: int
  rc_transfer_timeout :: int
  rc_attempts :: int
  rc_backoff :: int
  rc_max_backoff :: int

definition defaultBucket :: string where "defaultBucket = ''quarry-artifacts''"

definition defaultRequestTimeout :: int where "defaultRequestTimeout = 30 * 1000000000"

definition defaultTransferTimeout :: int where "defaultTransferTimeout = 10 * 60 * 1000000000"

definition defaultAttempts :: int where "defaultAttempts = 5"

definition defaultBackoff :: int where "defaultBackoff = 200 * 1000000"

definition defaultMaxBackoff :: int where "defaultMaxBackoff = 5 * 1000000000"

definition positive_or :: "int \<Rightarrow> int \<Rightarrow> int" where
  "positive_or d x = (if x \<le> 0 then d else x)"

definition withDefaults :: "remote_config \<Rightarrow> remote_config" where
  "withDefaults c = c\<lparr>rc_bucket := (if rc_bucket c = [] then defaultBucket else rc_bucket c),
     rc_request_timeout := positive_or defaultRequestTimeout (rc_request_timeout c),
     rc_transfer_timeout := positive_or defaultTransferTimeout (rc_transfer_timeout c),
     rc_attempts := positive_or defaultAttempts (rc_attempts c),
     rc_backoff := positive_or defaultBackoff (rc_backoff c),
     rc_max_backoff := positive_or defaultMaxBackoff (rc_max_backoff c)\<rparr>"

text \<open>
  What comes back over the wire: a page is present when the body decodes as one, the code and message
  when it decodes as an error. No reply at all is a transport error.
\<close>

record listPage =
  lp_keys :: "string list"
  lp_truncated :: bool
  lp_next :: string

record wire =
  w_status :: nat
  w_body :: reader
  w_error :: "(string \<times> string) option"
  w_page :: "listPage option"

datatype request = PutBucket | PutObject string "char list" | GetObject string | HeadObject string | DeleteObject string
| ListObjects string string

text \<open>The errors of \<open>retry\<close>; joining and wrapping keep the inner error for \<open>errors.As\<close>.\<close>

datatype remote_error = Coordinator nat string string | Transport | CtxJoined remote_error | AfterAttempts nat remote_error

definition decodeError :: "wire \<Rightarrow> remote_error" where
  "decodeError w = (case w_error w of None \<Rightarrow> Coordinator (w_status w) [] [] | Some (code, msg) \<Rightarrow> Coordinator (w_status w) code msg)"

fun error_status :: "remote_error \<Rightarrow> nat option" where
  "error_status (Coordinator s _ _) = Some s"
| "error_status Transport = None"
| "error_status (CtxJoined e) = error_status e"
| "error_status (AfterAttempts _ e) = error_status e"

definition isNotFound :: "remote_error \<Rightarrow> bool" where
  "isNotFound e \<longleftrightarrow> error_status e = Some 404"


section \<open>retry\<close>

text \<open>
  \<open>ctx n\<close> is whether the context had ended after the n-th try, and whether it ended during the wait
  that follows. \<open>left\<close> counts the tries left after this one. The list is the waits.
\<close>

type_synonym ctx = "nat \<Rightarrow> bool \<times> bool"

datatype verdict = Done wire | Final remote_error | Again remote_error

definition remote_verdict :: "wire option \<Rightarrow> verdict" where
  "remote_verdict reply = (case reply of
     None \<Rightarrow> Again Transport
   | Some w \<Rightarrow> if w_status w div 100 = 2 then Done w else if w_status w < 500 then Final (decodeError w) else Again (decodeError w))"

fun remote_retry :: "('c \<Rightarrow> wire option \<times> 'c) \<Rightarrow> ctx \<Rightarrow> int \<Rightarrow> nat \<Rightarrow> nat \<Rightarrow> int \<Rightarrow> 'c \<Rightarrow> (remote_error + wire) \<times> int list \<times> 'c" where
  "remote_retry send ctx maxb attempt 0 delay c =
     (case send c of (reply, c') \<Rightarrow>
        (case remote_verdict reply of
           Done w \<Rightarrow> (Inr w, [], c')
         | Final e \<Rightarrow> (Inl e, [], c')
         | Again e \<Rightarrow> (Inl (if fst (ctx attempt) then CtxJoined e else AfterAttempts attempt e), [], c')))"
| "remote_retry send ctx maxb attempt (Suc left) delay c =
     (case send c of (reply, c') \<Rightarrow>
        (case remote_verdict reply of
           Done w \<Rightarrow> (Inr w, [], c')
         | Final e \<Rightarrow> (Inl e, [], c')
         | Again e \<Rightarrow>
             if fst (ctx attempt) \<or> snd (ctx attempt) then (Inl (CtxJoined e), [], c')
             else (case remote_retry send ctx maxb (Suc attempt) left (min (delay * 2) maxb) c' of
                     (r, ds, c'') \<Rightarrow> (r, delay # ds, c''))))"

text \<open>A call of \<open>s.retry\<close> with the store's settings, which have passed \<open>withDefaults\<close>.\<close>

definition retried :: "remote_config \<Rightarrow> ctx \<Rightarrow> ('c \<Rightarrow> wire option \<times> 'c) \<Rightarrow> 'c \<Rightarrow> (remote_error + wire) \<times> 'c" where
  "retried cfg ctx send c =
     (case remote_retry send ctx (rc_max_backoff cfg) 1 (nat (rc_attempts cfg - 1)) (rc_backoff cfg) c of (r, _, c') \<Rightarrow> (r, c'))"


section \<open>The store\<close>

text \<open>
  The state: the coordinator as a function, its own state, and what it holds. A request carries the key
  itself, whose segments the client escapes one by one.
\<close>

record 'c coordinator =
  co_call :: "request \<Rightarrow> 'c \<Rightarrow> wire option \<times> 'c"
  co_objs :: "'c \<Rightarrow> string \<rightharpoonup> char list"

definition ensureBucket :: "remote_config \<Rightarrow> ctx \<Rightarrow> 'c coordinator \<Rightarrow> 'c \<Rightarrow> remote_error option \<times> 'c" where
  "ensureBucket cfg ctx co c =
     (case retried cfg ctx (co_call co PutBucket) c of
        (Inl e, c') \<Rightarrow> (if error_status e = Some 409 then None else Some e, c')
      | (Inr _, c') \<Rightarrow> (None, c'))"

text \<open>\<open>New\<close>: \<open>valid\<close> is whether the base URL parses as an absolute http or https URL.\<close>

definition remote_New :: "bool \<Rightarrow> remote_config \<Rightarrow> ctx \<Rightarrow> 'c coordinator \<Rightarrow> 'c \<Rightarrow> (remote_error option + remote_config) \<times> 'c" where
  "remote_New valid cfg ctx co c =
     (let cfg' = withDefaults cfg in
      if \<not> valid then (Inl None, c)
      else case ensureBucket cfg' ctx co c of (Some e, c') \<Rightarrow> (Inl (Some e), c') | (None, c') \<Rightarrow> (Inr cfg', c'))"

datatype store_error = BadKey path_error | NotFound | SpoolIO | Spool art_error | WrongSize nat int | BadPrefix
| Request remote_error | BadListing

text \<open>
  \<open>Put\<close> spools the reader first, with one byte more than announced to notice a long one
  (\<open>copied\<close>), and then sends the spool; \<open>spool\<close> is whether the spool file could be created.
\<close>

definition remote_Put :: "remote_config \<Rightarrow> ctx \<Rightarrow> bool \<Rightarrow> 'c coordinator \<Rightarrow> string \<Rightarrow> reader \<Rightarrow> int \<Rightarrow> 'c \<Rightarrow> (store_error + unit) \<times> 'c" where
  "remote_Put cfg ctx spool co key r sz c =
     (case ValidateKey key of
        Some e \<Rightarrow> (Inl (BadKey e), c)
      | None \<Rightarrow>
          if \<not> spool then (Inl SpoolIO, c)
          else
            (case copied r sz of
               Inl e \<Rightarrow> (Inl (Spool e), c)
             | Inr data \<Rightarrow>
                 if 0 \<le> sz \<and> int (length data) \<noteq> sz then (Inl (WrongSize (length data) sz), c)
                 else (case retried cfg ctx (co_call co (PutObject key data)) c of
                         (Inl e, c') \<Rightarrow> (Inl (Request e), c')
                       | (Inr _, c') \<Rightarrow> (Inr (), c'))))"

definition remote_Get :: "remote_config \<Rightarrow> ctx \<Rightarrow> 'c coordinator \<Rightarrow> string \<Rightarrow> 'c \<Rightarrow> (store_error + reader) \<times> 'c" where
  "remote_Get cfg ctx co key c =
     (case ValidateKey key of
        Some e \<Rightarrow> (Inl (BadKey e), c)
      | None \<Rightarrow>
          (case retried cfg ctx (co_call co (GetObject key)) c of
             (Inl e, c') \<Rightarrow> (Inl (if isNotFound e then NotFound else Request e), c')
           | (Inr w, c') \<Rightarrow> (Inr (w_body w), c')))"

text \<open>\<open>Delete\<close>: a \<open>HEAD\<close> and then a \<open>DELETE\<close>, each with its own retries.\<close>

fun delete_loop :: "remote_config \<Rightarrow> (ctx \<times> request) list \<Rightarrow> 'c coordinator \<Rightarrow> 'c \<Rightarrow> (store_error + unit) \<times> 'c" where
  "delete_loop cfg [] co c = (Inr (), c)"
| "delete_loop cfg ((ctx, req) # reqs) co c =
     (case retried cfg ctx (co_call co req) c of
        (Inl e, c') \<Rightarrow> (Inl (if isNotFound e then NotFound else Request e), c')
      | (Inr _, c') \<Rightarrow> delete_loop cfg reqs co c')"

definition remote_Delete :: "remote_config \<Rightarrow> ctx \<Rightarrow> ctx \<Rightarrow> 'c coordinator \<Rightarrow> string \<Rightarrow> 'c \<Rightarrow> (store_error + unit) \<times> 'c" where
  "remote_Delete cfg ctx1 ctx2 co key c =
     (case ValidateKey key of
        Some e \<Rightarrow> (Inl (BadKey e), c)
      | None \<Rightarrow> delete_loop cfg [(ctx1, HeadObject key), (ctx2, DeleteObject key)] co c)"

definition remote_listPage :: "remote_config \<Rightarrow> ctx \<Rightarrow> 'c coordinator \<Rightarrow> string \<Rightarrow> string \<Rightarrow> 'c \<Rightarrow> (store_error + listPage) \<times> 'c" where
  "remote_listPage cfg ctx co pre startAfter c =
     (case retried cfg ctx (co_call co (ListObjects pre startAfter)) c of
        (Inl e, c') \<Rightarrow> (Inl (Request e), c')
      | (Inr w, c') \<Rightarrow> (case w_page w of None \<Rightarrow> Inl BadListing | Some page \<Rightarrow> Inr page, c'))"

text \<open>The loop over the pages may go on for as long as the coordinator says there is more.\<close>

partial_function (option) list_loop :: "remote_config \<Rightarrow> (nat \<Rightarrow> ctx) \<Rightarrow> 'c coordinator \<Rightarrow> string \<Rightarrow> nat \<Rightarrow> string \<Rightarrow> string list \<Rightarrow> 'c
    \<Rightarrow> ((store_error + string list) \<times> 'c) option" where
  "list_loop cfg ctxs co pre n startAfter keys c =
     (case remote_listPage cfg (ctxs n) co pre startAfter c of
        (Inl e, c') \<Rightarrow> Some (Inl e, c')
      | (Inr page, c') \<Rightarrow>
          let keys' = keys @ filter (prefix pre) (lp_keys page) in
          if \<not> lp_truncated page \<or> lp_next page = [] then Some (Inr (sort keys'), c')
          else list_loop cfg ctxs co pre (Suc n) (lp_next page) keys' c')"

definition remote_List :: "remote_config \<Rightarrow> (nat \<Rightarrow> ctx) \<Rightarrow> 'c coordinator \<Rightarrow> string \<Rightarrow> 'c \<Rightarrow> ((store_error + string list) \<times> 'c) option" where
  "remote_List cfg ctxs co pre c =
     (if CHR 0x5C \<in> set pre \<or> contains_dots pre then Some (Inl BadPrefix, c) else list_loop cfg ctxs co pre 0 [] [] c)"


section \<open>What the coordinator promises\<close>

text \<open>
  An object is committed as a whole or not at all, and certainly when the answer says so; reads change nothing
  and answer from what is held; a delete is idempotent. A request whose answer was lost may have been
  carried out. A page of a listing holds the first of the keys with the prefix behind \<open>start_after\<close>, in
  order; a truncated one is not empty, names its last key to go on from, and leaves some out.
\<close>

definition ok_reply :: "wire option \<Rightarrow> bool" where
  "ok_reply reply \<longleftrightarrow> (\<exists>w. reply = Some w \<and> w_status w div 100 = 2)"

definition missing_reply :: "wire option \<Rightarrow> bool" where
  "missing_reply reply \<longleftrightarrow> (\<exists>w. reply = Some w \<and> w_status w = 404)"

definition writes_ok :: "'c coordinator \<Rightarrow> bool" where
  "writes_ok co \<longleftrightarrow> (\<forall>k b c reply c'. co_call co (PutObject k b) c = (reply, c') \<longrightarrow>
     co_objs co c' = (co_objs co c)(k \<mapsto> b) \<or> \<not> ok_reply reply \<and> co_objs co c' = co_objs co c) \<and>
   (\<forall>k c reply c'. co_call co (DeleteObject k) c = (reply, c') \<longrightarrow>
     co_objs co c' = (co_objs co c)(k := None) \<or> \<not> ok_reply reply \<and> \<not> missing_reply reply \<and> co_objs co c' = co_objs co c)"

definition reads_ok :: "'c coordinator \<Rightarrow> bool" where
  "reads_ok co \<longleftrightarrow> (\<forall>k c reply c'. co_call co (GetObject k) c = (reply, c') \<longrightarrow> co_objs co c' = co_objs co c \<and>
     (missing_reply reply \<longrightarrow> co_objs co c k = None) \<and>
     (\<forall>w. reply = Some w \<and> w_status w div 100 = 2 \<longrightarrow> (\<exists>b. co_objs co c k = Some b \<and>
        prefix (rd_bytes (w_body w)) b \<and> (rd_error (w_body w) = None \<longrightarrow> rd_bytes (w_body w) = b)))) \<and>
   (\<forall>k c reply c'. co_call co (HeadObject k) c = (reply, c') \<longrightarrow> co_objs co c' = co_objs co c \<and>
     (missing_reply reply \<longrightarrow> co_objs co c k = None) \<and> (ok_reply reply \<longrightarrow> co_objs co c k \<noteq> None))"

definition listed_keys :: "'c coordinator \<Rightarrow> 'c \<Rightarrow> string \<Rightarrow> string \<Rightarrow> string set" where
  "listed_keys co c pre start = {k \<in> dom (co_objs co c). prefix pre k \<and> start < k}"

definition page_ok :: "string set \<Rightarrow> listPage \<Rightarrow> bool" where
  "page_ok S page \<longleftrightarrow> sorted (lp_keys page) \<and> distinct (lp_keys page) \<and> set (lp_keys page) \<subseteq> S \<and>
     (if lp_truncated page then lp_keys page \<noteq> [] \<and> lp_next page = last (lp_keys page) \<and>
        (\<forall>k \<in> S. k \<le> lp_next page \<longrightarrow> k \<in> set (lp_keys page))
      else S \<subseteq> set (lp_keys page))"

definition lists_ok :: "'c coordinator \<Rightarrow> bool" where
  "lists_ok co \<longleftrightarrow> (\<forall>pre start c reply c'. co_call co (ListObjects pre start) c = (reply, c') \<longrightarrow> co_objs co c' = co_objs co c \<and>
     (\<forall>w page. reply = Some w \<and> w_page w = Some page \<longrightarrow> page_ok (listed_keys co c pre start) page))"


section \<open>Retries\<close>

text \<open>A rule for a retried request: \<open>I\<close> holds between the tries, \<open>Q\<close> at the end.\<close>

lemma remote_retry_rule:
  assumes step: "\<And>c reply c'. I c \<Longrightarrow> send c = (reply, c') \<Longrightarrow>
      (case remote_verdict reply of Done w \<Rightarrow> Q (Inr w) c' | Final e \<Rightarrow> Q (Inl e) c'
       | Again e \<Rightarrow> I c' \<and> Q (Inl (CtxJoined e)) c' \<and> (\<forall>n. Q (Inl (AfterAttempts n e)) c'))"
  shows "I c \<Longrightarrow> remote_retry send ctx maxb attempt left delay c = (r, ds, c') \<Longrightarrow> Q r c'"
proof (induction left arbitrary: attempt delay c ds)
  case 0
  with step [of c "fst (send c)" "snd (send c)"] show ?case by (auto split: prod.splits verdict.splits if_splits)
next
  case (Suc left)
  obtain reply c1 where send: "send c = (reply, c1)" by (cases "send c")
  note v = step [OF Suc.prems(1) send]
  show ?case
  proof (cases "remote_verdict reply")
    case (Again e)
    show ?thesis
    proof (cases "fst (ctx attempt) \<or> snd (ctx attempt)")
      case False
      obtain r2 ds2 c2 where rec: "remote_retry send ctx maxb (Suc attempt) left (min (delay * 2) maxb) c1 = (r2, ds2, c2)"
        by (cases "remote_retry send ctx maxb (Suc attempt) left (min (delay * 2) maxb) c1")
      then have "remote_retry send ctx maxb (Suc attempt) left (min (delay * 2) maxb) c1 = (r, ds2, c')"
        using Suc.prems(2) send Again False by simp
      with Suc.IH [of c1] v Again show ?thesis by simp
    qed (use Suc.prems(2) send Again v in auto)
  qed (use Suc.prems(2) send v in auto)
qed

lemma retried_rule:
  assumes "\<And>c reply c'. I c \<Longrightarrow> send c = (reply, c') \<Longrightarrow>
      (case remote_verdict reply of Done w \<Rightarrow> Q (Inr w) c' | Final e \<Rightarrow> Q (Inl e) c'
       | Again e \<Rightarrow> I c' \<and> Q (Inl (CtxJoined e)) c' \<and> (\<forall>n. Q (Inl (AfterAttempts n e)) c'))"
    and "I c" and "retried cfg ctx send c = (r, c')"
  shows "Q r c'"
  using remote_retry_rule [of I send Q, OF assms(1,2)] assms(3) by (auto simp: retried_def split: prod.splits)

lemma verdict_Done: "remote_verdict reply = Done w \<longleftrightarrow> reply = Some w \<and> w_status w div 100 = 2"
  by (auto simp: remote_verdict_def split: option.splits if_splits)

lemma verdict_missing:
  "remote_verdict reply = Final e \<Longrightarrow> isNotFound e \<longleftrightarrow> missing_reply reply"
  "remote_verdict reply = Again e \<Longrightarrow> \<not> isNotFound e"
  by (auto simp: remote_verdict_def isNotFound_def missing_reply_def decodeError_def split: option.splits if_splits prod.splits)

lemma isNotFound_wrapped [simp]: "isNotFound (CtxJoined e) = isNotFound e" "isNotFound (AfterAttempts n e) = isNotFound e"
  by (simp_all add: isNotFound_def)

lemma verdict_not_ok: "remote_verdict reply = Final e \<or> remote_verdict reply = Again e \<Longrightarrow> \<not> ok_reply reply"
  by (auto simp: remote_verdict_def ok_reply_def)

lemma retried_put:
  assumes "writes_ok co" and "retried cfg ctx (co_call co (PutObject k b)) c = (r, c')"
  shows "co_objs co c' = (co_objs co c)(k \<mapsto> b) \<or> (\<exists>e. r = Inl e) \<and> co_objs co c' = co_objs co c"
proof -
  let ?m = "co_objs co c"
  have put: "co_objs co c2 = (co_objs co c1)(k \<mapsto> b) \<or> \<not> ok_reply reply \<and> co_objs co c2 = co_objs co c1"
    if "co_call co (PutObject k b) c1 = (reply, c2)" for c1 reply c2
    using assms(1) that unfolding writes_ok_def by blast
  show ?thesis
  proof (rule retried_rule [where I = "\<lambda>c'. co_objs co c' = ?m \<or> co_objs co c' = ?m(k \<mapsto> b)"
        and Q = "\<lambda>r c'. co_objs co c' = ?m(k \<mapsto> b) \<or> (\<exists>e. r = Inl e) \<and> co_objs co c' = ?m", OF _ _ assms(2)])
    fix c1 reply c2 assume "co_objs co c1 = ?m \<or> co_objs co c1 = ?m(k \<mapsto> b)" "co_call co (PutObject k b) c1 = (reply, c2)"
    with put [OF this(2)] show "case remote_verdict reply of
        Done w \<Rightarrow> co_objs co c2 = ?m(k \<mapsto> b) \<or> (\<exists>e. Inr w = Inl e) \<and> co_objs co c2 = ?m
      | Final e \<Rightarrow> co_objs co c2 = ?m(k \<mapsto> b) \<or> (\<exists>e'. Inl e = Inl e') \<and> co_objs co c2 = ?m
      | Again e \<Rightarrow> (co_objs co c2 = ?m \<or> co_objs co c2 = ?m(k \<mapsto> b)) \<and>
          (co_objs co c2 = ?m(k \<mapsto> b) \<or> (\<exists>e'. Inl (CtxJoined e) = Inl e') \<and> co_objs co c2 = ?m) \<and>
          (\<forall>n. co_objs co c2 = ?m(k \<mapsto> b) \<or> (\<exists>e'. Inl (AfterAttempts n e) = Inl e') \<and> co_objs co c2 = ?m)"
      by (auto simp: verdict_Done ok_reply_def split: verdict.splits)
  qed simp
qed

lemma retried_delete:
  assumes "writes_ok co" and "retried cfg ctx (co_call co (DeleteObject k)) c = (r, c')"
  shows "co_objs co c' = (co_objs co c)(k := None) \<or> (\<exists>e. r = Inl e \<and> \<not> isNotFound e) \<and> co_objs co c' = co_objs co c"
proof -
  let ?m = "co_objs co c"
  have del: "co_objs co c2 = (co_objs co c1)(k := None) \<or> \<not> ok_reply reply \<and> \<not> missing_reply reply \<and> co_objs co c2 = co_objs co c1"
    if "co_call co (DeleteObject k) c1 = (reply, c2)" for c1 reply c2
    using assms(1) that unfolding writes_ok_def by blast
  let ?Q = "\<lambda>r c'. co_objs co c' = ?m(k := None) \<or> (\<exists>e. r = Inl e \<and> \<not> isNotFound e) \<and> co_objs co c' = ?m"
  show ?thesis
  proof (rule retried_rule [where I = "\<lambda>c'. co_objs co c' = ?m \<or> co_objs co c' = ?m(k := None)" and Q = ?Q, OF _ _ assms(2)])
    fix c1 reply c2 assume "co_objs co c1 = ?m \<or> co_objs co c1 = ?m(k := None)" "co_call co (DeleteObject k) c1 = (reply, c2)"
    with del [OF this(2)] show "case remote_verdict reply of Done w \<Rightarrow> ?Q (Inr w) c2 | Final e \<Rightarrow> ?Q (Inl e) c2
      | Again e \<Rightarrow> (co_objs co c2 = ?m \<or> co_objs co c2 = ?m(k := None)) \<and> ?Q (Inl (CtxJoined e)) c2 \<and> (\<forall>n. ?Q (Inl (AfterAttempts n e)) c2)"
      by (auto simp: verdict_Done ok_reply_def verdict_missing split: verdict.splits)
  qed simp
qed

lemma retried_get:
  assumes "reads_ok co" and "retried cfg ctx (co_call co (GetObject k)) c = (r, c')"
  shows "co_objs co c' = co_objs co c \<and> (case r of Inl e \<Rightarrow> isNotFound e \<longrightarrow> co_objs co c k = None
    | Inr w \<Rightarrow> \<exists>b. co_objs co c k = Some b \<and> prefix (rd_bytes (w_body w)) b \<and> (rd_error (w_body w) = None \<longrightarrow> rd_bytes (w_body w) = b))"
proof -
  let ?m = "co_objs co c"
  have get: "co_objs co c2 = co_objs co c1 \<and> (missing_reply reply \<longrightarrow> co_objs co c1 k = None) \<and>
     (\<forall>w. reply = Some w \<and> w_status w div 100 = 2 \<longrightarrow> (\<exists>b. co_objs co c1 k = Some b \<and>
        prefix (rd_bytes (w_body w)) b \<and> (rd_error (w_body w) = None \<longrightarrow> rd_bytes (w_body w) = b)))"
    if "co_call co (GetObject k) c1 = (reply, c2)" for c1 reply c2
    using assms(1) that unfolding reads_ok_def by blast
  let ?Q = "\<lambda>r c'. co_objs co c' = ?m \<and> (case r of Inl e \<Rightarrow> isNotFound e \<longrightarrow> ?m k = None
    | Inr w \<Rightarrow> \<exists>b. ?m k = Some b \<and> prefix (rd_bytes (w_body w)) b \<and> (rd_error (w_body w) = None \<longrightarrow> rd_bytes (w_body w) = b))"
  show ?thesis
  proof (rule retried_rule [where I = "\<lambda>c'. co_objs co c' = ?m" and Q = ?Q, OF _ _ assms(2)])
    fix c1 reply c2 assume "co_objs co c1 = ?m" "co_call co (GetObject k) c1 = (reply, c2)"
    with get [OF this(2)] show "case remote_verdict reply of Done w \<Rightarrow> ?Q (Inr w) c2 | Final e \<Rightarrow> ?Q (Inl e) c2
      | Again e \<Rightarrow> co_objs co c2 = ?m \<and> ?Q (Inl (CtxJoined e)) c2 \<and> (\<forall>n. ?Q (Inl (AfterAttempts n e)) c2)"
      by (auto simp: verdict_Done verdict_missing split: verdict.splits)
  qed simp
qed

lemma retried_head:
  assumes "reads_ok co" and "retried cfg ctx (co_call co (HeadObject k)) c = (r, c')"
  shows "co_objs co c' = co_objs co c \<and> (case r of Inl e \<Rightarrow> isNotFound e \<longrightarrow> co_objs co c k = None | Inr w \<Rightarrow> co_objs co c k \<noteq> None)"
proof -
  let ?m = "co_objs co c"
  have head: "co_objs co c2 = co_objs co c1 \<and> (missing_reply reply \<longrightarrow> co_objs co c1 k = None) \<and> (ok_reply reply \<longrightarrow> co_objs co c1 k \<noteq> None)"
    if "co_call co (HeadObject k) c1 = (reply, c2)" for c1 reply c2
    using assms(1) that unfolding reads_ok_def by blast
  let ?Q = "\<lambda>r c'. co_objs co c' = ?m \<and> (case r of Inl e \<Rightarrow> isNotFound e \<longrightarrow> ?m k = None | Inr w \<Rightarrow> ?m k \<noteq> None)"
  show ?thesis
  proof (rule retried_rule [where I = "\<lambda>c'. co_objs co c' = ?m" and Q = ?Q, OF _ _ assms(2)])
    fix c1 reply c2 assume "co_objs co c1 = ?m" "co_call co (HeadObject k) c1 = (reply, c2)"
    with head [OF this(2)] show "case remote_verdict reply of Done w \<Rightarrow> ?Q (Inr w) c2 | Final e \<Rightarrow> ?Q (Inl e) c2
      | Again e \<Rightarrow> co_objs co c2 = ?m \<and> ?Q (Inl (CtxJoined e)) c2 \<and> (\<forall>n. ?Q (Inl (AfterAttempts n e)) c2)"
      by (auto simp: verdict_Done ok_reply_def verdict_missing split: verdict.splits)
  qed simp
qed

lemma retried_list:
  assumes "lists_ok co" and "retried cfg ctx (co_call co (ListObjects pre start)) c = (r, c')"
  shows "co_objs co c' = co_objs co c \<and> (\<forall>w page. r = Inr w \<and> w_page w = Some page \<longrightarrow> page_ok (listed_keys co c pre start) page)"
proof -
  let ?same = "\<lambda>c'. co_objs co c' = co_objs co c" and ?S = "listed_keys co c pre start"
  have list: "?same c2 \<and> (\<forall>w page. reply = Some w \<and> w_page w = Some page \<longrightarrow> page_ok ?S page)"
    if "co_call co (ListObjects pre start) c1 = (reply, c2)" "?same c1" for c1 reply c2
  proof -
    have "listed_keys co c1 pre start = ?S" using that(2) by (simp add: listed_keys_def)
    with assms(1) [unfolded lists_ok_def, rule_format, OF that(1)] that(2) show ?thesis by auto
  qed
  let ?Q = "\<lambda>r c'. ?same c' \<and> (\<forall>w page. r = Inr w \<and> w_page w = Some page \<longrightarrow> page_ok ?S page)"
  show ?thesis
  proof (rule retried_rule [where I = ?same and Q = ?Q, OF _ _ assms(2)])
    fix c1 reply c2 assume "?same c1" "co_call co (ListObjects pre start) c1 = (reply, c2)"
    with list [OF this(2,1)] show "case remote_verdict reply of Done w \<Rightarrow> ?Q (Inr w) c2 | Final e \<Rightarrow> ?Q (Inl e) c2
      | Again e \<Rightarrow> ?same c2 \<and> ?Q (Inl (CtxJoined e)) c2 \<and> (\<forall>n. ?Q (Inl (AfterAttempts n e)) c2)"
      by (auto simp: verdict_Done split: verdict.splits)
  qed simp
qed


section \<open>The contract of a store behind a network\<close>

text \<open>
  What the server may rely on from either backend: a \<open>Put\<close> stores the whole object or nothing and touches
  no other key; a failed one may still have stored it. Reads change nothing.
\<close>

locale atomic_store =
  fixes ok :: "'s \<Rightarrow> bool" and view :: "'s \<Rightarrow> string \<rightharpoonup> char list" and missing :: 'e
    and put :: "string \<Rightarrow> reader \<Rightarrow> int \<Rightarrow> 's \<Rightarrow> ('e + unit) \<times> 's"
    and get :: "string \<Rightarrow> 's \<Rightarrow> ('e + reader) \<times> 's"
    and delete :: "string \<Rightarrow> 's \<Rightarrow> ('e + unit) \<times> 's"
  assumes keeps_ok: "ok s \<Longrightarrow> ok (snd (put k r n s)) \<and> ok (snd (get k s)) \<and> ok (snd (delete k s))"
    and put_view: "ok s \<Longrightarrow> put k r n s = (res, s') \<Longrightarrow> view s' = (view s)(k \<mapsto> rd_bytes r) \<or> (\<exists>e. res = Inl e) \<and> view s' = view s"
    and get_view: "ok s \<Longrightarrow> get k s = (got, s') \<Longrightarrow> view s' = view s"
    and get_bytes: "ok s \<Longrightarrow> get k s = (Inr rd, s') \<Longrightarrow> rd_error rd = None \<Longrightarrow> view s k = Some (rd_bytes rd)"
    and get_some: "ok s \<Longrightarrow> get k s = (Inr rd, s') \<Longrightarrow> view s k \<noteq> None"
    and get_missing: "ok s \<Longrightarrow> get k s = (Inl missing, s') \<Longrightarrow> view s k = None"
    and delete_view: "ok s \<Longrightarrow> delete k s = (res, s') \<Longrightarrow> view s' = (view s)(k := None) \<or> (\<exists>e. res = Inl e) \<and> view s' = view s"
begin

lemma put_other: "ok s \<Longrightarrow> put k r n s = (res, s') \<Longrightarrow> k' \<noteq> k \<Longrightarrow> view s' k' = view s k'"
  using put_view [of s k r n res s'] by auto

lemma never_torn: "ok s \<Longrightarrow> put k r n s = (res, s') \<Longrightarrow> view s' k = view s k \<or> view s' k = Some (rd_bytes r)"
  using put_view [of s k r n res s'] by auto

lemma read_back:
  assumes "ok s" and "put k r n s = (Inr (), s1)" and "get k s1 = (Inr rd, s2)" and "rd_error rd = None"
  shows "rd_bytes rd = rd_bytes r"
proof -
  have "ok s1" using keeps_ok [of s k r n] assms(1,2) by simp
  then show ?thesis using get_bytes [OF _ assms(3,4)] put_view [OF assms(1,2)] by simp
qed

lemma read_deleted:
  assumes "ok s" and "delete k s = (Inr (), s1)"
  shows "get k s1 \<noteq> (Inr rd, s2)"
proof
  assume get: "get k s1 = (Inr rd, s2)"
  have "ok s1" using keeps_ok [of s k] assms by simp
  then show False using get_some [OF _ get] delete_view [OF assms] by simp
qed

end

sublocale blob_store \<subseteq> weak: atomic_store ok "objects get" ArtNotFound put
  "\<lambda>k s. (map_sum id (\<lambda>b. \<lparr>rd_bytes = b, rd_error = None\<rparr>) (get k s), s)" delete
proof unfold_locales
  fix s k r n res s' rd
  assume ok: "ok s"
  then show "ok (snd (put k r n s)) \<and> ok (snd (map_sum id (\<lambda>b. \<lparr>rd_bytes = b, rd_error = None\<rparr>) (get k s), s)) \<and> ok (snd (delete k s))"
    using put_ok delete_ok by simp
  show "put k r n s = (res, s') \<Longrightarrow> objects get s' = (objects get s)(k \<mapsto> rd_bytes r) \<or> (\<exists>e. res = Inl e) \<and> objects get s' = objects get s"
    using put_objects [OF ok, of k r n res s'] by (cases res) simp_all
  show "delete k s = (res, s') \<Longrightarrow> objects get s' = (objects get s)(k := None) \<or> (\<exists>e. res = Inl e) \<and> objects get s' = objects get s"
    using delete_objects [OF ok, of k res s'] by (cases res) simp_all
qed (auto simp: objects_def map_sum_def split: sum.splits)


section \<open>The remote store meets it\<close>

lemma take_more: "length d < length xs \<Longrightarrow> take (nat (int (length d) + 1)) xs \<noteq> d"
proof
  assume "length d < length xs" and "take (nat (int (length d) + 1)) xs = d"
  then have "length (take (nat (int (length d) + 1)) xs) = length d" by simp
  with \<open>length d < length xs\<close> show False by simp
qed

lemma copied_whole:
  assumes "copied r sz = Inr data" and "\<not> (0 \<le> sz \<and> int (length data) \<noteq> sz)"
  shows "data = rd_bytes r" and "rd_error r = None" and "0 \<le> sz \<Longrightarrow> int (length (rd_bytes r)) = sz"
  using assms take_more [of data "rd_bytes r"] by (auto simp: copied_def split: if_splits option.splits)

lemma remote_Put_effect:
  assumes "writes_ok co" and "remote_Put cfg ctx spool co k r n c = (res, c')"
  shows "co_objs co c' = (co_objs co c)(k \<mapsto> rd_bytes r) \<and> ValidateKey k = None \<and> rd_error r = None \<and> (0 \<le> n \<longrightarrow> int (length (rd_bytes r)) = n)
    \<or> (\<exists>e. res = Inl e) \<and> co_objs co c' = co_objs co c"
proof (cases "ValidateKey k = None \<and> spool \<and> (\<exists>data. copied r n = Inr data \<and> \<not> (0 \<le> n \<and> int (length data) \<noteq> n))")
  case True
  then obtain data where data: "ValidateKey k = None" "spool" "copied r n = Inr data" "\<not> (0 \<le> n \<and> int (length data) \<noteq> n)" by blast
  obtain x c1 where send: "retried cfg ctx (co_call co (PutObject k data)) c = (x, c1)" by fastforce
  have run: "c' = c1" "(\<exists>e. x = Inl e) \<Longrightarrow> \<exists>e. res = Inl e" using assms(2) data send by (auto simp: remote_Put_def split: sum.splits)
  from retried_put [OF assms(1) send] copied_whole [OF data(3,4)] data(1) run show ?thesis by auto
next
  case False
  then show ?thesis using assms(2) by (auto simp: remote_Put_def split: option.splits sum.splits if_splits)
qed

lemma remote_Get_effect:
  assumes "reads_ok co" and "remote_Get cfg ctx co k c = (res, c')"
  shows "co_objs co c' = co_objs co c \<and> (case res of
      Inr rd \<Rightarrow> \<exists>b. co_objs co c k = Some b \<and> prefix (rd_bytes rd) b \<and> (rd_error rd = None \<longrightarrow> rd_bytes rd = b)
    | Inl e \<Rightarrow> e = NotFound \<longrightarrow> co_objs co c k = None)"
proof (cases "ValidateKey k")
  case None
  obtain x c1 where send: "retried cfg ctx (co_call co (GetObject k)) c = (x, c1)" by fastforce
  from retried_get [OF assms(1) send] assms(2) None send show ?thesis by (auto simp: remote_Get_def split: sum.splits)
qed (use assms(2) in \<open>auto simp: remote_Get_def\<close>)

lemma remote_Delete_effect:
  assumes "writes_ok co" and "reads_ok co" and "remote_Delete cfg ctx1 ctx2 co k c = (res, c')"
  shows "co_objs co c' = (co_objs co c)(k := None) \<and> (res = Inr () \<longrightarrow> co_objs co c k \<noteq> None) \<or>
    (\<exists>e. res = Inl e \<and> (e = NotFound \<longrightarrow> co_objs co c k = None)) \<and> co_objs co c' = co_objs co c"
proof (cases "ValidateKey k")
  case None
  obtain x c1 where head: "retried cfg ctx1 (co_call co (HeadObject k)) c = (x, c1)" by fastforce
  note h = retried_head [OF assms(2) head]
  show ?thesis
  proof (cases x)
    case (Inl e)
    with assms(3) None head h show ?thesis by (auto simp: remote_Delete_def)
  next
    case (Inr w)
    obtain y c2 where del: "retried cfg ctx2 (co_call co (DeleteObject k)) c1 = (y, c2)" by fastforce
    have run: "c' = c2" "\<And>e. y = Inl e \<Longrightarrow> res = Inl (if isNotFound e then NotFound else Request e)"
      using assms(3) None head Inr del by (auto simp: remote_Delete_def split: sum.splits)
    from retried_delete [OF assms(1) del] h Inr run show ?thesis by auto
  qed
qed (use assms(3) in \<open>auto simp: remote_Delete_def\<close>)

interpretation remote_store: atomic_store "\<lambda>(co, c). writes_ok co \<and> reads_ok co" "\<lambda>(co, c). co_objs co c" NotFound
  "\<lambda>k r n (co, c). apsnd (Pair co) (remote_Put cfg ctx spool co k r n c)"
  "\<lambda>k (co, c). apsnd (Pair co) (remote_Get cfg ctx' co k c)"
  "\<lambda>k (co, c). apsnd (Pair co) (remote_Delete cfg ctx1 ctx2 co k c)"
proof (unfold_locales, goal_cases)
  case (1 s k r n)
  then show ?case by (cases s) simp
next
  case (2 s k r n res s')
  obtain co c where s: "s = (co, c)" by (cases s)
  obtain x c1 where op: "remote_Put cfg ctx spool co k r n c = (x, c1)" by fastforce
  show ?case using remote_Put_effect [OF _ op] 2 s op by auto
next
  case (3 s k got s')
  obtain co c where s: "s = (co, c)" by (cases s)
  obtain x c1 where op: "remote_Get cfg ctx' co k c = (x, c1)" by fastforce
  show ?case using remote_Get_effect [OF _ op] 3 s op by auto
next
  case (4 s k rd s')
  obtain co c where s: "s = (co, c)" by (cases s)
  obtain x c1 where op: "remote_Get cfg ctx' co k c = (x, c1)" by fastforce
  show ?case using remote_Get_effect [OF _ op] 4 s op by auto
next
  case (5 s k rd s')
  obtain co c where s: "s = (co, c)" by (cases s)
  obtain x c1 where op: "remote_Get cfg ctx' co k c = (x, c1)" by fastforce
  show ?case using remote_Get_effect [OF _ op] 5 s op by auto
next
  case (6 s k s')
  obtain co c where s: "s = (co, c)" by (cases s)
  obtain x c1 where op: "remote_Get cfg ctx' co k c = (x, c1)" by fastforce
  show ?case using remote_Get_effect [OF _ op] 6 s op by auto
next
  case (7 s k res s')
  obtain co c where s: "s = (co, c)" by (cases s)
  obtain x c1 where op: "remote_Delete cfg ctx1 ctx2 co k c = (x, c1)" by fastforce
  show ?case using remote_Delete_effect [OF _ _ op] 7 s op by auto
qed


section \<open>Listing\<close>

lemma listed_keys_after:
  assumes "page_ok (listed_keys co c pre start) page" and "lp_truncated page" and "co_objs co c' = co_objs co c"
  shows "listed_keys co c' pre (lp_next page) = listed_keys co c pre start - set (lp_keys page)" and "lp_next page \<in> listed_keys co c pre start"
proof -
  note ok = assms(1,2) [unfolded page_ok_def]
  have nxt: "lp_next page \<in> set (lp_keys page)" using ok by auto
  then show "lp_next page \<in> listed_keys co c pre start" using ok by auto
  then have "start < lp_next page" by (simp add: listed_keys_def)
  moreover have le: "\<not> lp_next page < k" if "k \<in> set (lp_keys page)" for k
    using that ok by (auto simp: in_set_conv_nth last_conv_nth sorted_iff_nth_mono not_less)
  ultimately show "listed_keys co c' pre (lp_next page) = listed_keys co c pre start - set (lp_keys page)"
    using ok assms(3) by (auto simp: listed_keys_def not_less [symmetric])
qed

lemma list_loop_complete:
  assumes "lists_ok co" and "finite (dom (co_objs co c0))"
  shows "co_objs co c = co_objs co c0 \<Longrightarrow> distinct keys \<Longrightarrow>
    set keys = listed_keys co c0 pre [] - listed_keys co c0 pre start \<Longrightarrow>
    \<exists>res c'. list_loop cfg ctxs co pre n start keys c = Some (res, c') \<and> co_objs co c' = co_objs co c0 \<and>
      (case res of Inr ks \<Rightarrow> ks = sorted_list_of_set (listed_keys co c0 pre []) | Inl e \<Rightarrow> e = BadListing \<or> (\<exists>x. e = Request x))"
proof (induction "card (listed_keys co c0 pre start)" arbitrary: n start keys c rule: less_induct)
  case less
  let ?S = "listed_keys co c0 pre start" and ?all = "listed_keys co c0 pre []"
  have fin: "finite (listed_keys co c0 pre s)" for s using assms(2) by (simp add: listed_keys_def)
  have S: "listed_keys co c pre start = ?S" using less.prems(1) by (simp add: listed_keys_def)
  have sub: "?S \<subseteq> ?all" by (auto simp: listed_keys_def intro: le_less_trans)
  obtain x c1 where call: "retried cfg (ctxs n) (co_call co (ListObjects pre start)) c = (x, c1)" by fastforce
  note r = retried_list [OF assms(1) call, unfolded S]
  show ?case
  proof (cases "\<exists>w page. x = Inr w \<and> w_page w = Some page")
    case False
    with call r less.prems(1) show ?thesis
      by (subst list_loop.simps) (auto simp: remote_listPage_def split: sum.splits option.splits)
  next
    case True
    then obtain w page where x: "x = Inr w" "w_page w = Some page" by blast
    then have page: "page_ok ?S page" using r by blast
    have pre: "filter (prefix pre) (lp_keys page) = lp_keys page"
      using page by (auto simp: page_ok_def listed_keys_def intro!: filter_True)
    let ?keys = "keys @ lp_keys page"
    have dist: "distinct ?keys" using less.prems(2,3) page by (auto simp: page_ok_def)
    have loop: "list_loop cfg ctxs co pre n start keys c =
        (if \<not> lp_truncated page \<or> lp_next page = [] then Some (Inr (sort ?keys), c1) else list_loop cfg ctxs co pre (Suc n) (lp_next page) ?keys c1)"
      using call x pre by (subst list_loop.simps) (simp add: remote_listPage_def Let_def)
    have c1: "co_objs co c1 = co_objs co c0" using r less.prems(1) by simp
    show ?thesis
    proof (cases "lp_truncated page")
      case False
      then have "set ?keys = ?all" using page less.prems(3) sub by (auto simp: page_ok_def)
      then have "sort ?keys = sorted_list_of_set ?all"
        using dist by (metis distinct_remdups_id sorted_list_of_set_sort_remdups)
      with loop False c1 show ?thesis by simp
    next
      case trunc: True
      note after = listed_keys_after [of co c0 pre start page c0, OF page trunc refl]
      have "lp_next page \<noteq> []" using after(2) by (auto simp: listed_keys_def)
      moreover have "card (listed_keys co c0 pre (lp_next page)) < card ?S"
        using after fin page trunc unfolding after(1) by (intro psubset_card_mono) (auto simp: page_ok_def)
      moreover have "set ?keys = ?all - listed_keys co c0 pre (lp_next page)"
        unfolding after(1) using less.prems(3) page sub by (auto simp: page_ok_def)
      ultimately show ?thesis using less.hyps [OF _ c1 dist] loop trunc by simp
    qed
  qed
qed

text \<open>
  C36. Listings end and are complete. Against a coordinator that pages as it promises, \<open>List\<close> always returns,
  however many pages there are; when it returns keys, they are all the keys with the prefix, each once
  and sorted; and it changes nothing.
\<close>

theorem remote_List_complete:
  assumes "lists_ok co" and "finite (dom (co_objs co c))"
  shows "\<exists>res c'. remote_List cfg ctxs co pre c = Some (res, c') \<and> co_objs co c' = co_objs co c \<and>
    (case res of Inr ks \<Rightarrow> ks = sorted_list_of_set {k \<in> dom (co_objs co c). prefix pre k \<and> k \<noteq> []}
     | Inl e \<Rightarrow> (e = BadPrefix \<longleftrightarrow> CHR 0x5C \<in> set pre \<or> contains_dots pre) \<and> (\<exists>x. e \<in> {BadPrefix, BadListing, Request x}))"
proof -
  have "[] < k \<longleftrightarrow> k \<noteq> []" for k :: string by (cases k) auto
  then have all: "listed_keys co c pre [] = {k \<in> dom (co_objs co c). prefix pre k \<and> k \<noteq> []}"
    by (auto simp: listed_keys_def)
  show ?thesis
  proof (cases "CHR 0x5C \<in> set pre \<or> contains_dots pre")
    case True
    then show ?thesis by (intro exI [of _ "Inl BadPrefix"] exI [of _ c]) (simp add: remote_List_def)
  next
    case False
    from list_loop_complete [OF assms, of c "[]" pre "[]" cfg ctxs 0] obtain res c' where
      run: "list_loop cfg ctxs co pre 0 [] [] c = Some (res, c')" "co_objs co c' = co_objs co c"
      "case res of Inr ks \<Rightarrow> ks = sorted_list_of_set (listed_keys co c pre []) | Inl e \<Rightarrow> e = BadListing \<or> (\<exists>x. e = Request x)"
      by auto
    with False show ?thesis unfolding all
      by (intro exI [of _ res] exI [of _ c']) (auto simp: remote_List_def split: sum.splits)
  qed
qed


section \<open>Properties of the operations\<close>

text \<open>
  C35. The remote store is an atomic map. Whatever requests and answers are lost and however often they are
  repeated, a \<open>Put\<close> that succeeds has stored exactly the bytes of its reader under its key, and one
  that fails has stored them or nothing; a reader that failed or had another size than announced stores
  nothing. A \<open>Delete\<close> that succeeds removed the object; \<open>Get\<close> changes nothing, and a body
  read to its end is the object. No operation touches another key.
\<close>

theorem remote_store_atomic:
  assumes "writes_ok co" and "reads_ok co" and "remote_Put cfg ctx spool co k r n c = (res, c1)"
    and "remote_Delete cfg ctx1 ctx2 co k c = (res', c2)" and "remote_Get cfg ctx3 co k c = (got, c3)"
  shows "(case res of
      Inr _ \<Rightarrow> co_objs co c1 = (co_objs co c)(k \<mapsto> rd_bytes r) \<and> rd_error r = None \<and> (0 \<le> n \<longrightarrow> int (length (rd_bytes r)) = n)
    | Inl _ \<Rightarrow> co_objs co c1 = co_objs co c \<or>
        co_objs co c1 = (co_objs co c)(k \<mapsto> rd_bytes r) \<and> rd_error r = None \<and> (0 \<le> n \<longrightarrow> int (length (rd_bytes r)) = n)) \<and>
    (case res' of
      Inr _ \<Rightarrow> co_objs co c2 = (co_objs co c)(k := None) \<and> co_objs co c k \<noteq> None
    | Inl e \<Rightarrow> (co_objs co c2 = co_objs co c \<or> co_objs co c2 = (co_objs co c)(k := None)) \<and> (e = NotFound \<longrightarrow> co_objs co c2 k = None)) \<and>
    co_objs co c3 = co_objs co c \<and>
    (case got of
      Inr rd \<Rightarrow> \<exists>b. co_objs co c k = Some b \<and> prefix (rd_bytes rd) b \<and> (rd_error rd = None \<longrightarrow> rd_bytes rd = b)
    | Inl e \<Rightarrow> e = NotFound \<longrightarrow> co_objs co c k = None)"
proof (intro conjI)
  show "case res of
      Inr _ \<Rightarrow> co_objs co c1 = (co_objs co c)(k \<mapsto> rd_bytes r) \<and> rd_error r = None \<and> (0 \<le> n \<longrightarrow> int (length (rd_bytes r)) = n)
    | Inl _ \<Rightarrow> co_objs co c1 = co_objs co c \<or>
        co_objs co c1 = (co_objs co c)(k \<mapsto> rd_bytes r) \<and> rd_error r = None \<and> (0 \<le> n \<longrightarrow> int (length (rd_bytes r)) = n)"
    using remote_Put_effect [OF assms(1,3)] by (cases res) auto
  show "case res' of
      Inr _ \<Rightarrow> co_objs co c2 = (co_objs co c)(k := None) \<and> co_objs co c k \<noteq> None
    | Inl e \<Rightarrow> (co_objs co c2 = co_objs co c \<or> co_objs co c2 = (co_objs co c)(k := None)) \<and> (e = NotFound \<longrightarrow> co_objs co c2 k = None)"
    using remote_Delete_effect [OF assms(1,2,4)] by (cases res') auto
qed (use remote_Get_effect [OF assms(2,5)] in simp_all)

lemma double_cap:
  fixes b maxb :: int
  assumes "0 < b" and "b \<le> maxb"
  shows "min (2 ^ i * min (b * 2) maxb) maxb = min (2 ^ Suc i * b) maxb"
proof (cases "b * 2 \<le> maxb")
  case False
  have "1 * maxb \<le> 2 ^ i * maxb" using assms by (intro mult_right_mono) simp_all
  moreover have "1 * (b * 2) \<le> 2 ^ i * (b * 2)" using assms by (intro mult_right_mono) simp_all
  moreover have "2 ^ Suc i * b = 2 ^ i * (b * 2)" by simp
  ultimately have "maxb \<le> 2 ^ i * maxb" "maxb \<le> 2 ^ Suc i * b" using False by linarith+
  then show ?thesis using False by (simp add: min_def)
qed (simp add: mult_ac)

lemma remote_retry_tries:
  assumes "remote_retry send ctx maxb a left b c = (r, ds, c')" and "0 < b" and "b \<le> maxb"
  shows "length ds \<le> left \<and> ds = map (\<lambda>i. min (2 ^ i * b) maxb) [0..<length ds] \<and>
    (let state = \<lambda>i. ((\<lambda>c. snd (send c)) ^^ i) c in c' = state (Suc (length ds)) \<and>
      (\<forall>i < length ds. \<exists>e. remote_verdict (fst (send (state i))) = Again e) \<and>
      (case remote_verdict (fst (send (state (length ds)))) of
         Done w \<Rightarrow> r = Inr w | Final e \<Rightarrow> r = Inl e
       | Again e \<Rightarrow> r = Inl (CtxJoined e) \<or> r = Inl (AfterAttempts (a + length ds) e) \<and> length ds = left))"
  using assms
proof (induction left arbitrary: a b c r ds)
  case 0
  then show ?case by (auto split: prod.splits verdict.splits if_splits)
next
  case (Suc left)
  obtain reply c1 where send: "send c = (reply, c1)" by (cases "send c")
  show ?case
  proof (cases "\<exists>e. remote_verdict reply = Again e \<and> \<not> (fst (ctx a) \<or> snd (ctx a))")
    case False
    with Suc.prems(1) send show ?thesis by (auto split: verdict.splits)
  next
    case True
    then obtain e where e: "remote_verdict reply = Again e" "\<not> (fst (ctx a) \<or> snd (ctx a))" by blast
    let ?b = "min (b * 2) maxb"
    obtain r2 ds2 c2 where rec: "remote_retry send ctx maxb (Suc a) left ?b c1 = (r2, ds2, c2)"
      by (cases "remote_retry send ctx maxb (Suc a) left ?b c1")
    with Suc.prems(1) send e have eq: "r = r2" "ds = b # ds2" "c' = c2" by simp_all
    then have "remote_retry send ctx maxb (Suc a) left ?b c1 = (r, ds2, c')" using rec by simp
    from Suc.IH [OF this] Suc.prems(2,3)
    have IH: "length ds2 \<le> left" "ds2 = map (\<lambda>i. min (2 ^ i * ?b) maxb) [0..<length ds2]"
      "c' = ((\<lambda>c. snd (send c)) ^^ Suc (length ds2)) c1"
      "\<forall>i < length ds2. \<exists>e. remote_verdict (fst (send (((\<lambda>c. snd (send c)) ^^ i) c1))) = Again e"
      "case remote_verdict (fst (send (((\<lambda>c. snd (send c)) ^^ length ds2) c1))) of
         Done w \<Rightarrow> r = Inr w | Final e \<Rightarrow> r = Inl e
       | Again e \<Rightarrow> r = Inl (CtxJoined e) \<or> r = Inl (AfterAttempts (Suc a + length ds2) e) \<and> length ds2 = left"
      by (simp_all add: Let_def)
    have state: "((\<lambda>c. snd (send c)) ^^ Suc i) c = ((\<lambda>c. snd (send c)) ^^ i) c1" for i 
      unfolding funpow_Suc_right comp_def send by simp
    have cap: "min (2 ^ i * ?b) maxb = min (2 ^ Suc i * b) maxb" for i
      using Suc.prems(2,3) by (intro double_cap)
    have len: "length ds = Suc (length ds2)" using eq(2) by simp
    then have "length ds \<le> Suc left" using IH(1) by simp
    moreover have "ds = map (\<lambda>i. min (2 ^ i * b) maxb) [0..<length ds]"
      using IH(2) Suc.prems(3) unfolding eq(2) cap by (simp add: map_upt_Suc del: upt_Suc)
    moreover have "\<forall>i < length ds. \<exists>e. remote_verdict (fst (send (((\<lambda>c. snd (send c)) ^^ i) c))) = Again e"
      using IH(4) e(1) send state unfolding len by (auto simp: less_Suc_eq_0_disj simp del: funpow.simps)
    moreover have "c' = ((\<lambda>c. snd (send c)) ^^ Suc (length ds)) c" unfolding len state by (rule IH(3))
    moreover have "case remote_verdict (fst (send (((\<lambda>c. snd (send c)) ^^ length ds) c))) of
         Done w \<Rightarrow> r = Inr w | Final e \<Rightarrow> r = Inl e
       | Again e \<Rightarrow> r = Inl (CtxJoined e) \<or> r = Inl (AfterAttempts (a + length ds) e) \<and> length ds = Suc left"
      unfolding len state using IH(5) by (simp split: verdict.splits)
    ultimately show ?thesis unfolding Let_def by blast
  qed
qed

text \<open>
  Requests are repeated a bounded number of times. A request is tried at most the configured number of times;
  the waits double from the first up to the cap; only an answer that asks for it (none at all, or a 5xx)
  is followed by another try, so a final answer is never repeated; and the result is the one of the last try.
\<close>

theorem remote_retries_bounded:
  assumes "remote_retry send ctx (rc_max_backoff cfg) 1 (nat (rc_attempts cfg - 1)) (rc_backoff cfg) c = (r, ds, c')"
    and "cfg = withDefaults cfg0" and "rc_backoff cfg \<le> rc_max_backoff cfg"
  shows "int (length ds) < rc_attempts cfg \<and> ds = map (\<lambda>i. min (2 ^ i * rc_backoff cfg) (rc_max_backoff cfg)) [0..<length ds] \<and>
    (let state = \<lambda>i. ((\<lambda>c. snd (send c)) ^^ i) c in c' = state (Suc (length ds)) \<and>
      (\<forall>i < length ds. \<exists>e. remote_verdict (fst (send (state i))) = Again e) \<and>
      (case remote_verdict (fst (send (state (length ds)))) of
         Done w \<Rightarrow> r = Inr w | Final e \<Rightarrow> r = Inl e
       | Again e \<Rightarrow> r = Inl (CtxJoined e) \<or> r = Inl (AfterAttempts (nat (rc_attempts cfg)) e) \<and> int (length ds) = rc_attempts cfg - 1))"
proof -
  have pos: "0 < rc_backoff cfg" "0 < rc_attempts cfg"
    by (simp_all add: assms(2) withDefaults_def positive_or_def defaultBackoff_def defaultAttempts_def)
  have last: "1 + length ds = nat (rc_attempts cfg)" if "length ds = nat (rc_attempts cfg - 1)" using that pos(2) by simp
  from remote_retry_tries [OF assms(1) pos(1) assms(3)] pos(2) last show ?thesis by (auto simp: Let_def split: verdict.splits)
qed


section \<open>A concrete coordinator\<close>

text \<open>
  Objects in a list, one key to a page, and a list that says which of the next answers are lost on
  their way.
\<close>

definition demo_reply :: "nat \<Rightarrow> wire" where
  "demo_reply s = \<lparr>w_status = s, w_body = \<lparr>rd_bytes = [], rd_error = None\<rparr>, w_error = None, w_page = None\<rparr>"

definition demo_page :: "string \<Rightarrow> string \<Rightarrow> (string \<times> char list) list \<Rightarrow> listPage" where
  "demo_page pre start m =
     (let ks = sort (remdups (filter (\<lambda>k. prefix pre k \<and> start < k) (map fst m)))
      in \<lparr>lp_keys = take 1 ks, lp_truncated = (1 < length ks), lp_next = (if 1 < length ks then hd ks else [])\<rparr>)"

fun demo_serve :: "request \<Rightarrow> (string \<times> char list) list \<Rightarrow> wire \<times> (string \<times> char list) list" where
  "demo_serve PutBucket m = (demo_reply 409, m)"
| "demo_serve (PutObject k b) m = (demo_reply 201, AList.update k b m)"
| "demo_serve (GetObject k) m = (case map_of m k of None \<Rightarrow> (demo_reply 404, m)
     | Some b \<Rightarrow> ((demo_reply 200)\<lparr>w_body := \<lparr>rd_bytes = b, rd_error = None\<rparr>\<rparr>, m))"
| "demo_serve (HeadObject k) m = (case map_of m k of None \<Rightarrow> (demo_reply 404, m) | Some _ \<Rightarrow> (demo_reply 200, m))"
| "demo_serve (DeleteObject k) m = (demo_reply 204, AList.delete k m)"
| "demo_serve (ListObjects pre start) m = ((demo_reply 200)\<lparr>w_page := Some (demo_page pre start m)\<rparr>, m)"

fun demo_call :: "request \<Rightarrow> (string \<times> char list) list \<times> bool list \<Rightarrow> wire option \<times> (string \<times> char list) list \<times> bool list" where
  "demo_call req (m, lost) = (case demo_serve req m of (w, m') \<Rightarrow> (if lost \<noteq> [] \<and> hd lost then None else Some w, m', tl lost))"

definition demo_co :: "((string \<times> char list) list \<times> bool list) coordinator" where
  "demo_co = \<lparr>co_call = demo_call, co_objs = map_of \<circ> fst\<rparr>"

lemma demo_writes: "writes_ok demo_co"
  by (auto simp: writes_ok_def demo_co_def ok_reply_def missing_reply_def update_conv' delete_conv')

lemma demo_reads: "reads_ok demo_co"
  by (auto simp: reads_ok_def demo_co_def ok_reply_def missing_reply_def demo_reply_def split: option.splits if_splits)

lemma demo_lists: "lists_ok demo_co"
proof -
  have "page_ok {k \<in> fst ` set m. prefix pre k \<and> start < k} (demo_page pre start m)" for pre start :: string and m :: "(string \<times> char list) list"
  proof -
    define ks where "ks = sort (remdups (filter (\<lambda>k. prefix pre k \<and> start < k) (map fst m)))"
    have ks: "sorted ks" "distinct ks" "set ks = {k \<in> fst ` set m. prefix pre k \<and> start < k}" by (auto simp: ks_def)
    have "page_ok (set ks) \<lparr>lp_keys = take 1 ks, lp_truncated = (1 < length ks), lp_next = (if 1 < length ks then hd ks else [])\<rparr>"
      using ks(1,2) by (cases ks) (auto simp: page_ok_def)
    then show ?thesis by (simp add: demo_page_def ks_def [symmetric] ks(3))
  qed
  then show ?thesis by (auto simp: lists_ok_def demo_co_def listed_keys_def dom_map_of_conv_image_fst split: if_splits)
qed

definition demo_remote :: remote_config where
  "demo_remote = withDefaults \<lparr>rc_base = ''http://s'', rc_bucket = [], rc_token = [], rc_spool = [], rc_request_timeout = 0,
     rc_transfer_timeout = 0, rc_attempts = 2, rc_backoff = 0, rc_max_backoff = 0\<rparr>"

abbreviation no_end :: ctx where
  "no_end \<equiv> \<lambda>_. (False, False)"

text \<open>Two lost answers in a row make \<open>Put\<close> fail although the object is stored; one does not.\<close>

theorem remote_store_atomic_witness:
  "fst (remote_Put demo_remote no_end True demo_co ''a'' \<lparr>rd_bytes = ''new'', rd_error = None\<rparr> 3 ([(''a'', ''old'')], [True])) = Inr () \<and>
   co_objs demo_co (snd (remote_Put demo_remote no_end True demo_co ''a'' \<lparr>rd_bytes = ''new'', rd_error = None\<rparr> 3 ([(''a'', ''old'')], [True])))
     = [''a'' \<mapsto> ''new'']"
proof -
  let ?s = "([(''a'', ''old'')], [True])" let ?put = "remote_Put demo_remote no_end True demo_co ''a'' \<lparr>rd_bytes = ''new'', rd_error = None\<rparr> 3 ?s"
  have stored: "fst ?put = Inr ()" by code_simp
  from remote_store_atomic [OF demo_writes demo_reads surjective_pairing [of ?put] surjective_pairing surjective_pairing]
  show ?thesis using stored by (simp add: demo_co_def)
qed

theorem remote_List_complete_witness:
  "\<exists>res c'. remote_List demo_remote (\<lambda>_. no_end) demo_co ''a'' ([(''b'', []), (''ab'', []), (''aa'', [])], []) = Some (res, c') \<and>
     co_objs demo_co c' ''b'' = Some []"
proof -
  have "finite (dom (co_objs demo_co ([(''b'', []), (''ab'', []), (''aa'', [])], [])))" by (simp add: demo_co_def)
  from remote_List_complete [OF demo_lists this, of demo_remote "\<lambda>_. no_end" "''a''"] show ?thesis by (auto simp: demo_co_def)
qed

theorem remote_retries_bounded_witness:
  "\<exists>r c'. remote_retry (demo_call (GetObject ''x'')) no_end (rc_max_backoff demo_remote) 1 (nat (rc_attempts demo_remote - 1))
     (rc_backoff demo_remote) ([], [True, True, True]) = (r, [rc_backoff demo_remote], c') \<and> c' = ([], [True])"
proof -
  let ?run = "remote_retry (demo_call (GetObject ''x'')) no_end (rc_max_backoff demo_remote) 1 (nat (rc_attempts demo_remote - 1))
     (rc_backoff demo_remote) ([], [True, True, True])"
  have ds: "length (fst (snd ?run)) = 1" by code_simp
  have le: "rc_backoff demo_remote \<le> rc_max_backoff demo_remote" by code_simp
  have run: "?run = (fst ?run, fst (snd ?run), snd (snd ?run))" by simp
  from remote_retries_bounded [OF run demo_remote_def le]
  have eq: "fst (snd ?run) = map (\<lambda>i. min (2 ^ i * rc_backoff demo_remote) (rc_max_backoff demo_remote)) [0..<length (fst (snd ?run))]"
    "snd (snd ?run) = ((\<lambda>c. snd (demo_call (GetObject ''x'') c)) ^^ Suc (length (fst (snd ?run)))) ([], [True, True, True])"
    by (simp_all only: Let_def)
  have "fst (snd ?run) = [rc_backoff demo_remote]" using eq(1) le unfolding ds by simp
  moreover have "snd (snd ?run) = ([], [True])" using eq(2) unfolding ds by simp
  ultimately show ?thesis using run by metis
qed

end
