(* ===== verification/Cli.thy ===== *)
theory Cli
  imports Ingest Requests Cancel
begin

text \<open>
  internal/cli: the retries of the client (client.go) and the commands that poll the server, \<open>watch\<close>,
  \<open>logs -f\<close> and \<open>events -f\<close>, with the exit codes of \<open>Main\<close> (cli.go). A loop runs over the list of
  its turns: the states of the world its requests meet, and what interrupts it; running out of turns is
  running on. The commands are then put against the server of the development, at any
  moments of any of its histories.
\<close>


section \<open>client.go: errors and retries\<close>

text \<open>
  A connection that failed, an answer with a status, the context's end, a URL that does not parse (Go's
  \<open>*url.Error\<close>, which is a \<open>net.Error\<close>), and what fails on the client's side.
\<close>

datatype cli_err = ConnErr | ApiErr nat string string | Canceled | BadURL | LocalErr string

definition transient :: "cli_err \<Rightarrow> bool" where
  "transient e = (case e of
     ConnErr \<Rightarrow> True | ApiErr s _ _ \<Rightarrow> s = 502 \<or> s = 503 \<or> s = 504 | Canceled \<Rightarrow> False | BadURL \<Rightarrow> True | LocalErr _ \<Rightarrow> False)"

text \<open>One answer: \<open>ca_error\<close> is the decoded explanation, \<open>ca_value\<close> the decoded body, if it has one that decodes.\<close>

record 'a cli_answer =
  ca_status :: nat
  ca_error :: "(string \<times> string) option"
  ca_empty :: bool
  ca_value :: "'a option"

definition cli_once :: "(nat \<Rightarrow> string) \<Rightarrow> string option \<Rightarrow> bool \<Rightarrow> 'a cli_answer option \<Rightarrow> cli_err + 'a option" where
  "cli_once statusText bodyErr parses answer =
     (case bodyErr of
        Some m \<Rightarrow> Inl (LocalErr m)
      | None \<Rightarrow>
          if \<not> parses then Inl BadURL
          else (case answer of
             None \<Rightarrow> Inl ConnErr
           | Some a \<Rightarrow>
               if ca_status a div 100 \<noteq> 2 then
                 (case ca_error a of
                    Some (m, rid) \<Rightarrow> if m \<noteq> [] then Inl (ApiErr (ca_status a) m rid) else Inl (ApiErr (ca_status a) (statusText (ca_status a)) [])
                  | None \<Rightarrow> Inl (ApiErr (ca_status a) (statusText (ca_status a)) []))
               else if ca_empty a then Inr None
               else (case ca_value a of None \<Rightarrow> Inl (LocalErr ''decode'') | Some v \<Rightarrow> Inr (Some v))))"

definition cli_maxBackoff :: int where "cli_maxBackoff = 10 * 1000000000"

definition cli_delay :: "int \<Rightarrow> int" where
  "cli_delay b = (let d = min b cli_maxBackoff in if d \<le> 0 then 200 * 1000000 else d)"

text \<open>A turn of \<open>retry\<close>: whether the context had ended before the call, the call, and whether it ended during the wait.\<close>

fun cli_retry :: "nat \<Rightarrow> int \<Rightarrow> nat \<Rightarrow> (bool \<times> (cli_err + 'a) \<times> bool) list \<Rightarrow> ((cli_err + 'a) \<times> int list) option" where
  "cli_retry retries delay failures [] = None"
| "cli_retry retries delay failures ((ended, r, interrupted) # ts) =
     (if ended then Some (Inl Canceled, [])
      else case r of
        Inr v \<Rightarrow> Some (Inr v, [])
      | Inl e \<Rightarrow>
          if \<not> transient e then Some (Inl e, [])
          else
            let gateway = (case e of ApiErr _ _ _ \<Rightarrow> True | _ \<Rightarrow> False) in
            if gateway \<and> retries \<le> failures then Some (Inl e, [])
            else if interrupted then Some (Inl Canceled, [])
            else map_option (apsnd (Cons delay))
              (cli_retry retries (min (delay * 2) cli_maxBackoff) (if gateway then Suc failures else failures) ts))"


section \<open>cli.go: the polling commands\<close>

definition runTerminal :: "string \<Rightarrow> bool" where
  "runTerminal s \<longleftrightarrow> s = ''succeeded'' \<or> s = ''failed'' \<or> s = ''cancelled''"

definition jobTerminal :: "string \<Rightarrow> bool" where
  "jobTerminal s \<longleftrightarrow> s = ''succeeded'' \<or> s = ''failed'' \<or> s = ''cancelled'' \<or> s = ''skipped''"

text \<open>How a command ends: in order, with an exit code of its own, or with an error; \<open>Main\<close> turns it into the exit code.\<close>

datatype command_end = CommandOK | ExitError nat | CommandErr cli_err

definition Main_exit :: "command_end \<Rightarrow> nat" where
  "Main_exit r = (case r of CommandOK \<Rightarrow> 0 | ExitError c \<Rightarrow> c | CommandErr e \<Rightarrow> if e = Canceled then 130 else 1)"

text \<open>
  A turn of a polling loop: the world its first and its second request meet, the chunk whose
  printing fails, and whether the pause that follows is interrupted.
\<close>

record 'w poll =
  po_first :: 'w
  po_second :: 'w
  po_write :: "nat option"
  po_interrupted :: bool

text \<open>
  \<open>watch\<close>: \<open>getRun\<close> gives the state and the rendered table. The text printed is collected.
\<close>

fun watch :: "('w \<Rightarrow> cli_err + string \<times> string) \<Rightarrow> 'w poll list \<Rightarrow> string \<Rightarrow> string list \<Rightarrow> command_end option \<times> string list" where
  "watch getRun [] lst out = (None, out)"
| "watch getRun (t # ts) lst out =
     (case getRun (po_first t) of
        Inl e \<Rightarrow> (Some (CommandErr e), out)
      | Inr (state, cur) \<Rightarrow>
          let out' = (if cur \<noteq> lst then out @ (if lst \<noteq> [] then [[CHR 10]] else []) @ [cur] else out);
              lst' = (if cur \<noteq> lst then cur else lst) in
          if runTerminal state then (Some (if state \<noteq> ''succeeded'' then ExitError 1 else CommandOK), out')
          else if po_interrupted t then (Some (CommandErr Canceled), out')
          else watch getRun ts lst' out')"

text \<open>\<open>logs\<close>: a new attempt starts its own stream, and is read from its beginning without a pause.\<close>

fun logs_loop :: "bool \<Rightarrow> ('w \<Rightarrow> cli_err + string) \<Rightarrow> ('w \<Rightarrow> int \<Rightarrow> cli_err + logsResponse) \<Rightarrow> 'w poll list \<Rightarrow> int \<Rightarrow> int \<Rightarrow> string
    \<Rightarrow> command_end option \<times> string" where
  "logs_loop follow getJob getLogs [] after readAttempt out = (None, out)"
| "logs_loop follow getJob getLogs (t # ts) after readAttempt out =
     (case (if follow then map_sum id jobTerminal (getJob (po_first t)) else Inr False) of
        Inl e \<Rightarrow> (Some (CommandErr e), out)
      | Inr terminal \<Rightarrow>
          (case getLogs (po_second t) after of
             Inl e \<Rightarrow> (Some (CommandErr e), out)
           | Inr l \<Rightarrow>
               if readAttempt \<noteq> 0 \<and> lr_attempt l \<noteq> readAttempt then logs_loop follow getJob getLogs ts 0 (lr_attempt l) out
               else
                 let cs = lr_chunks l;
                     stop = (case po_write t of Some n \<Rightarrow> if n < length cs then Some n else None | None \<Rightarrow> None) in
                 (case stop of
                    Some n \<Rightarrow> (Some (CommandErr (LocalErr ''write'')), out @ concat (map snd (take n cs)))
                  | None \<Rightarrow>
                      let out' = out @ concat (map snd cs) in
                      if \<not> follow \<or> terminal \<and> cs = [] then (Some CommandOK, out')
                      else if po_interrupted t then (Some (CommandErr Canceled), out')
                      else logs_loop follow getJob getLogs ts (lr_next l) (lr_attempt l) out')))"

text \<open>\<open>events\<close>: what is printed is the list of rows.\<close>

fun events_loop :: "bool \<Rightarrow> ('w \<Rightarrow> cli_err + string) \<Rightarrow> ('w \<Rightarrow> int \<Rightarrow> cli_err + Event list) \<Rightarrow> 'w poll list \<Rightarrow> int \<Rightarrow> Event list
    \<Rightarrow> command_end option \<times> Event list" where
  "events_loop follow getRun listEvents [] after out = (None, out)"
| "events_loop follow getRun listEvents (t # ts) after out =
     (case (if follow then map_sum id runTerminal (getRun (po_first t)) else Inr False) of
        Inl e \<Rightarrow> (Some (CommandErr e), out)
      | Inr terminal \<Rightarrow>
          (case listEvents (po_second t) after of
             Inl e \<Rightarrow> (Some (CommandErr e), out)
           | Inr evs \<Rightarrow>
               if \<not> follow \<or> terminal \<and> evs = [] then (Some CommandOK, out @ evs)
               else if po_interrupted t then (Some (CommandErr Canceled), out @ evs)
               else events_loop follow getRun listEvents ts (if evs \<noteq> [] then e_id (last evs) else after) (out @ evs)))"


section \<open>Against the server\<close>

text \<open>
  A request meets the server in some state, or ends with an error of the client's own. The endpoints'
  answers are the handlers'; the names of the states are those of types.go.
\<close>

definition run_name :: "run_state \<Rightarrow> string" where
  "run_name s = (case s of RunPending \<Rightarrow> ''pending'' | RunRunning \<Rightarrow> ''running'' | RunSucceeded \<Rightarrow> ''succeeded''
     | RunFailed \<Rightarrow> ''failed'' | RunCancelled \<Rightarrow> ''cancelled'')"

definition job_name :: "job_state \<Rightarrow> string" where
  "job_name s = (case s of JobPending \<Rightarrow> ''pending'' | JobQueued \<Rightarrow> ''queued'' | JobRunning \<Rightarrow> ''running''
     | JobSucceeded \<Rightarrow> ''succeeded'' | JobFailed \<Rightarrow> ''failed'' | JobCancelled \<Rightarrow> ''cancelled'' | JobSkipped \<Rightarrow> ''skipped'')"

definition api_answer :: "'a response \<Rightarrow> cli_err + 'a" where
  "api_answer r = (case r of
     (c, Some v) \<Rightarrow> if c div 100 = 2 then Inr v else Inl (ApiErr c [] [])
   | (c, None) \<Rightarrow> Inl (ApiErr c [] []))"

type_synonym world = "cli_err + server"

definition ask :: "string \<Rightarrow> (server \<Rightarrow> 'a response \<times> server) \<Rightarrow> world \<Rightarrow> cli_err + 'a" where
  "ask token h w = (case w of Inl e \<Rightarrow> Inl e | Inr sv \<Rightarrow> api_answer (fst (withToken sv (Some (''Bearer '' @ token)) h)))"

definition cli_GetRun :: "string \<Rightarrow> string \<Rightarrow> world \<Rightarrow> cli_err + Run \<times> Job list" where
  "cli_GetRun token i = ask token (handleGetRun i)"

definition cli_GetJob :: "string \<Rightarrow> string \<Rightarrow> world \<Rightarrow> cli_err + Job" where
  "cli_GetJob token i = ask token (handleGetJob i)"

definition cli_GetLogs :: "string \<Rightarrow> string \<Rightarrow> int \<Rightarrow> world \<Rightarrow> int \<Rightarrow> cli_err + logsResponse" where
  "cli_GetLogs token i attempt w after = ask token (handleGetLogs i (if 0 < attempt then Number attempt else Absent) (Number after)) w"

definition cli_ListEvents :: "string \<Rightarrow> string \<Rightarrow> world \<Rightarrow> int \<Rightarrow> cli_err + Event list" where
  "cli_ListEvents token i w after = ask token (handleListEvents i (Number after)) w"

definition watchCmd :: "string \<Rightarrow> (Run \<Rightarrow> Job list \<Rightarrow> string) \<Rightarrow> string \<Rightarrow> world poll list \<Rightarrow> command_end option \<times> string list" where
  "watchCmd token render i ts = watch (\<lambda>w. map_sum id (\<lambda>(run, js). (run_name (r_state run), render run js)) (cli_GetRun token i w)) ts [] []"

definition logsCmd :: "string \<Rightarrow> bool \<Rightarrow> int \<Rightarrow> string \<Rightarrow> world poll list \<Rightarrow> command_end option \<times> string" where
  "logsCmd token follow attempt i ts =
     logs_loop follow (\<lambda>w. map_sum id (\<lambda>j. job_name (j_state j)) (cli_GetJob token i w)) (cli_GetLogs token i attempt) ts 0 0 []"

definition eventsCmd :: "string \<Rightarrow> bool \<Rightarrow> string \<Rightarrow> world poll list \<Rightarrow> command_end option \<times> Event list" where
  "eventsCmd token follow i ts =
     events_loop follow (\<lambda>w. map_sum id (\<lambda>(run, js). run_name (r_state run)) (cli_GetRun token i w)) (cli_ListEvents token i) ts 0 []"


section \<open>How long a call is retried\<close>

definition gateway :: "cli_err \<Rightarrow> bool" where
  "gateway e \<longleftrightarrow> transient e \<and> (\<exists>s m q. e = ApiErr s m q)"

lemma cli_retry_tries:
  assumes "cli_retry retries delay failures ts = Some (r, ws)" and "0 < delay" and "delay \<le> cli_maxBackoff"
  shows "length ws < length ts \<and> (\<forall>w \<in> set ws. delay \<le> w \<and> w \<le> cli_maxBackoff) \<and>
    (\<forall>t \<in> set (take (length ws) ts). \<exists>e. t = (False, Inl e, False) \<and> transient e) \<and>
    failures + length (filter (\<lambda>(_, x, _). \<exists>e. x = Inl e \<and> gateway e) (take (length ws) ts)) \<le> max failures retries \<and>
    (case ts ! length ws of (ended, x, interrupted) \<Rightarrow>
       if ended then r = Inl Canceled else r = x \<or> r = Inl Canceled \<and> interrupted)"
  using assms
proof (induction retries delay failures ts arbitrary: ws rule: cli_retry.induct)
  case (2 retries delay failures ended x interrupted ts)
  show ?case
  proof (cases "\<not> ended \<and> (\<exists>e. x = Inl e \<and> transient e \<and> \<not> (gateway e \<and> retries \<le> failures) \<and> \<not> interrupted)")
    case False
    with "2.prems"(1) show ?thesis by (auto simp: Let_def gateway_def split: if_splits sum.splits cli_err.splits)
  next
    case True
    then obtain e where e: "\<not> ended" "x = Inl e" "transient e" "\<not> (gateway e \<and> retries \<le> failures)" "\<not> interrupted" by blast
    have g: "(case e of ApiErr _ _ _ \<Rightarrow> True | _ \<Rightarrow> False) = gateway e" using e(3) by (auto simp: gateway_def split: cli_err.splits)
    let ?d = "min (delay * 2) cli_maxBackoff" and ?f = "if gateway e then Suc failures else failures"
    from "2.prems"(1) e g obtain ws' where rec: "cli_retry retries ?d ?f ts = Some (r, ws')" and ws: "ws = delay # ws'"
      by (auto simp: Let_def)
    have d: "0 < ?d" "?d \<le> cli_maxBackoff" "delay \<le> ?d" using "2.prems"(2,3) by auto
    note IH = "2.IH" [OF e(1,2) _ refl, simplified g, OF _ _ e(5) rec d(1,2)]
    show ?thesis using IH e ws d "2.prems" by (auto simp: gateway_def)
  qed
qed simp

text \<open>A server URL that does not parse is asked for ever: its error counts as transient and is on no budget.\<close>

lemma bad_url_never_ends: "\<forall>t \<in> set ts. t = (False, Inl BadURL, False) \<Longrightarrow> cli_retry retries delay failures ts = None"
  by (induction ts arbitrary: delay failures) (auto simp: transient_def Let_def)


section \<open>Histories\<close>

text \<open>The states of the server a loop meets, one after another in one history of it.\<close>

definition met :: "world \<Rightarrow> server list" where
  "met w = (case w of Inl _ \<Rightarrow> [] | Inr sv \<Rightarrow> [sv])"

definition moments :: "world poll list \<Rightarrow> server list" where
  "moments ts = concat (map (\<lambda>t. met (po_first t) @ met (po_second t)) ts)"

definition in_history :: "(string \<Rightarrow> yaml_result) \<Rightarrow> server \<Rightarrow> world poll list \<Rightarrow> server \<Rightarrow> bool" where
  "in_history decode sv ts sv' \<longleftrightarrow> sorted_wrt (sys_step decode)\<^sup>*\<^sup>* (sv # moments ts @ [sv'])"

lemma in_history_Cons:
  assumes "in_history decode sv (t # ts) sv'"
  shows "po_first t = Inr a \<Longrightarrow> (sys_step decode)\<^sup>*\<^sup>* sv a"
    and "po_second t = Inr b \<Longrightarrow> (sys_step decode)\<^sup>*\<^sup>* sv b"
    and "po_second t = Inr b \<Longrightarrow> (sys_step decode)\<^sup>*\<^sup>* b sv'"
    and "po_first t = Inr a \<Longrightarrow> po_second t = Inr b \<Longrightarrow> (sys_step decode)\<^sup>*\<^sup>* a b"
    and "po_second t = Inr b \<Longrightarrow> in_history decode b ts sv'" and "in_history decode sv ts sv'"
    and "po_first t = Inr a \<Longrightarrow> (sys_step decode)\<^sup>*\<^sup>* a sv'"
  using assms by (auto simp: in_history_def moments_def met_def sorted_wrt_append)

text \<open>
  Reading an append-only list by its keys: with the cursor at the last key read, the next page is what was
  added since.
\<close>

definition cursor :: "('a \<Rightarrow> int) \<Rightarrow> 'a list \<Rightarrow> int" where
  "cursor key xs = (if xs = [] then 0 else key (last xs))"

lemma cursor_page:
  assumes "sorted_wrt (<) (map key (xs @ ys))" and "\<forall>x \<in> set (xs @ ys). 0 < key x"
  shows "filter (\<lambda>x. cursor key xs < key x) (xs @ ys) = ys"
proof -
  have "\<not> cursor key xs < key x" if x: "x \<in> set xs" for x
  proof -
    from x obtain ys z where xs: "xs = ys @ [z]" by (cases xs rule: rev_cases) auto
    with x assms(1) show ?thesis by (auto simp: cursor_def sorted_wrt_append)
  qed
  moreover have "cursor key xs < key y" if "y \<in> set ys" for y
    using that assms by (auto simp: cursor_def sorted_wrt_append)
  ultimately show ?thesis by (auto simp: filter_empty_conv intro!: filter_True)
qed


section \<open>events -f\<close>

definition run_events :: "string \<Rightarrow> server \<Rightarrow> Event list" where
  "run_events i sv = filter (\<lambda>e. e_run_id e = i) (t_events (st (sv_sched sv)))"

lemma event_ids:
  assumes "sys_init sv0" and "(sys_step decode)\<^sup>*\<^sup>* sv0 sv"
  shows "sorted_wrt (<) (map e_id (t_events (st (sv_sched sv))))" and "\<forall>e \<in> set (t_events (st (sv_sched sv))). 0 < e_id e"
proof -
  have ids: "map e_id (t_events (st (sv_sched sv))) = map int [1..<Suc (length (t_events (st (sv_sched sv))))]"
    using reach_inv(2) [OF assms] by (simp add: tables_ok_def numbered_def)
  show "sorted_wrt (<) (map e_id (t_events (st (sv_sched sv))))" unfolding ids by (simp add: sorted_wrt_map del: upt_Suc)
  have "x \<in> set (map e_id (t_events (st (sv_sched sv)))) \<Longrightarrow> 0 < x" for x unfolding ids by auto
  then show "\<forall>e \<in> set (t_events (st (sv_sched sv))). 0 < e_id e" by auto
qed

lemma sorted_wrt_filter_key: "sorted_wrt (<) (map key xs) \<Longrightarrow> sorted_wrt (<) (map key (filter P xs))"
  by (simp add: sorted_wrt_map sorted_wrt_filter)

lemma sorted_key_id: "sorted_wrt (<) (map key xs) \<Longrightarrow> sort_key key xs = xs" for key :: "'a \<Rightarrow> int"
  by (intro sort_key_id_if_sorted strict_sorted_imp_sorted)

lemma run_events_grow:
  assumes "sys_init sv0" and "(sys_step decode)\<^sup>*\<^sup>* sv0 sv" and "(sys_step decode)\<^sup>*\<^sup>* sv sv'"
  shows "prefix (run_events i sv) (run_events i sv')"
proof -
  have "prefix (t_events (st (sv_sched sv))) (t_events (st (sv_sched sv')))"
    using reachable_grows [OF assms] by (simp add: grows_def)
  then show ?thesis by (auto simp: run_events_def prefix_def)
qed

text \<open>A page of the listing behind what was read.\<close>

lemma cli_events_page:
  assumes "sys_init sv0" and "(sys_step decode)\<^sup>*\<^sup>* sv0 sv" and "(sys_step decode)\<^sup>*\<^sup>* sv sv'"
    and "cli_ListEvents token i (Inr sv') (cursor e_id (run_events i sv)) = Inr evs"
  shows "run_events i sv' = run_events i sv @ evs"
proof -
  let ?after = "cursor e_id (run_events i sv)"
  have reach: "(sys_step decode)\<^sup>*\<^sup>* sv0 sv'" using assms(2,3) by simp
  obtain new where new: "run_events i sv' = run_events i sv @ new" using run_events_grow [OF assms(1-3)] by (auto simp: prefix_def)
  note ids = event_ids [OF assms(1) reach]
  have sorted: "sorted_wrt (<) (map e_id (run_events i sv'))" using ids(1) unfolding run_events_def by (rule sorted_wrt_filter_key)
  have pos: "\<forall>e \<in> set (run_events i sv'). 0 < e_id e" using ids(2) by (simp add: run_events_def)
  have "filter (\<lambda>e. ?after < e_id e) (run_events i sv') = new"
    using cursor_page [of e_id "run_events i sv" new] sorted pos new by simp
  moreover have "listed (ListEvents i ?after 0 (st (sv_sched sv'))) = sort_key e_id (filter (\<lambda>e. ?after < e_id e) (run_events i sv'))"
    by (simp add: listed_def ListEvents_def tx_simps take_limit_def run_events_def filter_filter conj_commute)
  moreover have "sort_key e_id new = new"
    using sorted new by (intro sorted_key_id) (simp add: sorted_wrt_append)
  ultimately have "evs = new"
    using assms(4) by (auto simp: cli_ListEvents_def ask_def api_answer_def withToken_def handleListEvents_def split: if_splits sum.splits)
  with new show ?thesis by simp
qed

lemma run_terminal_name [simp]: "runTerminal (run_name s) \<longleftrightarrow> run_over s"
  by (cases s) (simp_all add: runTerminal_def run_name_def run_over_def)

lemma job_terminal_name [simp]: "jobTerminal (job_name s) \<longleftrightarrow> isTerminal s"
  by (cases s) (simp_all add: jobTerminal_def job_name_def isTerminal_def)

lemma cli_GetRun_row:
  "cli_GetRun token i w = Inr (run, js) \<Longrightarrow> \<exists>sv. w = Inr sv \<and> run \<in> set (t_runs (st (sv_sched sv))) \<and> r_id run = i"
  by (auto simp: cli_GetRun_def ask_def api_answer_def withToken_def handleGetRun_def GetRun_def ListJobs_def tx_simps find_Some_iff
      split: sum.splits if_splits option.splits prod.splits)

lemma cli_ListEvents_world: "cli_ListEvents token i w after = Inr evs \<Longrightarrow> \<exists>sv. w = Inr sv"
  by (auto simp: cli_ListEvents_def ask_def split: sum.splits)

lemma cursor_append: "cursor key (xs @ ys) = (if ys \<noteq> [] then key (last ys) else cursor key xs)"
  by (simp add: cursor_def)

lemma events_loop_reads:
  assumes "sys_init sv0"
    and "events_loop follow (\<lambda>w. map_sum id (\<lambda>(run, js). run_name (r_state run)) (cli_GetRun token i w)) (cli_ListEvents token i) ts
      (cursor e_id (run_events i sv)) (run_events i sv) = (r, out)"
    and "(sys_step decode)\<^sup>*\<^sup>* sv0 sv" and "in_history decode sv ts sv'"
  shows "\<exists>w. (sys_step decode)\<^sup>*\<^sup>* sv w \<and> (sys_step decode)\<^sup>*\<^sup>* w sv' \<and> out = run_events i w \<and>
    (r = Some CommandOK \<longrightarrow> (\<exists>t \<in> set ts. po_second t = Inr w \<and>
      (follow \<longrightarrow> (\<exists>a. po_first t = Inr a \<and> (\<exists>run \<in> set (t_runs (st (sv_sched a))). r_id run = i \<and> run_over (r_state run))))))"
  using assms(2-4)
proof (induction ts arbitrary: sv)
  case Nil
  then show ?case by (auto simp: in_history_def)
next
  case (Cons t ts)
  let ?run = "\<lambda>w. map_sum id (\<lambda>(run, js). run_name (r_state run)) (cli_GetRun token i w)"
  let ?st = "if follow then map_sum id runTerminal (?run (po_first t)) else Inr False" and ?after = "cursor e_id (run_events i sv)"
  note hist = in_history_Cons [OF Cons.prems(3)]
  have now: "\<exists>w. (sys_step decode)\<^sup>*\<^sup>* sv w \<and> (sys_step decode)\<^sup>*\<^sup>* w sv' \<and> run_events i sv = run_events i w"
    using Cons.prems(3) by (auto simp: in_history_def)
  have step: "(case ?st of Inl e \<Rightarrow> (Some (CommandErr e), run_events i sv)
      | Inr terminal \<Rightarrow> (case cli_ListEvents token i (po_second t) ?after of Inl e \<Rightarrow> (Some (CommandErr e), run_events i sv)
         | Inr evs \<Rightarrow> if \<not> follow \<or> terminal \<and> evs = [] then (Some CommandOK, run_events i sv @ evs)
             else if po_interrupted t then (Some (CommandErr Canceled), run_events i sv @ evs)
             else events_loop follow ?run (cli_ListEvents token i) ts (if evs \<noteq> [] then e_id (last evs) else ?after) (run_events i sv @ evs))) = (r, out)"
    using Cons.prems(1) unfolding events_loop.simps .
  define got where "got = ?st"
  note step = step [folded got_def]
  show ?case
  proof (cases "\<exists>terminal evs. got = Inr terminal \<and> cli_ListEvents token i (po_second t) ?after = Inr evs")
    case False
    then have "r \<noteq> Some CommandOK \<and> out = run_events i sv" using step by (auto split: sum.splits)
    with now show ?thesis by auto
  next
    case True
    then obtain terminal evs where ok: "got = Inr terminal" "cli_ListEvents token i (po_second t) ?after = Inr evs" by blast
    from cli_ListEvents_world [OF ok(2)] obtain b where b: "po_second t = Inr b" by blast
    have page: "run_events i sv @ evs = run_events i b"
      using cli_events_page [OF assms(1) Cons.prems(2) hist(2) [OF b]] ok(2) b by simp
    have reach: "(sys_step decode)\<^sup>*\<^sup>* sv0 b" using Cons.prems(2) hist(2) [OF b] by simp
    have over: "\<exists>a. po_first t = Inr a \<and> (\<exists>run \<in> set (t_runs (st (sv_sched a))). r_id run = i \<and> run_over (r_state run))"
      if "follow" "terminal"
    proof -
      from ok(1) that obtain run js where run: "cli_GetRun token i (po_first t) = Inr (run, js)" "run_over (r_state run)"
        by (cases "cli_GetRun token i (po_first t)") (auto simp: got_def)
      from cli_GetRun_row [OF run(1)] run(2) show ?thesis by blast
    qed
    have after: "(if evs \<noteq> [] then e_id (last evs) else ?after) = cursor e_id (run_events i b)"
      unfolding page [symmetric] cursor_append ..
    show ?thesis
    proof (cases "\<not> follow \<or> terminal \<and> evs = [] \<or> po_interrupted t")
      case True
      then have "out = run_events i b" "r = Some CommandOK \<Longrightarrow> \<not> follow \<or> terminal"
        using step ok page by (auto split: if_splits)
      with hist(2,3) [OF b] b over show ?thesis by (intro exI [of _ b]) auto
    next
      case False
      then have go: "(\<not> follow \<or> terminal \<and> evs = []) = False" "po_interrupted t = False" by auto
      have "events_loop follow ?run (cli_ListEvents token i) ts (cursor e_id (run_events i b)) (run_events i b) = (r, out)"
        using step by (simp only: ok sum.case go if_False after page)
      from Cons.IH [OF this reach hist(5) [OF b]] obtain w where w: "(sys_step decode)\<^sup>*\<^sup>* b w" "(sys_step decode)\<^sup>*\<^sup>* w sv'"
        "out = run_events i w" "r = Some CommandOK \<longrightarrow> (\<exists>t \<in> set ts. po_second t = Inr w \<and>
          (follow \<longrightarrow> (\<exists>a. po_first t = Inr a \<and> (\<exists>run \<in> set (t_runs (st (sv_sched a))). r_id run = i \<and> run_over (r_state run)))))" by blast
      have "(sys_step decode)\<^sup>*\<^sup>* sv w" using hist(2) [OF b] w(1) by simp
      with w(2-4) show ?thesis by (intro exI [of _ w]) auto
    qed
  qed
qed

text \<open>
  C30. Following the audit log. Whenever the requests of \<open>events\<close> meet the server in one of its histories, what was
  printed is the beginning of the run's audit log: in order, nothing twice, nothing left out. When
  the command ends in order it printed all there was at its last request; with \<open>-f\<close> the run was
  over before that request.
\<close>

theorem events_follow:
  assumes "sys_init sv0" and "in_history decode sv0 ts sv'" and "eventsCmd token follow i ts = (r, out)"
  shows "prefix out (run_events i sv') \<and>
    (r = Some CommandOK \<longrightarrow> (\<exists>t \<in> set ts. \<exists>w. po_second t = Inr w \<and> out = run_events i w \<and>
      (follow \<longrightarrow> (\<exists>a. po_first t = Inr a \<and> (\<exists>run \<in> set (t_runs (st (sv_sched a))). r_id run = i \<and> run_over (r_state run))))))"
proof -
  have none: "run_events i sv0 = []" using assms(1) by (auto simp: sys_init_def run_events_def New_def Let_def empty_store_def)
  have "\<exists>w. (sys_step decode)\<^sup>*\<^sup>* sv0 w \<and> (sys_step decode)\<^sup>*\<^sup>* w sv' \<and> out = run_events i w \<and>
    (r = Some CommandOK \<longrightarrow> (\<exists>t \<in> set ts. po_second t = Inr w \<and>
      (follow \<longrightarrow> (\<exists>a. po_first t = Inr a \<and> (\<exists>run \<in> set (t_runs (st (sv_sched a))). r_id run = i \<and> run_over (r_state run))))))"
    by (rule events_loop_reads [OF assms(1) _ _ assms(2)]) (use assms(3) none in \<open>simp_all add: eventsCmd_def cursor_def\<close>)
  then obtain w where w: "(sys_step decode)\<^sup>*\<^sup>* sv0 w" "(sys_step decode)\<^sup>*\<^sup>* w sv'" "out = run_events i w"
    "r = Some CommandOK \<longrightarrow> (\<exists>t \<in> set ts. po_second t = Inr w \<and>
      (follow \<longrightarrow> (\<exists>a. po_first t = Inr a \<and> (\<exists>run \<in> set (t_runs (st (sv_sched a))). r_id run = i \<and> run_over (r_state run)))))" by blast
  from run_events_grow [OF assms(1) w(1,2), of i] w(3,4) show ?thesis by blast
qed

text \<open>A follow that goes on saw, in its last turn, a run that was not over, or printed something.\<close>

lemma events_loop_goes_on:
  "events_loop follow getRun listEvents (us @ [t]) after out = (None, out2) \<Longrightarrow>
   \<exists>out1 state. events_loop follow getRun listEvents us after out = (None, out1) \<and> follow \<and> getRun (po_first t) = Inr state \<and>
     (\<not> runTerminal state \<or> length out1 < length out2)"
proof (induction us arbitrary: after out)
  case Nil
  then show ?case by (cases "getRun (po_first t)") (auto split: sum.splits if_splits)
next
  case (Cons u us)
  then show ?case by (auto split: sum.splits if_splits)
qed


section \<open>watch\<close>

lemma run_over_stays:
  assumes "sys_init sv0" and "(sys_step decode)\<^sup>*\<^sup>* sv0 sv" and "(sys_step decode)\<^sup>*\<^sup>* sv sv'"
    and "run \<in> set (t_runs (st (sv_sched sv)))" and "run_over (r_state run)"
  shows "run \<in> set (t_runs (st (sv_sched sv')))"
proof -
  from reachable_grows [OF assms(1-3)] obtain rs where rs: "prefix rs (t_runs (st (sv_sched sv')))"
    "list_all2 run_step\<^sup>*\<^sup>* (t_runs (st (sv_sched sv))) rs" unfolding grows_def by blast
  show ?thesis using list_all2_in_left [OF rs(2) assms(4)] run_stuck [OF _ assms(5)] set_mono_prefix [OF rs(1)] by blast
qed

lemma watch_ends:
  assumes "watch getRun ts lst out = (r, out')"
  shows "(case r of
      None \<Rightarrow> \<forall>t \<in> set ts. \<exists>state cur. getRun (po_first t) = Inr (state, cur) \<and> \<not> runTerminal state
    | Some (CommandErr e) \<Rightarrow> \<exists>t \<in> set ts. getRun (po_first t) = Inl e \<or> e = Canceled \<and> po_interrupted t
    | Some CommandOK \<Rightarrow> \<exists>t \<in> set ts. \<exists>cur. getRun (po_first t) = Inr (''succeeded'', cur)
    | Some (ExitError c) \<Rightarrow> c = 1 \<and> (\<exists>t \<in> set ts. \<exists>state cur. getRun (po_first t) = Inr (state, cur) \<and> runTerminal state \<and> state \<noteq> ''succeeded''))"
  using assms
proof (induction ts arbitrary: lst out)
  case (Cons t ts)
  show ?case
  proof (cases "\<exists>state cur. getRun (po_first t) = Inr (state, cur) \<and> \<not> runTerminal state \<and> \<not> po_interrupted t")
    case True
    then obtain state cur where s: "getRun (po_first t) = Inr (state, cur)" "\<not> runTerminal state" "\<not> po_interrupted t" by blast
    with Cons.prems obtain lst1 out1 where "watch getRun ts lst1 out1 = (r, out')" by (auto simp: Let_def)
    from Cons.IH [OF this] s show ?thesis by (auto split: option.splits command_end.splits)
  next
    case False
    with Cons.prems show ?thesis by (auto simp: Let_def split: sum.splits prod.splits if_splits)
  qed
qed simp

text \<open>
  C31. The exit code of \<open>watch\<close> is the verdict. When \<open>watch\<close> (and \<open>run --wait\<close>) exits with 0 the run has
  succeeded, for good; exit code 1 without an error message means it failed or was cancelled, for good. As
  long as it goes on, every answer said the run was not over, so the first answer that says so ends it.
\<close>

theorem watch_verdict:
  assumes "sys_init sv0" and "in_history decode sv0 ts sv'" and "watchCmd token render i ts = (r, out)"
  shows "case r of
      None \<Rightarrow> \<forall>t \<in> set ts. \<exists>sv. po_first t = Inr sv \<and> (\<exists>run \<in> set (t_runs (st (sv_sched sv))). r_id run = i \<and> \<not> run_over (r_state run))
    | Some (CommandErr e) \<Rightarrow> Main_exit (CommandErr e) \<noteq> 0
    | Some x \<Rightarrow> \<exists>run \<in> set (t_runs (st (sv_sched sv'))). r_id run = i \<and> run_over (r_state run) \<and>
        Main_exit x = (if r_state run = RunSucceeded then 0 else 1)"
proof -
  let ?get = "\<lambda>w. map_sum id (\<lambda>(run, js). (run_name (r_state run), render run js)) (cli_GetRun token i w)"
  have answer: "\<exists>sv run. w = Inr sv \<and> run \<in> set (t_runs (st (sv_sched sv))) \<and> r_id run = i \<and> state = run_name (r_state run)"
    if "?get w = Inr (state, cur)" for w state cur
    using that cli_GetRun_row [of token i w] by (cases "cli_GetRun token i w") (auto, blast)
  have later: "(sys_step decode)\<^sup>*\<^sup>* sv0 sv" "(sys_step decode)\<^sup>*\<^sup>* sv sv'" if "t \<in> set ts" "po_first t = Inr sv" for t sv
  proof -
    have "sv \<in> set (moments ts)" using that by (auto simp: moments_def met_def intro!: bexI [of _ t])
    then show "(sys_step decode)\<^sup>*\<^sup>* sv0 sv" "(sys_step decode)\<^sup>*\<^sup>* sv sv'"
      using assms(2) by (auto simp: in_history_def sorted_wrt_append)
  qed
  note ends = watch_ends [OF assms(3) [unfolded watchCmd_def]]
  show ?thesis
  proof (cases "\<exists>x. r = Some x \<and> (\<forall>e. x \<noteq> CommandErr e)")
    case True
    then obtain x where x: "r = Some x" "\<forall>e. x \<noteq> CommandErr e" by blast
    have "\<exists>t \<in> set ts. \<exists>state cur. ?get (po_first t) = Inr (state, cur) \<and> runTerminal state \<and>
        Main_exit x = (if state = ''succeeded'' then 0 else 1)"
    proof (cases x)
      case CommandOK
      with x ends obtain t cur where "t \<in> set ts" "?get (po_first t) = Inr (''succeeded'', cur)" by auto
      moreover have "runTerminal ''succeeded''" by (simp add: runTerminal_def)
      ultimately show ?thesis using CommandOK by (auto simp: Main_exit_def)
    next
      case (ExitError c)
      with x ends obtain t state cur where "t \<in> set ts" "?get (po_first t) = Inr (state, cur)" "runTerminal state" "state \<noteq> ''succeeded''" "c = 1"
        by auto
      then show ?thesis using ExitError by (auto simp: Main_exit_def)
    qed (use x in simp)
    then obtain t state cur where t: "t \<in> set ts" "?get (po_first t) = Inr (state, cur)" "runTerminal state"
      "Main_exit x = (if state = ''succeeded'' then 0 else 1)" by blast
    from answer [OF t(2)] obtain sv run where run: "po_first t = Inr sv" "run \<in> set (t_runs (st (sv_sched sv)))" "r_id run = i"
      "state = run_name (r_state run)" by blast
    have over: "run_over (r_state run)" using t(3) run(4) by simp
    have "run \<in> set (t_runs (st (sv_sched sv')))" by (rule run_over_stays [OF assms(1) later [OF t(1) run(1)] run(2) over])
    moreover have "Main_exit x = (if r_state run = RunSucceeded then 0 else 1)"
      using t(4) run(4) by (cases "r_state run") (simp_all add: run_name_def)
    ultimately show ?thesis using x run(3) over by (auto split: command_end.splits)
  next
    case False
    then show ?thesis
    proof (cases r)
      case None
      with ends have "\<forall>t \<in> set ts. \<exists>state cur. ?get (po_first t) = Inr (state, cur) \<and> \<not> runTerminal state" by simp
      then have "\<forall>t \<in> set ts. \<exists>sv. po_first t = Inr sv \<and> (\<exists>run \<in> set (t_runs (st (sv_sched sv))). r_id run = i \<and> \<not> run_over (r_state run))"
        using answer run_terminal_name by blast
      with None show ?thesis by simp
    next
      case (Some x)
      with False obtain e where "r = Some (CommandErr e)" by blast
      then show ?thesis by (simp add: Main_exit_def)
    qed
  qed
qed


section \<open>logs -f\<close>

definition log_of :: "string \<Rightarrow> int \<Rightarrow> server \<Rightarrow> string" where
  "log_of i a sv = concat (map lc_data (stored i a (st (sv_sched sv))))"

text \<open>Chunks that arrived as a shipper sends them: numbered from one, each behind the last of its attempt.\<close>

definition arrived_in_order :: "string \<Rightarrow> server \<Rightarrow> bool" where
  "arrived_in_order i sv \<longleftrightarrow> (\<forall>a. sorted_wrt (<) (map lc_seq (stored i a (st (sv_sched sv))))) \<and>
     (\<forall>c \<in> set (t_chunks (st (sv_sched sv))). lc_job_id c = i \<longrightarrow> 0 < lc_seq c \<and> 0 < lc_attempt c)"

text \<open>Successive attempts, of each the beginning of its log.\<close>

definition log_stream :: "string \<Rightarrow> server \<Rightarrow> (int \<times> string) list \<Rightarrow> bool" where
  "log_stream i sv segs \<longleftrightarrow> sorted_wrt (<) (map fst segs) \<and> (\<forall>(a, x) \<in> set segs. prefix x (log_of i a sv))"

lemma stored_grow:
  assumes "sys_init sv0" and "(sys_step decode)\<^sup>*\<^sup>* sv0 sv" and "(sys_step decode)\<^sup>*\<^sup>* sv sv'"
  shows "prefix (stored i a (st (sv_sched sv))) (stored i a (st (sv_sched sv')))"
proof -
  have "prefix (t_chunks (st (sv_sched sv))) (t_chunks (st (sv_sched sv')))"
    using reachable_grows [OF assms] by (simp add: grows_def)
  then show ?thesis by (auto simp: stored_def prefix_def)
qed

lemma prefix_data: "prefix xs ys \<Longrightarrow> prefix (concat (map lc_data xs)) (concat (map lc_data ys))"
  by (auto simp: prefix_def)

lemma arrived_earlier:
  assumes "sys_init sv0" and "(sys_step decode)\<^sup>*\<^sup>* sv0 sv" and "(sys_step decode)\<^sup>*\<^sup>* sv sv'" and "arrived_in_order i sv'"
  shows "arrived_in_order i sv"
proof -
  have "prefix (t_chunks (st (sv_sched sv))) (t_chunks (st (sv_sched sv')))"
    using reachable_grows [OF assms(1-3)] by (simp add: grows_def)
  then obtain zs where zs: "t_chunks (st (sv_sched sv')) = t_chunks (st (sv_sched sv)) @ zs" by (auto simp: prefix_def)
  with assms(4) show ?thesis by (auto simp: arrived_in_order_def stored_def sorted_wrt_append)
qed

lemma job_later:
  assumes "sys_init sv0" and "(sys_step decode)\<^sup>*\<^sup>* sv0 sv" and "(sys_step decode)\<^sup>*\<^sup>* sv sv'" and "j \<in> set (t_jobs (st (sv_sched sv)))"
    and "find (\<lambda>k. j_id k = j_id j) (t_jobs (st (sv_sched sv'))) = Some q"
  shows "j_attempt j \<le> j_attempt q"
proof -
  from grows_row [OF reachable_grows [OF assms(1-3)] assms(4)] obtain k where k: "k \<in> set (t_jobs (st (sv_sched sv')))" "job_step\<^sup>*\<^sup>* j k" by blast
  note static = job_steps_static [OF k(2)]
  have "find (\<lambda>m. j_id m = j_id k) (t_jobs (st (sv_sched sv'))) = Some k"
    by (rule find_keyed_Some [OF later_distinct [OF assms(1-3)] k(1)])
  with static assms(5) show ?thesis by simp
qed

lemma logs_page_next: "lr_next (logs_page a n cs) = (if cs = [] then n else lc_seq (last cs))"
proof -
  have "lr_next (foldl (\<lambda>out c. out\<lparr>lr_chunks := lr_chunks out @ [(lc_seq c, lc_data c)], lr_next := lc_seq c\<rparr>) p cs) =
      (if cs = [] then lr_next p else lc_seq (last cs))" for p :: logsResponse
    by (induction cs arbitrary: p) simp_all
  then show ?thesis by (simp add: logs_page_def)
qed

text \<open>A page of the log behind what was read of the attempt.\<close>

lemma cli_logs_page:
  assumes "arrived_in_order i sv" and "cli_GetLogs token i attempt (Inr sv) (cursor lc_seq rd) = Inr l"
    and "prefix rd (stored i (lr_attempt l) (st (sv_sched sv)))"
  obtains new where "stored i (lr_attempt l) (st (sv_sched sv)) = rd @ new" and "map snd (lr_chunks l) = map lc_data new"
    and "length (lr_chunks l) = length new" and "lr_next l = cursor lc_seq (rd @ new)"
proof -
  let ?a = "lr_attempt l" and ?s = "st (sv_sched sv)" and ?after = "cursor lc_seq rd"
  obtain new where new: "stored i ?a ?s = rd @ new" using assms(3) by (auto simp: prefix_def)
  have sorted: "sorted_wrt (<) (map lc_seq (rd @ new))" and pos: "\<forall>c \<in> set (rd @ new). 0 < lc_seq c"
    using assms(1) unfolding new [symmetric] by (auto simp: arrived_in_order_def stored_def)
  have page: "filter (\<lambda>c. ?after < lc_seq c) (stored i ?a ?s) = new" unfolding new by (rule cursor_page [OF sorted pos])
  have "sort_key lc_seq new = new" using sorted by (intro sorted_key_id) (simp add: sorted_wrt_append)
  moreover have "filter (\<lambda>c. lc_job_id c = i \<and> lc_attempt c = ?a \<and> ?after < lc_seq c) (t_chunks ?s) = new"
    using page by (simp add: stored_def filter_filter conj_ac)
  ultimately have "listed (ListLogChunks i ?a ?after ?s) = new" by (simp add: listed_def ListLogChunks_def tx_simps)
  moreover have "\<exists>a'. l = logs_page a' ?after (listed (ListLogChunks i a' ?after ?s))"
    using assms(2) by (auto simp: cli_GetLogs_def ask_def api_answer_def withToken_def handleGetLogs_def GetJob_def afterParam_def find_Some_iff
        split: if_splits sum.splits option.splits)
  then have "l = logs_page ?a ?after (listed (ListLogChunks i ?a ?after ?s))" using logs_page_attempt by metis
  ultimately have l: "l = logs_page ?a ?after new" by simp
  have "lr_chunks l = map (\<lambda>c. (lc_seq c, lc_data c)) new" by (subst l) (rule logs_page_chunks)
  moreover have "lr_next l = cursor lc_seq (rd @ new)" by (subst l) (simp add: logs_page_next cursor_append)
  ultimately show thesis using that [OF new] by simp
qed

lemma cli_logs_attempt:
  assumes "cli_GetLogs token i attempt w after = Inr l"
  obtains sv j where "w = Inr sv" and "find (\<lambda>k. j_id k = i) (t_jobs (st (sv_sched sv))) = Some j"
    and "lr_attempt l = (if 0 < attempt then attempt else j_attempt j)"
  using assms that by (auto simp: cli_GetLogs_def ask_def api_answer_def withToken_def handleGetLogs_def GetJob_def attemptParam_def logs_page_attempt
      split: if_splits sum.splits option.splits)

text \<open>
  How far a reader is: the earlier attempts' segments, and of the attempt it reads now a beginning \<open>rd\<close>.
\<close>

definition reading :: "int \<Rightarrow> string \<Rightarrow> server \<Rightarrow> server \<Rightarrow> (int \<times> string) list \<Rightarrow> int \<Rightarrow> LogChunk list \<Rightarrow> bool" where
  "reading attempt i sv sv' segs ra rd \<longleftrightarrow> log_stream i sv' segs \<and> prefix rd (stored i ra (st (sv_sched sv))) \<and>
     (if ra = 0 then rd = [] \<and> segs = []
      else 0 < ra \<and> (\<forall>(a, x) \<in> set segs. a < ra) \<and> (if 0 < attempt then ra = attempt \<and> segs = []
        else \<exists>j \<in> set (t_jobs (st (sv_sched sv))). j_id j = i \<and> ra \<le> j_attempt j))"

definition printed :: "int \<Rightarrow> string \<Rightarrow> world poll list \<Rightarrow> server \<Rightarrow> bool \<Rightarrow> command_end option \<Rightarrow> string \<Rightarrow> bool" where
  "printed attempt i ts sv' follow r out \<longleftrightarrow>
     (\<exists>segs a x. out = concat (map snd segs) @ x \<and> log_stream i sv' (segs @ [(a, x)]) \<and>
        (0 < attempt \<longrightarrow> segs = [] \<and> (x \<noteq> [] \<longrightarrow> a = attempt)) \<and>
        (r = Some CommandOK \<longrightarrow> (\<exists>t \<in> set ts. \<exists>w j. po_second t = Inr w \<and>
           find (\<lambda>k. j_id k = i) (t_jobs (st (sv_sched w))) = Some j \<and> a = (if 0 < attempt then attempt else j_attempt j) \<and>
           x = log_of i a w \<and>
           (follow \<longrightarrow> (\<exists>v. po_first t = Inr v \<and> (\<exists>j \<in> set (t_jobs (st (sv_sched v))). j_id j = i \<and> isTerminal (j_state j)))))))"

lemma log_stream_snoc:
  "log_stream i sv (segs @ [(a, x)]) \<longleftrightarrow> log_stream i sv segs \<and> (\<forall>(b, y) \<in> set segs. b < a) \<and> prefix x (log_of i a sv)"
  by (auto simp: log_stream_def sorted_wrt_append)

lemma printed_Cons: "printed attempt i ts sv' follow r out \<Longrightarrow> printed attempt i (t # ts) sv' follow r out"
  unfolding printed_def by (elim exE conjE) (intro exI conjI, assumption+, auto)

lemma reading_stream:
  assumes "reading attempt i sv sv' segs ra rd" and "prefix x (log_of i ra sv')"
  shows "log_stream i sv' (segs @ [(ra, x)])"
  using assms by (auto simp: reading_def log_stream_snoc split: if_splits)

lemma reading_on:
  assumes "sys_init sv0" and "(sys_step decode)\<^sup>*\<^sup>* sv0 sv" and "(sys_step decode)\<^sup>*\<^sup>* sv w" and "(sys_step decode)\<^sup>*\<^sup>* w sv'"
    and "arrived_in_order i sv'" and "reading attempt i sv sv' segs ra rd"
    and "find (\<lambda>k. j_id k = i) (t_jobs (st (sv_sched w))) = Some j" and a: "a = (if 0 < attempt then attempt else j_attempt j)"
  shows "ra = 0 \<or> ra = a \<Longrightarrow> reading attempt i w sv' segs a (stored i a (st (sv_sched w))) \<and> prefix rd (stored i a (st (sv_sched w)))"
    and "ra \<noteq> 0 \<Longrightarrow> ra \<noteq> a \<Longrightarrow> reading attempt i w sv' (segs @ [(ra, concat (map lc_data rd))]) a []"
proof -
  note r = assms(6) [unfolded reading_def]
  have w: "(sys_step decode)\<^sup>*\<^sup>* sv0 w" using assms(2,3) by simp
  have row: "j \<in> set (t_jobs (st (sv_sched w)))" "j_id j = i" using assms(7) by (auto simp: find_Some_iff)
  have "0 \<le> j_attempt j" using reach_inv(1) [OF assms(1) w] row(1) by (auto simp: store_inv_def base_def job_wf_def)
  then have a0: "0 \<le> a" using a by simp
  have none: "stored i 0 (st (sv_sched w)) = []"
    using arrived_earlier [OF assms(1) w assms(4,5)] by (auto simp: arrived_in_order_def stored_def filter_empty_conv)
  have pre: "prefix rd (stored i ra (st (sv_sched w)))" using r stored_grow [OF assms(1-3), of i ra] prefix_order.trans by blast
  have job: "if 0 < attempt then a = attempt else \<exists>k \<in> set (t_jobs (st (sv_sched w))). j_id k = i \<and> a \<le> j_attempt k"
    using a row by auto
  show "reading attempt i w sv' segs a (stored i a (st (sv_sched w))) \<and> prefix rd (stored i a (st (sv_sched w)))" if "ra = 0 \<or> ra = a"
    using that r none job a0 pre by (auto simp: reading_def split: if_splits)
  show "reading attempt i w sv' (segs @ [(ra, concat (map lc_data rd))]) a []" if ne: "ra \<noteq> 0" "ra \<noteq> a"
  proof -
    have cur: "\<not> 0 < attempt" using r ne a by (auto split: if_splits)
    then obtain k where k: "k \<in> set (t_jobs (st (sv_sched sv)))" "j_id k = i" "ra \<le> j_attempt k" using r ne(1) by auto
    have "j_attempt k \<le> j_attempt j" using job_later [OF assms(1-3) k(1)] assms(7) k(2) by simp
    then have lt: "ra < a" using k(3) a cur ne(2) by simp
    have "prefix (concat (map lc_data rd)) (log_of i ra sv')"
      using prefix_data [OF prefix_order.trans [OF pre stored_grow [OF assms(1) w assms(4)]]] by (simp add: log_of_def)
    then have "log_stream i sv' (segs @ [(ra, concat (map lc_data rd))])" by (rule reading_stream [OF assms(6)])
    moreover have "0 < ra" "\<forall>(b, x) \<in> set segs. b < ra" using r ne(1) by auto
    ultimately show ?thesis using lt cur job by (auto simp: reading_def)
  qed
qed

lemma printed_at:
  assumes "reading attempt i sv sv' segs a rd" and "prefix x (log_of i a sv')" and "0 < attempt \<Longrightarrow> a = 0 \<Longrightarrow> x = []"
    and "r = Some CommandOK \<Longrightarrow> \<exists>t \<in> set ts. \<exists>w j. po_second t = Inr w \<and>
      find (\<lambda>k. j_id k = i) (t_jobs (st (sv_sched w))) = Some j \<and> a = (if 0 < attempt then attempt else j_attempt j) \<and>
      x = log_of i a w \<and>
      (follow \<longrightarrow> (\<exists>v. po_first t = Inr v \<and> (\<exists>j \<in> set (t_jobs (st (sv_sched v))). j_id j = i \<and> isTerminal (j_state j))))"
  shows "printed attempt i ts sv' follow r (concat (map snd segs) @ x)"
  unfolding printed_def using reading_stream [OF assms(1,2)] assms
  by (intro exI [of _ segs] exI [of _ a] exI [of _ x]) (auto simp: reading_def split: if_splits)

lemma cli_GetJob_row:
  "cli_GetJob token i w = Inr j \<Longrightarrow> \<exists>sv. w = Inr sv \<and> j \<in> set (t_jobs (st (sv_sched sv))) \<and> j_id j = i"
  by (auto simp: cli_GetJob_def ask_def api_answer_def withToken_def handleGetJob_def GetJob_def find_Some_iff
      split: sum.splits if_splits option.splits)

lemma logs_loop_reads:
  assumes "sys_init sv0" and "arrived_in_order i sv'"
    and "logs_loop follow (\<lambda>w. map_sum id (\<lambda>j. job_name (j_state j)) (cli_GetJob token i w)) (cli_GetLogs token i attempt) ts
      (cursor lc_seq rd) ra (concat (map snd segs) @ concat (map lc_data rd)) = (r, out)"
    and "(sys_step decode)\<^sup>*\<^sup>* sv0 sv" and "in_history decode sv ts sv'" and "reading attempt i sv sv' segs ra rd"
  shows "printed attempt i ts sv' follow r out"
  using assms(3-6)
proof (induction ts arbitrary: sv segs ra rd)
  case Nil
  have "(sys_step decode)\<^sup>*\<^sup>* sv sv'" using Nil.prems(3) by (auto simp: in_history_def)
  then have "prefix (concat (map lc_data rd)) (log_of i ra sv')"
    using Nil.prems(2,4) stored_grow [OF assms(1) Nil.prems(2), of sv' i ra]
    by (auto simp: reading_def log_of_def intro!: prefix_data elim: prefix_order.trans)
  from printed_at [OF Nil.prems(4) this, of None "[]" follow] Nil.prems(1,4) show ?case by (simp add: reading_def split: if_splits)
next
  case (Cons t ts)
  let ?job = "\<lambda>w. map_sum id (\<lambda>j. job_name (j_state j)) (cli_GetJob token i w)"
  let ?out = "concat (map snd segs) @ concat (map lc_data rd)" and ?get = "cli_GetLogs token i attempt (po_second t) (cursor lc_seq rd)"
  define got where "got = (if follow then map_sum id jobTerminal (?job (po_first t)) else Inr False)"
  note step = Cons.prems(1) [unfolded logs_loop.simps, folded got_def]
  note hist = in_history_Cons [OF Cons.prems(3)]
  have sv': "(sys_step decode)\<^sup>*\<^sup>* sv sv'" using Cons.prems(3) by (auto simp: in_history_def)
  have old: "prefix (concat (map lc_data rd)) (log_of i ra sv')"
    using Cons.prems(4) stored_grow [OF assms(1) Cons.prems(2) sv', of i ra]
    by (auto simp: reading_def log_of_def intro!: prefix_data elim: prefix_order.trans)
  have stop: "printed attempt i (t # ts) sv' follow r ?out" if "r \<noteq> Some CommandOK"
    by (rule printed_at [OF Cons.prems(4) old]) (use Cons.prems(4) that in \<open>simp_all add: reading_def\<close>)
  show ?case
  proof (cases "\<exists>terminal l. got = Inr terminal \<and> ?get = Inr l")
    case False
    then have "r \<noteq> Some CommandOK \<and> out = ?out" using step by (auto split: sum.splits)
    with stop show ?thesis by simp
  next
    case True
    then obtain terminal l where ok: "got = Inr terminal" "?get = Inr l" by blast
    from cli_logs_attempt [OF ok(2)] obtain b j where b: "po_second t = Inr b"
      and j: "find (\<lambda>k. j_id k = i) (t_jobs (st (sv_sched b))) = Some j" and la: "lr_attempt l = (if 0 < attempt then attempt else j_attempt j)" .
    note on = reading_on [OF assms(1) Cons.prems(2) hist(2,3) [OF b] assms(2) Cons.prems(4) j la]
    have reach: "(sys_step decode)\<^sup>*\<^sup>* sv0 b" using Cons.prems(2) hist(2) [OF b] by simp
    show ?thesis
    proof (cases "ra \<noteq> 0 \<and> lr_attempt l \<noteq> ra")
      case True
      let ?segs = "segs @ [(ra, concat (map lc_data rd))]"
      have "logs_loop follow ?job (cli_GetLogs token i attempt) ts (cursor lc_seq []) (lr_attempt l) (concat (map snd ?segs) @ concat (map lc_data [])) = (r, out)"
        using step True ok by (simp add: cursor_def)
      from Cons.IH [OF this reach hist(5) [OF b]] on(2) True show ?thesis by (auto intro: printed_Cons)
    next
      case False
      then have new: "reading attempt i b sv' segs (lr_attempt l) (stored i (lr_attempt l) (st (sv_sched b)))"
        "prefix rd (stored i (lr_attempt l) (st (sv_sched b)))" using on(1) by auto
      obtain page where page: "stored i (lr_attempt l) (st (sv_sched b)) = rd @ page" "map snd (lr_chunks l) = map lc_data page"
        "length (lr_chunks l) = length page" "lr_next l = cursor lc_seq (rd @ page)"
        by (rule cli_logs_page [OF arrived_earlier [OF assms(1) reach hist(3) [OF b] assms(2)] _ new(2), of token attempt]) (use ok(2) b in auto)
      have whole: "concat (map lc_data (rd @ page)) = log_of i (lr_attempt l) b" using page(1) by (simp add: log_of_def)
      have upto: "prefix (concat (map lc_data (rd @ take n page))) (log_of i (lr_attempt l) sv')" for n
      proof -
        have "prefix (rd @ take n page) (stored i (lr_attempt l) (st (sv_sched b)))" unfolding page(1) by (simp add: take_is_prefix)
        then show ?thesis unfolding log_of_def by (intro prefix_data prefix_order.trans [OF _ stored_grow [OF assms(1) reach hist(3) [OF b]]])
      qed
      have done_at: "printed attempt i (t # ts) sv' follow r (concat (map snd segs) @ concat (map lc_data (rd @ take n page)))"
        if "r = Some CommandOK \<Longrightarrow> (\<not> follow \<or> terminal) \<and> take n page = page" for n
      proof -
        have over: "\<exists>v. po_first t = Inr v \<and> (\<exists>j \<in> set (t_jobs (st (sv_sched v))). j_id j = i \<and> isTerminal (j_state j))" if "follow" "terminal"
        proof -
          from ok(1) that obtain q where q: "cli_GetJob token i (po_first t) = Inr q" "isTerminal (j_state q)"
            by (cases "cli_GetJob token i (po_first t)") (auto simp: got_def)
          from cli_GetJob_row [OF q(1)] q(2) show ?thesis by blast
        qed
        show ?thesis by (rule printed_at [OF new(1) upto]) (use la that over b whole j in auto)
      qed
      let ?fail = "case po_write t of Some n \<Rightarrow> if n < length (lr_chunks l) then Some n else None | None \<Rightarrow> None"
      have cs: "concat (map snd (lr_chunks l)) = concat (map lc_data page)" "lr_chunks l = [] \<longleftrightarrow> page = []" using page(2,3) by auto
      have cut: "concat (map snd (take n (lr_chunks l))) = concat (map lc_data (take n page))" for n using page(2) by (simp add: take_map [symmetric])
      show ?thesis
      proof (cases ?fail)
        case (Some n)
        then have "r \<noteq> Some CommandOK \<and> out = concat (map snd segs) @ concat (map lc_data (rd @ take n page))"
          using step ok False cut by (auto simp: Let_def)
        with done_at [of n] show ?thesis by simp
      next
        case None
        have next_turn: "(if \<not> follow \<or> terminal \<and> page = [] then (Some CommandOK, ?out @ concat (map lc_data page))
            else if po_interrupted t then (Some (CommandErr Canceled), ?out @ concat (map lc_data page))
            else logs_loop follow ?job (cli_GetLogs token i attempt) ts (cursor lc_seq (rd @ page)) (lr_attempt l) (?out @ concat (map lc_data page))) = (r, out)"
          using step ok False None cs page(4) by (simp only: sum.case if_False Let_def option.case simp_thms)
        show ?thesis
        proof (cases "\<not> follow \<or> terminal \<and> page = [] \<or> po_interrupted t")
          case True
          with next_turn have "out = concat (map snd segs) @ concat (map lc_data (rd @ take (length page) page))" "r = Some CommandOK \<Longrightarrow> \<not> follow \<or> terminal"
            by (auto split: if_splits)
          with done_at [of "length page"] show ?thesis by simp
        next
          case go: False
          then have "(\<not> follow \<or> terminal \<and> page = []) = False" "po_interrupted t = False" by auto
          with next_turn have "logs_loop follow ?job (cli_GetLogs token i attempt) ts (cursor lc_seq (rd @ page)) (lr_attempt l)
              (concat (map snd segs) @ concat (map lc_data (rd @ page))) = (r, out)" by (simp only: if_False) simp
          from Cons.IH [OF this reach hist(5) [OF b]] new(1) page(1) show ?thesis by (auto intro: printed_Cons)
        qed
      qed
    qed
  qed
qed

text \<open>
  C29. Following a log. Let the requests of \<open>logs\<close> meet the server in one of its histories, in which the chunks of the
  job arrived in order, as a shipper sends them. What was printed is, for one attempt after another, the beginning of its log:
  nothing twice, nothing left out in between. When the command ends in order, what it printed last
  is all of the log that the attempt asked for (without \<open>--attempt\<close>: the attempt the job was at) had at the
  last request; with \<open>-f\<close> the job was finished before that request. With \<open>--attempt\<close> only that attempt is printed.
\<close>

theorem logs_follow:
  assumes "sys_init sv0" and "in_history decode sv0 ts sv'" and "arrived_in_order i sv'" and "logsCmd token follow attempt i ts = (r, out)"
  shows "\<exists>segs a x. out = concat (map snd segs) @ x \<and> sorted_wrt (<) (map fst segs @ [a]) \<and>
    (\<forall>(b, y) \<in> set (segs @ [(a, x)]). prefix y (log_of i b sv')) \<and> (0 < attempt \<longrightarrow> segs = [] \<and> (x \<noteq> [] \<longrightarrow> a = attempt)) \<and>
    (r = Some CommandOK \<longrightarrow> (\<exists>t \<in> set ts. \<exists>w j. po_second t = Inr w \<and>
       find (\<lambda>k. j_id k = i) (t_jobs (st (sv_sched w))) = Some j \<and> a = (if 0 < attempt then attempt else j_attempt j) \<and>
       x = log_of i a w \<and>
       (follow \<longrightarrow> (\<exists>v. po_first t = Inr v \<and> (\<exists>j \<in> set (t_jobs (st (sv_sched v))). j_id j = i \<and> isTerminal (j_state j))))))"
proof -
  have "reading attempt i sv0 sv' [] 0 []" by (simp add: reading_def log_stream_def)
  moreover have "logs_loop follow (\<lambda>w. map_sum id (\<lambda>j. job_name (j_state j)) (cli_GetJob token i w)) (cli_GetLogs token i attempt) ts
      (cursor lc_seq []) 0 (concat (map snd []) @ concat (map lc_data [])) = (r, out)"
    using assms(4) by (simp add: logsCmd_def cursor_def)
  ultimately have "printed attempt i ts sv' follow r out"
    using logs_loop_reads [OF assms(1,3) _ rtranclp.rtrancl_refl assms(2)] by blast
  then show ?thesis unfolding printed_def log_stream_def by simp
qed


section \<open>Examples\<close>

text \<open>The example execution goes on: the job's log is stored, the job succeeds, and in another history the run is cancelled.\<close>

definition demo_logged :: server where
  "demo_logged = snd (withToken demo_sv4 demo_header (handleAppendLogs ''4'' (BodyOK (''r1'', 2, [(1, ''ab''), (2, ''c'')]))))"

definition demo_cancelled :: server where
  "demo_cancelled = snd (withToken demo_sv5 demo_header (handleCancelRun ''0''))"

definition at_once :: "server \<Rightarrow> world poll" where
  "at_once sv = \<lparr>po_first = Inr sv, po_second = Inr sv, po_write = None, po_interrupted = False\<rparr>"

lemma demo_history:
  "in_history demo_decode demo_sv0 [at_once demo_logged] demo_logged"
  "in_history demo_decode demo_sv0 [at_once demo_cancelled] demo_cancelled"
proof -
  have steps: "sys_step demo_decode demo_sv4 demo_logged" "sys_step demo_decode demo_sv5 demo_cancelled"
    unfolding demo_logged_def demo_cancelled_def by (rule do_logs do_cancel, rule surjective_pairing)+
  then have "(sys_step demo_decode)\<^sup>*\<^sup>* demo_sv0 demo_logged" "(sys_step demo_decode)\<^sup>*\<^sup>* demo_sv0 demo_cancelled"
    using demo_reach(4,5) by (auto intro: rtranclp.rtrancl_into_rtrancl)
  with steps demo_reach(5) show "in_history demo_decode demo_sv0 [at_once demo_logged] demo_logged"
    "in_history demo_decode demo_sv0 [at_once demo_cancelled] demo_cancelled"
    by (auto simp: in_history_def moments_def met_def at_once_def)
qed

lemma demo_logs:
  "(logsCmd ''token'' False 0 ''4'' [at_once demo_logged], map (\<lambda>c. (lc_job_id c, lc_attempt c, lc_seq c)) (t_chunks (st (sv_sched demo_logged)))) =
   ((Some CommandOK, ''abc''), [(''4'', 2, 1), (''4'', 2, 2)])"
  by code_simp

lemma token_kept:
  "sv_token (snd (handleClaim b sv)) = sv_token sv" "sv_token (snd (handleComplete i c sv)) = sv_token sv"
  "sv_token (snd (handleCancelRun i sv)) = sv_token sv" "snd (withToken sv h f) = (if requireToken (sv_token sv) h then snd (f sv) else sv)"
  by (simp_all add: handleClaim_def handleComplete_def handleCancelRun_def withToken_def split: sum.splits prod.splits if_splits option.splits)

lemma demo_header_ok: "requireToken ''token'' demo_header"
  by code_simp

lemma demo_token: "sv_token demo_sv5 = ''token''"
proof -
  have "sv_token demo_sv1 = ''token''"
    by (simp add: demo_sv1_code demo_sv0_def split: prod.splits sum.splits)
  then show ?thesis by (simp add: demo_sv5_def demo_sv4_def demo_sv3_def demo_sv2_def token_kept demo_header_ok)
qed

lemma demo_cancelled_run:
  obtains out where "find (\<lambda>r. r_id r = ''0'') (t_runs (st (sv_sched demo_cancelled))) = Some out" and "run_over (r_state out)"
proof -
  obtain r where r: "r \<in> set (t_runs (st (sv_sched demo_sv5)))" "r_id r = ''0''" "r_state r = RunRunning" by (rule demo_run)
  then have "\<not> run_over (r_state r)" "\<not> cancel_logged (r_id r) (st (sv_sched demo_sv5))" using demo_not_cancelled by (simp_all add: run_over_def)
  then obtain out sc where c: "CancelRun (sv_sched demo_sv5) (r_id r) = (Inr out, sc)"
    "list_all2 (\<lambda>j j'. if j_run_id j = r_id r then cancelled j j' else j' = j) (t_jobs (st (sv_sched demo_sv5))) (t_jobs (st sc))"
    "find (\<lambda>q. r_id q = r_id r) (t_runs (st sc)) = Some out" "cancel_logged (r_id r) (st sc)" "store_inv (st sc)" "tables_ok (st sc)"
    by (rule CancelRun_run [OF demo_sv0_init demo_reach(5) r(1)])
  then have "sv_sched demo_cancelled = sc"
    using demo_token r(2) by (simp add: demo_cancelled_def withToken_def demo_header_ok handleCancelRun_def ListJobs_def tx_simps)
  with that c(3) r(2) CancelRun_closes(2) [OF c(5,3,2)] demo_idle show thesis by simp
qed

lemma demo_cancelled_token: "sv_token demo_cancelled = ''token''"
  by (simp add: demo_cancelled_def token_kept demo_token demo_header_ok)

theorem watch_verdict_witness:
  "\<exists>x out. watchCmd ''token'' (\<lambda>_ _. ''table'') ''0'' [at_once demo_cancelled] = (Some x, out) \<and> (\<exists>run \<in> set (t_runs (st (sv_sched demo_cancelled))).
     r_id run = ''0'' \<and> run_over (r_state run) \<and> Main_exit x = (if r_state run = RunSucceeded then 0 else 1))"
proof -
  obtain run where run: "find (\<lambda>r. r_id r = ''0'') (t_runs (st (sv_sched demo_cancelled))) = Some run" "run_over (r_state run)"
    by (rule demo_cancelled_run)
  have "requireToken ''token'' (Some (''Bearer '' @ ''token''))" by code_simp
  then obtain js where "cli_GetRun ''token'' ''0'' (Inr demo_cancelled) = Inr (run, js)"
    using run(1) demo_cancelled_token
    by (simp add: cli_GetRun_def ask_def api_answer_def withToken_def handleGetRun_def GetRun_def ListJobs_def tx_simps)
  then obtain x out where w: "watchCmd ''token'' (\<lambda>_ _. ''table'') ''0'' [at_once demo_cancelled] = (Some x, out)" "\<forall>e. x \<noteq> CommandErr e"
    using run(2) by (simp add: watchCmd_def at_once_def)
  from watch_verdict [OF demo_sv0_init demo_history(2) w(1)] w show ?thesis by (cases x) auto
qed

theorem events_follow_witness:
  "\<exists>r out. eventsCmd ''token'' True ''0'' [at_once demo_logged] = (r, out) \<and> prefix out (run_events ''0'' demo_logged)"
  using events_follow [OF demo_sv0_init demo_history(1) surjective_pairing] surjective_pairing by blast

theorem logs_follow_witness:
  "logsCmd ''token'' False 0 ''4'' [at_once demo_logged] = (Some CommandOK, ''abc'') \<and>
   (\<exists>(segs :: (int \<times> string) list) a x. ''abc'' = concat (map snd segs) @ x \<and> x = log_of ''4'' a demo_logged)"
proof -
  let ?s = "st (sv_sched demo_logged)"
  have run: "logsCmd ''token'' False 0 ''4'' [at_once demo_logged] = (Some CommandOK, ''abc'')"
    and chunks: "map (\<lambda>c. (lc_job_id c, lc_attempt c, lc_seq c)) (t_chunks ?s) = [(''4'', 2, 1), (''4'', 2, 2)]" using demo_logs by simp_all
  then obtain c1 c2 where c: "t_chunks ?s = [c1, c2]" "lc_attempt c1 = 2" "lc_attempt c2 = 2" "lc_seq c1 = 1" "lc_seq c2 = 2"
    by (auto simp: map_eq_Cons_conv)
  then have "arrived_in_order ''4'' demo_logged" by (auto simp: arrived_in_order_def stored_def)
  from logs_follow [OF demo_sv0_init demo_history(1) this run] obtain segs :: "(int \<times> string) list" and a x where
    "''abc'' = concat (map snd segs) @ x" and "\<exists>t \<in> set [at_once demo_logged]. \<exists>w. po_second t = Inr w \<and> x = log_of ''4'' a w" by blast
  then have "x = log_of ''4'' a demo_logged" by (simp add: at_once_def)
  with \<open>''abc'' = concat (map snd segs) @ x\<close> run show ?thesis by blast
qed

end
