(* ===== verification/Workspace.thy ===== *)
theory Workspace
  imports Cli
begin

text \<open>
  The files on the client's side: the bundle of a workspace (internal/cli/bundle.go), the body a submission
  sends and what the server makes of it, and the download of artifacts (cli.go, client.go).
\<close>


section \<open>bundle.go\<close>

text \<open>
  A workspace: a file with what reading it gives, a directory with its entries in any order, a directory that
  cannot be read, a symbolic link with its target, or something else (a socket, a device, a pipe).
\<close>

datatype node = FileNode "char list option" | DirNode "(string \<times> node) list" | LockedDir | LinkNode string | SpecialNode

datatype entry_kind = EntryDir | EntryFile "char list" | EntryLink string

record bundle_entry =
  be_path :: "string list"
  be_kind :: entry_kind

lemma size_entry: "(n, nd) \<in> set es \<Longrightarrow> size nd < Suc (size_list (size_prod (\<lambda>_. 0) size) es)"
  by (induction es) auto

lemma size_subdir:
  "(n, DirNode sub) \<in> set es \<Longrightarrow> size_list (size_prod (\<lambda>_. 0) size) sub < size_list (size_prod (\<lambda>_. 0) size) es"
  using size_entry [of n "DirNode sub" es] by simp

text \<open>
  \<open>WalkDir\<close> visits the entries of a directory in the order of their names, a directory before what is in it. An
  entry named \<open>.git\<close> is left out with all below it.
\<close>

function bundle_walk :: "string list \<Rightarrow> (string \<times> node) list \<Rightarrow> bundle_entry list" where
  "bundle_walk path es = concat (map (\<lambda>(n, nd).
     if n = ''.git'' then []
     else case nd of
       FileNode c \<Rightarrow> (case c of Some b \<Rightarrow> [\<lparr>be_path = path @ [n], be_kind = EntryFile b\<rparr>] | None \<Rightarrow> [])
     | LinkNode t \<Rightarrow> [\<lparr>be_path = path @ [n], be_kind = EntryLink t\<rparr>]
     | SpecialNode \<Rightarrow> []
     | LockedDir \<Rightarrow> [\<lparr>be_path = path @ [n], be_kind = EntryDir\<rparr>]
     | DirNode sub \<Rightarrow> \<lparr>be_path = path @ [n], be_kind = EntryDir\<rparr> # bundle_walk (path @ [n]) sub) (sort_key fst es))"
  by pat_completeness auto
termination
  by (relation "measure (\<lambda>(path, es). size_list (size_prod (\<lambda>_. 0) size) es)") (auto dest: size_subdir)

declare bundle_walk.simps [simp del]

text \<open>A file that cannot be opened and a directory that cannot be listed end the walk with an error.\<close>

function unreadable :: "(string \<times> node) list \<Rightarrow> bool" where
  "unreadable es = list_ex (\<lambda>(n, nd). n \<noteq> ''.git'' \<and>
     (case nd of FileNode c \<Rightarrow> c = None | LockedDir \<Rightarrow> True | DirNode sub \<Rightarrow> unreadable sub | _ \<Rightarrow> False)) es"
  by pat_completeness auto
termination
  by (relation "measure (size_list (size_prod (\<lambda>_. 0) size))") (auto dest: size_subdir)

declare unreadable.simps [simp del]

definition entry_name :: "string list \<Rightarrow> entry_kind \<Rightarrow> string" where
  "entry_name path k = join_slash path @ (if k = EntryDir then ''/'' else [])"

text \<open>The root itself is no entry; a root that is not a directory has none below it.\<close>

definition Bundle :: "node option \<Rightarrow> cli_err + (string \<times> entry_kind) list" where
  "Bundle dir = (case dir of
     None \<Rightarrow> Inl (LocalErr ''bundle'')
   | Some LockedDir \<Rightarrow> Inl (LocalErr ''bundle'')
   | Some (DirNode es) \<Rightarrow>
       if unreadable es then Inl (LocalErr ''bundle'')
       else Inr (map (\<lambda>e. (entry_name (be_path e) (be_kind e), be_kind e)) (bundle_walk [] es))
   | Some _ \<Rightarrow> Inr [])"


section \<open>What a bundle holds\<close>

text \<open>The node at a path of a workspace, \<open>.git\<close> apart, and what it is in a bundle.\<close>

fun node_at :: "string list \<Rightarrow> node \<Rightarrow> node option" where
  "node_at [] nd = Some nd"
| "node_at (n # ns) (DirNode es) = (if n = ''.git'' then None else Option.bind (map_of es n) (node_at ns))"
| "node_at (n # ns) _ = None"

fun shown :: "node \<Rightarrow> entry_kind option" where
  "shown (FileNode c) = map_option EntryFile c"
| "shown (DirNode es) = Some EntryDir"
| "shown LockedDir = Some EntryDir"
| "shown (LinkNode t) = Some (EntryLink t)"
| "shown SpecialNode = None"

text \<open>A tree as a file system has it: the names in a directory are distinct.\<close>

function tree_ok :: "(string \<times> node) list \<Rightarrow> bool" where
  "tree_ok es \<longleftrightarrow> distinct (map fst es) \<and> list_all (\<lambda>(n, nd). case nd of DirNode sub \<Rightarrow> tree_ok sub | _ \<Rightarrow> True) es"
  by pat_completeness auto
termination
  by (relation "measure (size_list (size_prod (\<lambda>_. 0) size))") (auto dest: size_subdir)

declare tree_ok.simps [simp del]

lemma tree_ok_sub: "tree_ok es \<Longrightarrow> (n, DirNode sub) \<in> set es \<Longrightarrow> tree_ok sub"
  by (subst (asm) tree_ok.simps) (auto simp: list_all_iff)

lemma tree_ok_map_of: "tree_ok es \<Longrightarrow> map_of es n = Some nd \<longleftrightarrow> (n, nd) \<in> set es"
  by (subst (asm) tree_ok.simps) auto

definition walk_entry :: "string list \<Rightarrow> string \<times> node \<Rightarrow> bundle_entry list" where
  "walk_entry path x = (case x of (n, nd) \<Rightarrow>
     if n = ''.git'' then []
     else map (\<lambda>k. \<lparr>be_path = path @ [n], be_kind = k\<rparr>) (case shown nd of None \<Rightarrow> [] | Some k \<Rightarrow> [k]) @
       (case nd of DirNode sub \<Rightarrow> bundle_walk (path @ [n]) sub | _ \<Rightarrow> []))"

lemma bundle_walk_entries: "bundle_walk path es = concat (map (walk_entry path) (sort_key fst es))"
  unfolding bundle_walk.simps [of path es]
  by (intro arg_cong [where f = concat] map_cong refl) (auto simp: walk_entry_def split: node.splits option.splits)

lemma node_at_leaf: "\<nexists>es. nd = DirNode es \<Longrightarrow> node_at q nd = (if q = [] then Some nd else None)"
  by (cases q; cases nd) auto

lemma ex_path: "(\<exists>q. p = path @ n # q \<and> P q) \<longleftrightarrow> p = path @ [n] \<and> P [] \<or> (\<exists>q. q \<noteq> [] \<and> p = path @ n # q \<and> P q)"
  (is "?l \<longleftrightarrow> ?r")
proof
  assume ?l
  then obtain q where "p = path @ n # q \<and> P q" ..
  then show ?r by (cases "q = []") auto
qed auto

lemma walk_exact:
  assumes "tree_ok es"
  shows "e \<in> set (bundle_walk path es) \<longleftrightarrow>
    (\<exists>q. q \<noteq> [] \<and> be_path e = path @ q \<and> Option.bind (node_at q (DirNode es)) shown = Some (be_kind e))"
  using assms
proof (induction path es arbitrary: e rule: bundle_walk.induct)
  case (1 path es)
  have sub: "e \<in> set (bundle_walk (path @ [n]) sub) \<longleftrightarrow>
      (\<exists>q. q \<noteq> [] \<and> be_path e = path @ n # q \<and> Option.bind (node_at q (DirNode sub)) shown = Some (be_kind e))"
    if "n \<noteq> ''.git''" "(n, DirNode sub) \<in> set es" for n sub
    using "1.IH" [of "(n, DirNode sub)" n "DirNode sub" sub e] that tree_ok_sub [OF "1.prems" that(2)] by simp
  have one: "e \<in> set (walk_entry path (n, nd)) \<longleftrightarrow> n \<noteq> ''.git'' \<and>
      (\<exists>q. be_path e = path @ n # q \<and> Option.bind (node_at q nd) shown = Some (be_kind e))" if "(n, nd) \<in> set es" for n nd
  proof (cases "\<exists>sub. nd = DirNode sub")
    case True
    then obtain es' where nd: "nd = DirNode es'" by blast
    have "(\<exists>q. be_path e = path @ n # q \<and> Option.bind (node_at q nd) shown = Some (be_kind e)) \<longleftrightarrow>
        be_path e = path @ [n] \<and> EntryDir = be_kind e \<or>
        (\<exists>q. q \<noteq> [] \<and> be_path e = path @ n # q \<and> Option.bind (node_at q nd) shown = Some (be_kind e))"
      unfolding ex_path by (simp add: nd)
    then show ?thesis using sub [of n es'] that nd by (cases e) (auto simp: walk_entry_def)
  next
    case False
    then show ?thesis by (cases e) (auto simp: walk_entry_def node_at_leaf split: option.splits node.splits)
  qed
  have "e \<in> set (bundle_walk path es) \<longleftrightarrow> (\<exists>x \<in> set es. e \<in> set (walk_entry path x))"
    by (simp add: bundle_walk_entries)
  also have "\<dots> \<longleftrightarrow> (\<exists>n nd q. (n, nd) \<in> set es \<and> n \<noteq> ''.git'' \<and> be_path e = path @ n # q \<and>
      Option.bind (node_at q nd) shown = Some (be_kind e))"
    using one by (simp add: Bex_def split_paired_Ex cong: conj_cong) 
  also have "\<dots> \<longleftrightarrow> (\<exists>n q. be_path e = path @ n # q \<and> Option.bind (node_at (n # q) (DirNode es)) shown = Some (be_kind e))"
    by (simp add: tree_ok_map_of [OF "1.prems", symmetric] bind_eq_Some_conv) (meson option.distinct(1))
  also have "\<dots> \<longleftrightarrow> (\<exists>q. q \<noteq> [] \<and> be_path e = path @ q \<and> Option.bind (node_at q (DirNode es)) shown = Some (be_kind e))"
    by (simp only: neq_Nil_conv) fast
  finally show ?case .
qed

text \<open>The order of the entries: names in a directory, a directory before what it holds.\<close>

lemma sorted_wrt_concat_map:
  assumes "sorted_wrt (\<lambda>x y. \<forall>a \<in> set (f x). \<forall>b \<in> set (f y). R a b) xs" and "\<forall>x \<in> set xs. sorted_wrt R (f x)"
  shows "sorted_wrt R (concat (map f xs))"
  using assms by (induction xs) (auto simp: sorted_wrt_append)

lemma append_less_append: "path @ p < path @ q \<longleftrightarrow> p < q" for p q :: "'a :: linorder list"
  by (induction path) auto

lemma sort_key_strict:
  assumes "distinct (map fst es)"
  shows "sorted_wrt (\<lambda>x y. fst x < fst y) (sort_key fst es)"
proof -
  have "mset (map fst (sort_key fst es)) = mset (map fst es)" by (metis mset_map mset_sort)
  then have "distinct (map fst (sort_key fst es))" using assms mset_eq_imp_distinct_iff by blast
  then have "sorted_wrt (<) (map fst (sort_key fst es))" by (simp add: strict_sorted_iff)
  then show ?thesis by (simp add: sorted_wrt_map)
qed

lemma walk_sorted:
  assumes "tree_ok es"
  shows "sorted_wrt (\<lambda>a b. be_path a < be_path b) (bundle_walk path es)"
  using assms
proof (induction path es rule: bundle_walk.induct)
  case (1 path es)
  have names: "\<exists>q. be_path e = path @ n # q" if "e \<in> set (walk_entry path (n, nd))" "(n, nd) \<in> set es" for e n nd
    using that tree_ok_sub [OF "1.prems"] by (auto simp: walk_entry_def walk_exact split: if_splits option.splits node.splits)
  have "sorted_wrt (\<lambda>x y. \<forall>a \<in> set (walk_entry path x). \<forall>b \<in> set (walk_entry path y). be_path a < be_path b) (sort_key fst es)"
  proof (rule sorted_wrt_mono_rel [OF _ sort_key_strict])
    fix x y assume xy: "x \<in> set (sort_key fst es)" "y \<in> set (sort_key fst es)" "fst x < fst y"
    show "\<forall>a \<in> set (walk_entry path x). \<forall>b \<in> set (walk_entry path y). be_path a < be_path b"
    proof (intro ballI)
      fix a b assume "a \<in> set (walk_entry path x)" "b \<in> set (walk_entry path y)"
      then obtain q r where "be_path a = path @ fst x # q" "be_path b = path @ fst y # r"
        using names [of a "fst x" "snd x"] names [of b "fst y" "snd y"] xy by auto
      with xy(3) show "be_path a < be_path b" by (simp add: append_less_append)
    qed
  qed (use "1.prems" tree_ok.simps in blast)
  moreover have "sorted_wrt (\<lambda>a b. be_path a < be_path b) (walk_entry path (n, nd))" if "(n, nd) \<in> set es" for n nd
    using "1.IH" [of "(n, nd)" n nd] that tree_ok_sub [OF "1.prems"]
    by (auto simp: walk_entry_def walk_exact append_less_append neq_Nil_conv split: option.splits node.splits)
  ultimately show ?case unfolding bundle_walk_entries by (intro sorted_wrt_concat_map) auto
qed

definition broken :: "node \<Rightarrow> bool" where
  "broken nd \<longleftrightarrow> nd = FileNode None \<or> nd = LockedDir"

lemma unreadable_node:
  assumes "tree_ok es"
  shows "unreadable es \<longleftrightarrow> (\<exists>q nd. node_at q (DirNode es) = Some nd \<and> broken nd)"
  using assms
proof (induction es rule: unreadable.induct)
  case (1 es)
  have one: "(case nd of FileNode c \<Rightarrow> c = None | LockedDir \<Rightarrow> True | DirNode sub \<Rightarrow> unreadable sub | _ \<Rightarrow> False) \<longleftrightarrow>
      (\<exists>q x. node_at q nd = Some x \<and> broken x)" if "(n, nd) \<in> set es" "n \<noteq> ''.git''" for n nd
    using "1.IH" [of "(n, nd)" n nd] that tree_ok_sub [OF "1.prems", of n]
    by (cases nd) (auto simp: node_at_leaf broken_def)
  have "unreadable es \<longleftrightarrow> (\<exists>n nd. (n, nd) \<in> set es \<and> n \<noteq> ''.git'' \<and> (\<exists>q x. node_at q nd = Some x \<and> broken x))"
    unfolding unreadable.simps [of es] list_ex_iff using one by (fastforce split del: node.split)
  also have "\<dots> \<longleftrightarrow> (\<exists>n q x. node_at (n # q) (DirNode es) = Some x \<and> broken x)"
    by (auto simp: tree_ok_map_of [OF "1.prems"] bind_eq_Some_conv)
  also have "\<dots> \<longleftrightarrow> (\<exists>q x. node_at q (DirNode es) = Some x \<and> broken x)"
    by (metis broken_def neq_Nil_conv node.distinct(1,9) node_at.simps(1) option.inject)
  finally show ?case .
qed

lemma entry_of: "(q, k) \<in> set (map (\<lambda>e. (be_path e, be_kind e)) xs) \<longleftrightarrow> \<lparr>be_path = q, be_kind = k\<rparr> \<in> set xs"
proof (induction xs)
  case (Cons e xs)
  then show ?case by (cases e) auto
qed simp

text \<open>
  C32. What a submission carries. Bundling a directory fails exactly when a file or directory of it cannot be
  read; otherwise the entries are, in strictly ascending order of their paths, one for each file, directory
  and symbolic link under it that is not named \<open>.git\<close> or below such an entry, with a file's own bytes and a
  link's own target: so the bundle depends on the tree alone and not on the order its directories are stored in.
\<close>

theorem Bundle_exact:
  assumes "tree_ok es"
  shows "case Bundle (Some (DirNode es)) of
      Inl _ \<Rightarrow> \<exists>q nd. node_at q (DirNode es) = Some nd \<and> broken nd
    | Inr entries \<Rightarrow> (\<forall>q nd. node_at q (DirNode es) = Some nd \<longrightarrow> \<not> broken nd) \<and>
        (\<exists>ps. sorted_wrt (<) (map fst ps) \<and> entries = map (\<lambda>(q, k). (entry_name q k, k)) ps \<and>
          set ps = {(q, k). q \<noteq> [] \<and> Option.bind (node_at q (DirNode es)) shown = Some k})"
proof (cases "unreadable es")
  case True
  then show ?thesis using unreadable_node [OF assms] by (auto simp: Bundle_def)
next
  case False
  let ?ps = "map (\<lambda>e. (be_path e, be_kind e)) (bundle_walk [] es)"
  have sorted: "sorted_wrt (<) (map fst ?ps)" using walk_sorted [OF assms, of "[]"] by (simp add: sorted_wrt_map)
  have set: "set ?ps = {(q, k). q \<noteq> [] \<and> Option.bind (node_at q (DirNode es)) shown = Some k}"
  proof (rule set_eqI)
    fix x :: "string list \<times> entry_kind"
    obtain q k where x: "x = (q, k)" by fastforce
    show "x \<in> set ?ps \<longleftrightarrow> x \<in> {(q, k). q \<noteq> [] \<and> Option.bind (node_at q (DirNode es)) shown = Some k}"
      unfolding x entry_of by (simp add: walk_exact [OF assms])
  qed
  have readable: "\<forall>q nd. node_at q (DirNode es) = Some nd \<longrightarrow> \<not> broken nd" using False unreadable_node [OF assms] by blast
  have "Bundle (Some (DirNode es)) = Inr (map (\<lambda>(q, k). (entry_name q k, k)) ?ps)" using False by (simp add: Bundle_def)
  then show ?thesis by (simp only: sum.case) (intro conjI exI [of _ ?ps] readable sorted set refl)
qed

definition demo_workspace :: "(string \<times> node) list" where
  "demo_workspace = [(''src'', DirNode [(''b.go'', FileNode (Some ''B'')), (''a'', LinkNode ''../x'')]), (''.git'', DirNode [(''HEAD'', FileNode None)]),
     (''.quarry.yml'', FileNode (Some ''jobs:'')), (''sock'', SpecialNode)]"

theorem Bundle_exact_witness:
  "\<exists>ps. sorted_wrt (<) (map fst ps) \<and> map (\<lambda>(q, k). (entry_name q k, k)) ps =
     [(''.quarry.yml'', EntryFile ''jobs:''), (''src/'', EntryDir), (''src/a'', EntryLink ''../x''), (''src/b.go'', EntryFile ''B'')]"
proof -
  have "tree_ok demo_workspace" by code_simp
  moreover have "Bundle (Some (DirNode demo_workspace)) =
      Inr [(''.quarry.yml'', EntryFile ''jobs:''), (''src/'', EntryDir), (''src/a'', EntryLink ''../x''), (''src/b.go'', EntryFile ''B'')]"
    by code_simp
  ultimately show ?thesis using Bundle_exact [of demo_workspace] by (simp only: sum.case) metis
qed


section \<open>run: bundle and submit\<close>

text \<open>
  The body of a submission: the pipeline document and the bundle, in this order. It is made anew for every
  try, from the same bytes.
\<close>

definition multipartBody :: "string \<Rightarrow> char list \<Rightarrow> submit_body" where
  "multipartBody pipeline bundle =
     Multipart [PipelinePart \<lparr>rd_bytes = pipeline, rd_error = None\<rparr>, SourcePart \<lparr>rd_bytes = bundle, rd_error = None\<rparr>]"

text \<open>A try of a submission: the connection fails, or the server serves the request and its answer is lost or arrives.\<close>

datatype delivery = Refused | AnswerLost | Answered

record submit_try =
  su_ended :: bool
  su_delivery :: delivery
  su_server :: server
  su_ids :: "nat \<Rightarrow> string"
  su_interrupted :: bool

definition submit_once :: "(string \<Rightarrow> yaml_result) \<Rightarrow> string \<Rightarrow> submit_body \<Rightarrow> submit_try \<Rightarrow> cli_err + Run \<times> Job list" where
  "submit_once decode token body t =
     (case su_delivery t of
        Answered \<Rightarrow> ask token (handleSubmitRun decode (su_ids t) body) (Inr (su_server t))
      | _ \<Rightarrow> Inl ConnErr)"

definition cli_Submit :: "(string \<Rightarrow> yaml_result) \<Rightarrow> string \<Rightarrow> nat \<Rightarrow> int \<Rightarrow> submit_body \<Rightarrow> submit_try list
    \<Rightarrow> (cli_err + Run \<times> Job list) option" where
  "cli_Submit decode token retries backoff body ts =
     map_option fst (cli_retry retries (cli_delay backoff) 0
       (map (\<lambda>t. (su_ended t, submit_once decode token body t, su_interrupted t)) ts))"

text \<open>
  \<open>run\<close>: the pipeline file (\<open>None\<close> when it cannot be read), the workspace, the tries of the submission and the
  turns of \<open>--wait\<close>. How entries become a tar stream is a parameter.
\<close>

definition runCmd :: "((string \<times> entry_kind) list \<Rightarrow> char list) \<Rightarrow> (string \<Rightarrow> yaml_result) \<Rightarrow> string \<Rightarrow> nat \<Rightarrow> int \<Rightarrow>
    (Run \<Rightarrow> Job list \<Rightarrow> string) \<Rightarrow> string option \<Rightarrow> node option \<Rightarrow> submit_try list \<Rightarrow> bool \<Rightarrow> world poll list \<Rightarrow> command_end option \<times> string list" where
  "runCmd tar decode token retries backoff render file dir ts wait turns =
     (case file of
        None \<Rightarrow> (Some (CommandErr (LocalErr ''read'')), [])
      | Some pipeline \<Rightarrow>
          (case Bundle dir of
             Inl e \<Rightarrow> (Some (CommandErr e), [])
           | Inr entries \<Rightarrow>
               (case cli_Submit decode token retries backoff (multipartBody pipeline (tar entries)) ts of
                  None \<Rightarrow> (None, [])
                | Some (Inl e) \<Rightarrow> (Some (CommandErr e), [])
                | Some (Inr (run, js)) \<Rightarrow>
                    if \<not> wait then (Some CommandOK, [r_id run @ [CHR 10]])
                    else apsnd (Cons (r_id run @ [CHR 10])) (watchCmd token render (r_id run) turns))))"

text \<open>What a retried call returns is what one of its calls returned.\<close>

lemma cli_retry_Inr: "cli_retry retries delay failures ts = Some (Inr v, ws) \<Longrightarrow> \<exists>t \<in> set ts. fst (snd t) = Inr v"
proof (induction retries delay failures ts arbitrary: ws rule: cli_retry.induct)
  case (2 retries delay failures ended r interrupted ts)
  show ?case
  proof (cases r)
    case (Inl e)
    with 2 show ?thesis by (fastforce simp: Let_def split: if_splits)
  next
    case (Inr u)
    with 2(2) show ?thesis by (auto split: if_splits)
  qed
qed simp

lemma multipart_stored:
  assumes "read_submit R (multipartBody pipeline bundle) fs = (Inr src, put, fs')"
  shows "src = pipeline" and "local_Get (SourceKey R) fs' = Inr bundle"
proof -
  let ?r = "\<lparr>rd_bytes = bundle, rd_error = None\<rparr> :: reader"
  have short: "read_limit (Suc MaxPipelineBytes) \<lparr>rd_bytes = pipeline, rd_error = None\<rparr> = Inr pipeline"
    using assms by (auto simp: read_submit_def multipartBody_def read_limit_def split: if_splits)
  have "src = pipeline \<and> local_Put (SourceKey R) ?r (- 1) fs = (Inr (), fs')"
    using assms by (auto simp: read_submit_def multipartBody_def short split: if_splits sum.splits prod.splits art_error.splits)
  then show "src = pipeline" and "local_Get (SourceKey R) fs' = Inr bundle"
    using local_Put_file [of "SourceKey R" ?r "- 1" fs "split_slash (SourceKey R)"] local_Put_cases [of "SourceKey R" ?r "- 1" fs]
    by (auto simp: local_Get_Inr)
qed

text \<open>A submission that gets through: connections fail, then one try is answered 201 and the command still runs.\<close>

definition gets_through :: "(string \<Rightarrow> yaml_result) \<Rightarrow> string \<Rightarrow> submit_body \<Rightarrow> submit_try list \<Rightarrow> bool" where
  "gets_through decode token body ts \<longleftrightarrow> (\<exists>pre t post. ts = pre @ t # post \<and>
     (\<forall>u \<in> set pre. su_delivery u \<noteq> Answered \<and> \<not> su_ended u \<and> \<not> su_interrupted u) \<and> su_delivery t = Answered \<and> \<not> su_ended t \<and>
     token \<noteq> [] \<and> sv_token (su_server t) = token \<and> (\<exists>x. fst (handleSubmitRun decode (su_ids t) body (su_server t)) = (201, Some x)))"

lemma cli_retry_reaches:
  assumes "\<forall>u \<in> set pre. u = (False, Inl ConnErr, False)"
  shows "\<exists>ws. cli_retry retries delay failures (pre @ (False, Inr v, w) # post) = Some (Inr v, ws)"
  using assms by (induction pre arbitrary: delay) (auto simp: transient_def)

lemma Submit_gets_through:
  assumes "gets_through decode token body ts"
  shows "\<exists>x. cli_Submit decode token retries backoff body ts = Some (Inr x)"
proof -
  let ?f = "\<lambda>t. (su_ended t, submit_once decode token body t, su_interrupted t)"
  from assms obtain pre t post x where ts: "ts = pre @ t # post"
    and pre: "\<forall>u \<in> set pre. su_delivery u \<noteq> Answered \<and> \<not> su_ended u \<and> \<not> su_interrupted u"
    and t: "su_delivery t = Answered" "\<not> su_ended t" "token \<noteq> []" "sv_token (su_server t) = token"
      "fst (handleSubmitRun decode (su_ids t) body (su_server t)) = (201, Some x)" by (auto simp: gets_through_def)
  have "\<forall>u \<in> set (map ?f pre). u = (False, Inl ConnErr, False)" using pre by (auto simp: submit_once_def split: delivery.splits)
  moreover have "?f t = (False, Inr x, su_interrupted t)"
    using t by (simp add: submit_once_def ask_def withToken_def api_answer_def requireToken_iff)
  ultimately show ?thesis
    using cli_retry_reaches [of "map ?f pre" retries "cli_delay backoff" 0 x "su_interrupted t" "map ?f post"]
    by (auto simp: cli_Submit_def ts)
qed

text \<open>
  C33. A submitted workspace. \<open>run\<close> prints the id of a run only when one of its tries was answered 201, and never ends
  in order without; it does print it when a try gets through, after any number of failed connections. The first line is then the id of the new run, whose stored row carries the pipeline file as it was
  read, and what the server hands out as the source of the run is the bundle of the workspace, byte
  for byte. Without \<open>--wait\<close> the command ends there, in order; with it, it goes on and ends as \<open>watch\<close> of that run does.
\<close>

theorem run_submits:
  assumes "runCmd tar decode token retries backoff render file dir ts wait turns = (r, out)"
  shows "if out = [] then r \<noteq> Some CommandOK \<and> (\<forall>pipeline entries. file = Some pipeline \<and> Bundle dir = Inr entries \<longrightarrow>
        \<not> gets_through decode token (multipartBody pipeline (tar entries)) ts)
    else \<exists>t \<in> set ts. \<exists>pipeline entries run js sv'. file = Some pipeline \<and> Bundle dir = Inr entries \<and>
      handleSubmitRun decode (su_ids t) (multipartBody pipeline (tar entries)) (su_server t) = ((201, Some (run, js)), sv') \<and>
      hd out = r_id run @ [CHR 10] \<and> run \<in> set (t_runs (st (sv_sched sv'))) \<and> r_pipeline_yaml run = pipeline \<and>
      fst (handleGetSource (r_id run) sv') = (200, Some (tar entries)) \<and>
      (if wait then (r, tl out) = watchCmd token render (r_id run) turns else r = Some CommandOK \<and> tl out = [])"
proof (cases "out = []")
  case True
  with assms have "r \<noteq> Some CommandOK" by (auto simp: runCmd_def apsnd_def map_prod_def split: option.splits sum.splits if_splits prod.splits)
  moreover have "\<not> gets_through decode token (multipartBody pipeline (tar entries)) ts"
    if "file = Some pipeline" "Bundle dir = Inr entries" for pipeline entries
    using Submit_gets_through [of decode token "multipartBody pipeline (tar entries)" ts retries backoff] assms that True
    by (auto simp: runCmd_def apsnd_def map_prod_def split: if_splits prod.splits)
  ultimately show ?thesis using True by simp
next
  case False
  with assms obtain pipeline entries run js where
    f: "file = Some pipeline" "Bundle dir = Inr entries" "hd out = r_id run @ [CHR 10]"
    and sub: "cli_Submit decode token retries backoff (multipartBody pipeline (tar entries)) ts = Some (Inr (run, js))"
    and rest: "if wait then (r, tl out) = watchCmd token render (r_id run) turns else r = Some CommandOK \<and> tl out = []"
    by (auto simp: runCmd_def apsnd_def map_prod_def split: option.splits sum.splits if_splits prod.splits)
  let ?body = "multipartBody pipeline (tar entries)"
  from sub obtain t where t: "t \<in> set ts" "submit_once decode token ?body t = Inr (run, js)"
    by (auto simp: cli_Submit_def dest!: cli_retry_Inr)
  let ?sv = "su_server t"
  from t(2) have "\<exists>c. fst (handleSubmitRun decode (su_ids t) ?body ?sv) = (c, Some (run, js))"
    by (auto simp: submit_once_def ask_def api_answer_def withToken_def split: delivery.splits if_splits option.splits prod.splits)
  then obtain c sv' where h: "handleSubmitRun decode (su_ids t) ?body ?sv = ((c, Some (run, js)), sv')" by (metis prod.collapse)
  then have c: "c = 201" by (auto simp: handleSubmitRun_def Let_def split: prod.splits sum.splits read_error.splits)
  from h obtain src put p s' where read: "read_submit (su_ids t 0) ?body (sv_artifacts ?sv) = (Inr src, put, sv_artifacts sv')"
    and parse: "Parse decode src = Inr p" and s': "st (sv_sched sv') = s'"
    and run: "submitRun (su_ids t \<circ> Suc) (su_ids t 0) p src (maxAttempts (sv_sched ?sv)) (st (sv_sched ?sv)) = (Inr (run, js), s')"
    by (auto simp: handleSubmitRun_def Let_def split: prod.splits sum.splits read_error.splits)
  from parse obtain p0 where "finalize p0 = Inr p" by (auto simp: Parse_def split: yaml_result.splits)
  from submitRun_submitted [OF this run] have row: "run \<in> set (t_runs s')" "r_id run = su_ids t 0" "r_pipeline_yaml run = src"
    by (auto simp: run_row_def run_init_def)
  note got = multipart_stored [OF read]
  from row have "\<exists>r. fst (GetRun (r_id run) s') = Inr r"
    by (auto simp: GetRun_def tx_simps find_None_iff split: option.splits)
  with got(2) row(2) s' have "fst (handleGetSource (r_id run) sv') = (200, Some (tar entries))"
    by (auto simp: handleGetSource_def)
  with t(1) f h c row got(1) s' rest have "\<exists>t \<in> set ts. \<exists>pipeline entries run js sv'. file = Some pipeline \<and> Bundle dir = Inr entries \<and>
      handleSubmitRun decode (su_ids t) (multipartBody pipeline (tar entries)) (su_server t) = ((201, Some (run, js)), sv') \<and>
      hd out = r_id run @ [CHR 10] \<and> run \<in> set (t_runs (st (sv_sched sv'))) \<and> r_pipeline_yaml run = pipeline \<and>
      fst (handleGetSource (r_id run) sv') = (200, Some (tar entries)) \<and>
      (if wait then (r, tl out) = watchCmd token render (r_id run) turns else r = Some CommandOK \<and> tl out = [])" by blast
  with False show ?thesis by simp
qed

lemma demo_multipart:
  "\<exists>run js sv'. handleSubmitRun demo_decode demo_ids (multipartBody ''jobs'' ''tar'') demo_sv0 = ((201, Some (run, js)), sv')"
proof -
  have max: "maxAttempts (sv_sched demo_sv0) = 2" by (simp add: demo_sv0_def New_def Let_def or_default_def demo_cfg_def)
  have "fst (local_Put (SourceKey (demo_ids 0)) \<lparr>rd_bytes = ''tar'', rd_error = None\<rparr> (- 1) (sv_artifacts demo_sv0)) = Inr ()" by code_simp
  then obtain fs where "local_Put (SourceKey (demo_ids 0)) \<lparr>rd_bytes = ''tar'', rd_error = None\<rparr> (- 1) (sv_artifacts demo_sv0) = (Inr (), fs)"
    by (metis prod.collapse)
  then have read: "read_submit (demo_ids 0) (multipartBody ''jobs'' ''tar'') (sv_artifacts demo_sv0) = (Inr ''jobs'', True, fs)"
    by (simp add: read_submit_def multipartBody_def read_limit_def MaxPipelineBytes_def)
  obtain run js s where "demo_submit = (Inr (run, js), s)" by (rule demo_submission)
  then have "submitRun (demo_ids \<circ> Suc) (demo_ids 0) demo_final ''jobs'' 2 (st (sv_sched demo_sv0)) = (Inr (run, js), s)"
    by (simp add: demo_submit_def)
  moreover have "Parse demo_decode ''jobs'' = Inr demo_final" by (simp add: Parse_def demo_decode_def demo_finalize)
  ultimately show ?thesis by (simp add: handleSubmitRun_def read max)
qed

definition demo_try :: "delivery \<Rightarrow> submit_try" where
  "demo_try d = \<lparr>su_ended = False, su_delivery = d, su_server = demo_sv0, su_ids = demo_ids, su_interrupted = False\<rparr>"

theorem run_submits_witness:
  "\<exists>(run :: Run) (sv' :: server). runCmd (\<lambda>_. ''tar'') demo_decode ''token'' 2 0 (\<lambda>_ _. []) (Some ''jobs'') (Some (DirNode demo_workspace))
      [demo_try Refused, demo_try Answered] False [] = (Some CommandOK, [r_id run @ [CHR 10]]) \<and>
     r_pipeline_yaml run = ''jobs'' \<and> fst (handleGetSource (r_id run) sv') = (200, Some ''tar'')"
proof -
  let ?run = "runCmd (\<lambda>_. ''tar'') demo_decode ''token'' 2 0 (\<lambda>_ _. []) (Some ''jobs'') (Some (DirNode demo_workspace))
      [demo_try Refused, demo_try Answered] False []"
  have "\<not> unreadable demo_workspace" by code_simp
  then have es: "\<exists>es. Bundle (Some (DirNode demo_workspace)) = Inr es" by (simp add: Bundle_def)
  obtain run js sv' where h: "handleSubmitRun demo_decode demo_ids (multipartBody ''jobs'' ''tar'') demo_sv0 = ((201, Some (run, js)), sv')"
    using demo_multipart by blast
  have "requireToken (sv_token demo_sv0) (Some (''Bearer '' @ ''token''))" by code_simp
  then have "submit_once demo_decode ''token'' (multipartBody ''jobs'' ''tar'') (demo_try Answered) = Inr (run, js)"
    using h by (simp add: submit_once_def demo_try_def ask_def withToken_def api_answer_def)
  moreover have "submit_once demo_decode ''token'' (multipartBody ''jobs'' ''tar'') (demo_try Refused) = Inl ConnErr"
    by (simp add: submit_once_def demo_try_def)
  ultimately have ok: "?run = (Some CommandOK, [r_id run @ [CHR 10]])"
    using es by (auto simp: runCmd_def cli_Submit_def demo_try_def transient_def)
  from run_submits [OF ok] have "\<exists>(run' :: Run) pl (sv'' :: server). Some ''jobs'' = Some pl \<and> r_id run @ [CHR 10] = r_id run' @ [CHR 10] \<and>
    r_pipeline_yaml run' = pl \<and> fst (handleGetSource (r_id run') sv'') = (200, Some ''tar'')"
    by (simp only: list.distinct if_False list.sel) blast
  then obtain run' :: Run and pl and sv'' :: server where "Some ''jobs'' = Some pl" "r_id run @ [CHR 10] = r_id run' @ [CHR 10]"
    "r_pipeline_yaml run' = pl" "fst (handleGetSource (r_id run') sv'') = (200, Some ''tar'')" by blast
  with ok show ?thesis by (intro exI [of _ run'] exI [of _ sv'']) simp
qed


section \<open>artifacts --download\<close>

text \<open>
  One answer to a download: its status and, otherwise, what reading the body gives. The bytes go to the spool as
  they come; a body that breaks off is a connection error.
\<close>

record download_answer =
  da_status :: nat
  da_error :: "(string \<times> string) option"
  da_body :: reader

definition downloadOnce :: "(nat \<Rightarrow> string) \<Rightarrow> (char list \<Rightarrow> string) \<Rightarrow> bool \<Rightarrow> download_answer option \<Rightarrow> char list \<Rightarrow> (cli_err + string) \<times> char list" where
  "downloadOnce statusText sha parses answer f =
     (if \<not> parses then (Inl BadURL, f)
      else case answer of
        None \<Rightarrow> (Inl ConnErr, f)
      | Some a \<Rightarrow>
          if da_status a div 100 \<noteq> 2 then
            (case da_error a of
               Some (m, rid) \<Rightarrow> if m \<noteq> [] then (Inl (ApiErr (da_status a) m rid), f) else (Inl (ApiErr (da_status a) (statusText (da_status a)) []), f)
             | None \<Rightarrow> (Inl (ApiErr (da_status a) (statusText (da_status a)) []), f))
          else
            (case rd_error (da_body a) of
               Some _ \<Rightarrow> (Inl ConnErr, f @ rd_bytes (da_body a))
             | None \<Rightarrow> (Inr (sha (rd_bytes (da_body a))), f @ rd_bytes (da_body a))))"

text \<open>Every try starts on an emptied spool, so what is copied out at the end is the body of the try that succeeded.\<close>

type_synonym download_try = "bool \<times> download_answer option \<times> bool"

definition spooled :: "(nat \<Rightarrow> string) \<Rightarrow> (char list \<Rightarrow> string) \<Rightarrow> bool \<Rightarrow> download_answer option \<Rightarrow> cli_err + string \<times> char list" where
  "spooled statusText sha parses answer =
     (case downloadOnce statusText sha parses answer [] of (r, f) \<Rightarrow> map_sum (\<lambda>e. e) (\<lambda>digest. (digest, f)) r)"

definition DownloadArtifact :: "(nat \<Rightarrow> string) \<Rightarrow> (char list \<Rightarrow> string) \<Rightarrow> bool \<Rightarrow> nat \<Rightarrow> int \<Rightarrow> download_try list \<Rightarrow> (cli_err + string \<times> char list) option" where
  "DownloadArtifact statusText sha parses retries backoff ts =
     map_option fst (cli_retry retries (cli_delay backoff) 0
       (map (\<lambda>(ended, answer, interrupted). (ended, spooled statusText sha parses answer, interrupted)) ts))"

definition safeRelPath :: "string \<Rightarrow> bool" where
  "safeRelPath p \<longleftrightarrow> \<not> (p = [] \<or> prefix ''/'' p \<or> CHR 0x5C \<in> set p \<or> CHR 0x00 \<in> set p) \<and>
     list_all (\<lambda>seg. \<not> (seg = [] \<or> seg = ''.'' \<or> seg = ''..'')) (split_slash p)"

text \<open>
  \<open>downloadArtifact\<close> on the tree below the file system's root, \<open>dir\<close> being the segments of the target directory. The
  temporary file is renamed or removed before the call returns. \<open>None\<close>: the download is still being tried.
\<close>

definition downloadArtifact :: "(Artifact \<Rightarrow> (cli_err + string \<times> char list) option) \<Rightarrow> string list \<Rightarrow> Artifact \<Rightarrow> localfs
    \<Rightarrow> (cli_err + unit) option \<times> localfs" where
  "downloadArtifact download dir art s =
     (if \<not> safeRelPath (a_path art) then (Some (Inl (LocalErr ''refusing unsafe path'')), s)
      else
        let dst = join_clean dir (a_path art) in
        if blocked_by_file dst s then (Some (Inl (LocalErr ''mkdir'')), s)
        else
          let s1 = mkdirs dst s in
          (case download art of
             None \<Rightarrow> (None, s1)
           | Some (Inl e) \<Rightarrow> (Some (Inl e), s1)
           | Some (Inr (digest, data)) \<Rightarrow>
               if digest \<noteq> a_sha256 art then (Some (Inl (LocalErr ''sha256'')), s1)
               else if dst \<in> set (lf_dirs s1) then (Some (Inl (LocalErr ''rename'')), s1)
               else (Some (Inr ()), s1\<lparr>lf_files := AList.update dst data (lf_files s1)\<rparr>)))"

text \<open>The loop of \<open>artifacts --download\<close>: what is printed are the paths and sizes.\<close>

fun download_loop :: "(Artifact \<Rightarrow> (cli_err + string \<times> char list) option) \<Rightarrow> string list \<Rightarrow> Artifact list \<Rightarrow> localfs \<Rightarrow> (string list \<times> int) list
    \<Rightarrow> command_end option \<times> (string list \<times> int) list \<times> localfs" where
  "download_loop download dir [] s out = (Some CommandOK, out, s)"
| "download_loop download dir (art # arts) s out =
     (case downloadArtifact download dir art s of
        (None, s') \<Rightarrow> (None, out, s')
      | (Some (Inl e), s') \<Rightarrow> (Some (CommandErr e), out, s')
      | (Some (Inr _), s') \<Rightarrow> download_loop download dir arts s' (out @ [(join_clean dir (a_path art), a_size_bytes art)]))"

definition cli_ListArtifacts :: "string \<Rightarrow> string \<Rightarrow> int \<Rightarrow> world \<Rightarrow> cli_err + int \<times> Artifact list" where
  "cli_ListArtifacts token i attempt = ask token (handleListArtifacts i (if 0 < attempt then Number attempt else Absent))"

text \<open>The command with \<open>--download\<close>; without it the listing is only printed.\<close>

definition artifactsCmd :: "(nat \<Rightarrow> string) \<Rightarrow> (char list \<Rightarrow> string) \<Rightarrow> bool \<Rightarrow> nat \<Rightarrow> int \<Rightarrow> string \<Rightarrow> string \<Rightarrow> int \<Rightarrow> string list \<Rightarrow>
    world \<Rightarrow> (Artifact \<Rightarrow> download_try list) \<Rightarrow> localfs \<Rightarrow> command_end option \<times> (string list \<times> int) list \<times> localfs" where
  "artifactsCmd statusText sha parses retries backoff token i attempt dir w net s =
     (case cli_ListArtifacts token i attempt w of
        Inl e \<Rightarrow> (Some (CommandErr e), [], s)
      | Inr (_, arts) \<Rightarrow> download_loop (\<lambda>art. DownloadArtifact statusText sha parses retries backoff (net art)) dir arts s [])"

lemma safe_join: "safeRelPath p \<Longrightarrow> join_clean dir p = dir @ split_slash p"
proof -
  have "list_all (\<lambda>seg. \<not> (seg = [] \<or> seg = ''.'' \<or> seg = ''..'')) segs \<Longrightarrow> check_segments segs = None" for segs
    by (induction segs) auto
  then show "safeRelPath p \<Longrightarrow> ?thesis" by (simp add: safeRelPath_def join_clean_def clean_plain)
qed

lemma DownloadArtifact_sum: "DownloadArtifact statusText sha parses retries backoff ts = Some (Inr (digest, data)) \<Longrightarrow> digest = sha data"
  by (auto simp: DownloadArtifact_def spooled_def downloadOnce_def dest!: cli_retry_Inr split: if_splits option.splits)

text \<open>A download whose digest is that of the bytes it gives, and what it may change of the tree.\<close>

definition honest :: "(char list \<Rightarrow> string) \<Rightarrow> (Artifact \<Rightarrow> (cli_err + string \<times> char list) option) \<Rightarrow> bool" where
  "honest sha download \<longleftrightarrow> (\<forall>art digest b. download art = Some (Inr (digest, b)) \<longrightarrow> digest = sha b)"

lemma honest_DownloadArtifact: "honest sha (\<lambda>art. DownloadArtifact statusText sha parses retries backoff (net art))"
  using DownloadArtifact_sum by (fastforce simp: honest_def)

definition fetched :: "(char list \<Rightarrow> string) \<Rightarrow> string list \<Rightarrow> Artifact list \<Rightarrow> localfs \<Rightarrow> localfs \<Rightarrow> bool" where
  "fetched sha dir arts s s' \<longleftrightarrow> fs_ok s' \<and> (\<forall>p. lf_file s' p \<noteq> lf_file s p \<longrightarrow>
     (\<exists>art \<in> set arts. \<exists>b. safeRelPath (a_path art) \<and> p = dir @ split_slash (a_path art) \<and> lf_file s' p = Some b \<and> sha b = a_sha256 art))"

lemma fetched_one:
  assumes "fs_ok s" and "honest sha download" and "downloadArtifact download dir art s = (r, s')"
  shows "fetched sha dir [art] s s'"
    and "r = Some (Inr u) \<Longrightarrow> safeRelPath (a_path art) \<and> (\<exists>b. lf_file s' (dir @ split_slash (a_path art)) = Some b \<and> sha b = a_sha256 art)"
proof -
  let ?dst = "join_clean dir (a_path art)"
  have digest: "download art = Some (Inr (d, b)) \<Longrightarrow> sha b = d" for d b using assms(2) by (simp add: honest_def)
  consider (kept) "s' = s" "\<nexists>u. r = Some (Inr u)" | (dirs) "s' = mkdirs ?dst s" "\<not> blocked_by_file ?dst s" "\<nexists>u. r = Some (Inr u)"
    | (stored) data where "safeRelPath (a_path art)" "\<not> blocked_by_file ?dst s" "?dst \<notin> set (lf_dirs (mkdirs ?dst s))" "sha data = a_sha256 art"
        "s' = (mkdirs ?dst s)\<lparr>lf_files := AList.update ?dst data (lf_files s)\<rparr>"
    using assms(3) by (auto simp: downloadArtifact_def Let_def split: if_splits option.splits sum.splits dest!: digest)
  then have "fetched sha dir [art] s s' \<and> (\<forall>u. r = Some (Inr u) \<longrightarrow> safeRelPath (a_path art) \<and>
      (\<exists>b. lf_file s' (dir @ split_slash (a_path art)) = Some b \<and> sha b = a_sha256 art))"
  proof cases
    case kept
    then show ?thesis using assms(1) by (auto simp: fetched_def)
  next
    case dirs
    then show ?thesis using mkdirs_ok [OF assms(1)] by (auto simp: fetched_def)
  next
    case stored
    have "fs_ok s'" using put_file_ok [OF mkdirs_ok [OF assms(1) stored(2)] stored(3), of data] stored(5) by simp
    then show ?thesis using stored safe_join [OF stored(1), of dir] by (auto simp: fetched_def lf_file_def update_conv')
  qed
  then show "fetched sha dir [art] s s'"
    and "r = Some (Inr u) \<Longrightarrow> safeRelPath (a_path art) \<and> (\<exists>b. lf_file s' (dir @ split_slash (a_path art)) = Some b \<and> sha b = a_sha256 art)"
    by blast+
qed

lemma fetched_trans:
  assumes "fetched sha dir [art] s s1" and "fetched sha dir arts s1 s2"
  shows "fetched sha dir (art # arts) s s2"
  using assms unfolding fetched_def by (metis list.set_intros empty_iff insert_iff list.set(1,2))

lemma download_loop_fetched:
  assumes "honest sha download"
    and "download_loop download dir arts s out = (r, out', s')" and "fs_ok s"
  shows "fetched sha dir arts s s' \<and> (\<exists>n. out' = out @ map (\<lambda>art. (dir @ split_slash (a_path art), a_size_bytes art)) (take n arts)) \<and>
    (r = Some CommandOK \<longrightarrow> distinct (map a_path arts) \<longrightarrow>
      (\<forall>art \<in> set arts. \<exists>b. lf_file s' (dir @ split_slash (a_path art)) = Some b \<and> sha b = a_sha256 art))"
  using assms(2,3)
proof (induction arts arbitrary: s out)
  case Nil
  then show ?case by (auto simp: fetched_def)
next
  case (Cons art arts)
  obtain x s1 where one: "downloadArtifact download dir art s = (x, s1)" by fastforce
  note step = fetched_one [OF Cons.prems(2) assms(1) one]
  show ?case
  proof (cases "\<exists>u. x = Some (Inr u)")
    case False
    then have "s' = s1 \<and> out' = out \<and> r \<noteq> Some CommandOK" using Cons.prems(1) one by (auto split: option.splits sum.splits)
    with step(1) show ?thesis by (auto simp: fetched_def intro: exI [of _ 0])
  next
    case True
    then obtain u where x: "x = Some (Inr u)" by blast
    note got = step(2) [OF x]
    let ?out = "out @ [(join_clean dir (a_path art), a_size_bytes art)]"
    have rest: "download_loop download dir arts s1 ?out = (r, out', s')" using Cons.prems(1) one x by simp
    have "fs_ok s1" using step(1) by (simp add: fetched_def)
    note IH = Cons.IH [OF rest this]
    have keep: "lf_file s' (dir @ split_slash (a_path art)) = lf_file s1 (dir @ split_slash (a_path art))" if "a_path art \<notin> a_path ` set arts"
    proof (rule ccontr)
      assume "\<not> ?thesis"
      with IH obtain a where "a \<in> set arts" "split_slash (a_path art) = split_slash (a_path a)" by (auto simp: fetched_def)
      with that split_slash_inj show False by blast
    qed
    from IH obtain n where "out' = ?out @ map (\<lambda>art. (dir @ split_slash (a_path art), a_size_bytes art)) (take n arts)" by blast
    then have "out' = out @ map (\<lambda>art. (dir @ split_slash (a_path art), a_size_bytes art)) (take (Suc n) (art # arts))"
      using safe_join got by simp
    then have "\<exists>n. out' = out @ map (\<lambda>art. (dir @ split_slash (a_path art), a_size_bytes art)) (take n (art # arts))" ..
    moreover have "fetched sha dir (art # arts) s s'" using fetched_trans step(1) IH by blast
    moreover have "\<exists>b. lf_file s' (dir @ split_slash (a_path a)) = Some b \<and> sha b = a_sha256 a"
      if "r = Some CommandOK" "distinct (map a_path (art # arts))" "a \<in> set (art # arts)" for a
      using that IH got keep by (cases "a = art") auto
    ultimately show ?thesis by blast
  qed
qed

text \<open>A path that stays below where it starts, and the same as the check of the client.\<close>

definition plain_path :: "string \<Rightarrow> bool" where
  "plain_path p \<longleftrightarrow> set p \<inter> {CHR 0x5C, CHR 0x00} = {} \<and> set (split_slash p) \<inter> {[], ''.'', ''..''} = {}"

lemma safe_plain: "safeRelPath p \<longleftrightarrow> plain_path p"
proof -
  have "[] \<in> set (split_slash p)" if "p = [] \<or> prefix ''/'' p" using that by (auto simp: prefix_def)
  then show ?thesis by (auto simp: safeRelPath_def plain_path_def list_all_iff)
qed

text \<open>Nothing is in the way of a listing: no file above, no directory at and no other artifact above a target.\<close>

definition unobstructed :: "string list \<Rightarrow> Artifact list \<Rightarrow> localfs \<Rightarrow> bool" where
  "unobstructed dir arts s \<longleftrightarrow>
     (\<forall>art \<in> set arts. dir @ split_slash (a_path art) \<notin> set (lf_dirs s) \<and>
        (\<forall>q. q \<noteq> [] \<and> strict_prefix q (dir @ split_slash (a_path art)) \<longrightarrow> lf_file s q = None)) \<and>
     (\<forall>x \<in> set arts. \<forall>y \<in> set arts. \<not> strict_prefix (split_slash (a_path x)) (split_slash (a_path y)))"

lemma download_one_ok:
  assumes "plain_path (a_path art)" and "download art = Some (Inr (a_sha256 art, b))" and "unobstructed dir (art # arts) s"
  shows "\<exists>s1. downloadArtifact download dir art s = (Some (Inr ()), s1) \<and> unobstructed dir arts s1"
proof -
  let ?dst = "dir @ split_slash (a_path art)"
  define s1 where "s1 = (mkdirs ?dst s)\<lparr>lf_files := AList.update ?dst b (lf_files s)\<rparr>"
  have dst: "join_clean dir (a_path art) = ?dst" using assms(1) by (simp add: safe_join safe_plain)
  have free: "\<not> blocked_by_file ?dst s" "?dst \<notin> set (lf_dirs (mkdirs ?dst s))"
    using assms(3) by (auto simp: unobstructed_def blocked_by_file_def parents_iff)
  have "downloadArtifact download dir art s = (Some (Inr ()), s1)"
    using assms(1,2) free dst by (simp add: downloadArtifact_def safe_plain Let_def s1_def)
  moreover have "unobstructed dir arts s1" unfolding unobstructed_def
  proof (intro conjI ballI allI impI)
    fix x assume x: "x \<in> set arts"
    let ?t = "dir @ split_slash (a_path x)"
    have apart: "\<not> strict_prefix ?t ?dst" "\<not> strict_prefix ?dst ?t" using assms(3) x by (auto simp: unobstructed_def strict_prefix_def)
    then show "?t \<notin> set (lf_dirs s1)" using assms(3) x by (auto simp: s1_def unobstructed_def parents_iff)
    fix q assume q: "q \<noteq> [] \<and> strict_prefix q ?t"
    with apart(2) have "q \<noteq> ?dst" by auto
    then show "lf_file s1 q = None" using assms(3) x q by (auto simp: s1_def unobstructed_def lf_file_def update_conv')
  next
    fix x y assume "x \<in> set arts" "y \<in> set arts"
    then show "\<not> strict_prefix (split_slash (a_path x)) (split_slash (a_path y))" using assms(3) by (auto simp: unobstructed_def)
  qed
  ultimately show ?thesis by blast
qed

lemma download_loop_ok:
  assumes "\<forall>art \<in> set arts. plain_path (a_path art) \<and> (\<exists>b. download art = Some (Inr (a_sha256 art, b)))"
    and "unobstructed dir arts s"
  shows "fst (download_loop download dir arts s out) = Some CommandOK"
  using assms
proof (induction arts arbitrary: s out)
  case (Cons art arts)
  then obtain b where "plain_path (a_path art)" "download art = Some (Inr (a_sha256 art, b))" by auto
  from download_one_ok [where download = download, OF this Cons.prems(2)] Cons show ?case by auto
qed simp

text \<open>
  C34. Verified downloads. When the listing fails \<open>artifacts --download\<close> fails with it and changes nothing. Otherwise, whatever
  the listing and the downloads' answers hold and however the command ends, it has changed no file but
  those at listed paths, strictly below the target directory, and what it left there has the digest of the
  listing. When it ends in order every listed artifact is there, and it does end in order
  when every download gives bytes of the listed digest, the paths are plain and nothing is in their way.
\<close>

theorem downloads_verified:
  assumes "fs_ok s" and "artifactsCmd statusText sha parses retries backoff token i attempt dir w net s = (r, out, s')"
  shows "case cli_ListArtifacts token i attempt w of
      Inl e \<Rightarrow> r = Some (CommandErr e) \<and> out = [] \<and> s' = s
    | Inr (a, arts) \<Rightarrow> fs_ok s' \<and>
        (\<forall>p. lf_file s' p \<noteq> lf_file s p \<longrightarrow> (\<exists>art \<in> set arts. \<exists>b. plain_path (a_path art) \<and> p = dir @ split_slash (a_path art) \<and>
           lf_file s' p = Some b \<and> sha b = a_sha256 art)) \<and>
        (\<exists>n. out = map (\<lambda>art. (dir @ split_slash (a_path art), a_size_bytes art)) (take n arts)) \<and>
        (r = Some CommandOK \<and> distinct (map a_path arts) \<longrightarrow>
           (\<forall>art \<in> set arts. \<exists>b. lf_file s' (dir @ split_slash (a_path art)) = Some b \<and> sha b = a_sha256 art)) \<and>
        ((\<forall>art \<in> set arts. plain_path (a_path art) \<and>
            (\<exists>b. DownloadArtifact statusText sha parses retries backoff (net art) = Some (Inr (a_sha256 art, b)))) \<and>
          unobstructed dir arts s \<longrightarrow> r = Some CommandOK)"
proof (cases "cli_ListArtifacts token i attempt w")
  case (Inl e)
  with assms show ?thesis by (simp add: artifactsCmd_def)
next
  case (Inr x)
  obtain a arts where x: "x = (a, arts)" by fastforce
  let ?dl = "\<lambda>art. DownloadArtifact statusText sha parses retries backoff (net art)"
  from assms(2) Inr x have loop: "download_loop ?dl dir arts s [] = (r, out, s')" by (simp add: artifactsCmd_def)
  note got = download_loop_fetched [OF honest_DownloadArtifact loop assms(1), unfolded fetched_def safe_plain]
  have "r = Some CommandOK" if "\<forall>art \<in> set arts. plain_path (a_path art) \<and> (\<exists>b. ?dl art = Some (Inr (a_sha256 art, b)))"
    "unobstructed dir arts s"
    using download_loop_ok [where download = ?dl, OF that, of "[]"] loop by simp
  with got show ?thesis unfolding Inr x by simp
qed

definition demo_uploaded :: server where
  "demo_uploaded = snd (handleUploadArtifact (\<lambda>_. ''digest'') ''4'' (Number 2) ''out/app'' 3 [] \<lparr>rd_bytes = ''bin'', rd_error = None\<rparr> demo_sv4)"

definition demo_answers :: "Artifact \<Rightarrow> download_try list" where
  "demo_answers art = [(False, Some \<lparr>da_status = 200, da_error = None, da_body = \<lparr>rd_bytes = ''b'', rd_error = Some (ReadFailed [])\<rparr>\<rparr>, False),
     (False, Some \<lparr>da_status = 200, da_error = None, da_body = \<lparr>rd_bytes = ''bin'', rd_error = None\<rparr>\<rparr>, False)]"

definition demo_download :: "command_end option \<times> (string list \<times> int) list \<times> localfs" where
  "demo_download = artifactsCmd (\<lambda>_. []) (\<lambda>_. ''digest'') True 2 0 ''token'' ''4'' 2 [''home'', ''dl''] (Inr demo_uploaded) demo_answers
     \<lparr>lf_files = [], lf_dirs = []\<rparr>"

lemma demo_download_run: "fst demo_download = Some CommandOK \<and> lf_files (snd (snd demo_download)) = [([''home'', ''dl'', ''out'', ''app''], ''bin'')]"
  by code_simp

theorem downloads_verified_witness:
  "fs_ok (snd (snd demo_download)) \<and> fst demo_download = Some CommandOK \<and>
   lf_file (snd (snd demo_download)) [''home'', ''dl'', ''out'', ''app''] = Some ''bin''"
proof -
  let ?list = "cli_ListArtifacts ''token'' ''4'' 2 (Inr demo_uploaded)"
  have fs: "fs_ok \<lparr>lf_files = [], lf_dirs = []\<rparr>" by (simp add: fs_ok_def)
  have run: "artifactsCmd (\<lambda>_. []) (\<lambda>_. ''digest'') True 2 0 ''token'' ''4'' 2 [''home'', ''dl''] (Inr demo_uploaded) demo_answers
     \<lparr>lf_files = [], lf_dirs = []\<rparr> = (fst demo_download, fst (snd demo_download), snd (snd demo_download))"
    by (simp add: demo_download_def)
  note got = downloads_verified [OF fs run]
  have "fs_ok (snd (snd demo_download))"
  proof (cases ?list)
    case (Inl e)
    with got fs show ?thesis by simp
  next
    case (Inr x)
    obtain a arts where "x = (a, arts)" by fastforce
    with got Inr show ?thesis by (simp only: sum.case prod.case)
  qed
  then show ?thesis using demo_download_run by (simp add: lf_file_def)
qed

end
