(* ===== verification/Commands.thy ===== *)
theory Commands
  imports Workspace
begin

text \<open>
  The commands of internal/cli that make one request: \<open>runs\<close>, \<open>status\<close>, \<open>runners\<close> and \<open>cancel\<close>. The first three print what the
  server answered and change nothing; a cancel may be delivered more than once.
\<close>


section \<open>One request, one print\<close>

definition cli_ListRuns :: "string \<Rightarrow> int \<Rightarrow> world \<Rightarrow> cli_err + Run list" where
  "cli_ListRuns token limit = ask token (handleListRuns (Number limit))"

definition cli_ListRunners :: "string \<Rightarrow> world \<Rightarrow> cli_err + Runner list" where
  "cli_ListRunners token = ask token handleListRunners"

definition printed_once :: "cli_err + 'a \<Rightarrow> command_end \<times> 'a option" where
  "printed_once r = (case r of Inl e \<Rightarrow> (CommandErr e, None) | Inr v \<Rightarrow> (CommandOK, Some v))"

definition runsCmd :: "string \<Rightarrow> int \<Rightarrow> world \<Rightarrow> command_end \<times> Run list option" where
  "runsCmd token limit w = printed_once (cli_ListRuns token limit w)"

definition statusCmd :: "string \<Rightarrow> string \<Rightarrow> world \<Rightarrow> command_end \<times> (Run \<times> Job list) option" where
  "statusCmd token i w = printed_once (cli_GetRun token i w)"

definition runnersCmd :: "string \<Rightarrow> world \<Rightarrow> command_end \<times> Runner list option" where
  "runnersCmd token w = printed_once (cli_ListRunners token w)"

text \<open>What \<open>status\<close> shows is the run and its jobs as the server has them.\<close>

lemma statusCmd_shows:
  assumes "statusCmd token i w = (CommandOK, Some (run, js))"
  shows "\<exists>sv. w = Inr sv \<and> find (\<lambda>r. r_id r = i) (t_runs (st (sv_sched sv))) = Some run \<and> set js = {j \<in> set (t_jobs (st (sv_sched sv))). j_run_id j = i}"
  using assms
  by (auto simp: statusCmd_def printed_once_def cli_GetRun_def ask_def api_answer_def withToken_def handleGetRun_def GetRun_def ListJobs_def tx_simps
      split: sum.splits if_splits option.splits prod.splits)


section \<open>cancel\<close>

text \<open>The tries of a cancel: whether the context had ended, what became of the request, the server it met, and an interrupted wait.\<close>

type_synonym cancel_try = "bool \<times> delivery \<times> server \<times> bool"

definition cancel_once :: "string \<Rightarrow> string \<Rightarrow> delivery \<Rightarrow> server \<Rightarrow> cli_err + Run \<times> Job list" where
  "cancel_once token i d sv = (case d of Answered \<Rightarrow> ask token (handleCancelRun i) (Inr sv) | _ \<Rightarrow> Inl ConnErr)"

definition cli_Cancel :: "string \<Rightarrow> nat \<Rightarrow> int \<Rightarrow> string \<Rightarrow> cancel_try list \<Rightarrow> (cli_err + Run \<times> Job list) option" where
  "cli_Cancel token retries backoff i ts =
     map_option fst (cli_retry retries (cli_delay backoff) 0 (map (\<lambda>(ended, d, sv, interrupted). (ended, cancel_once token i d sv, interrupted)) ts))"

definition cancelCmd :: "string \<Rightarrow> nat \<Rightarrow> int \<Rightarrow> string \<Rightarrow> cancel_try list \<Rightarrow> command_end option \<times> string" where
  "cancelCmd token retries backoff i ts =
     (case cli_Cancel token retries backoff i ts of
        None \<Rightarrow> (None, [])
      | Some (Inl e) \<Rightarrow> (Some (CommandErr e), [])
      | Some (Inr _) \<Rightarrow> (Some CommandOK, ''run '' @ i @ '': cancel requested'' @ [CHR 10]))"

text \<open>A cancel that ends in order was carried out by a server that answered it.\<close>

lemma cancelCmd_done:
  assumes "cancelCmd token retries backoff i ts = (Some CommandOK, out)"
  shows "\<exists>ended sv interrupted run sc. (ended, Answered, sv, interrupted) \<in> set ts \<and> CancelRun (sv_sched sv) i = (Inr run, sc)"
proof -
  from assms obtain v ws where "cli_retry retries (cli_delay backoff) 0
      (map (\<lambda>(ended, d, sv, interrupted). (ended, cancel_once token i d sv, interrupted)) ts) = Some (Inr v, ws)"
    by (auto simp: cancelCmd_def cli_Cancel_def split: option.splits sum.splits)
  from cli_retry_Inr [OF this] obtain ended d sv interrupted where t: "(ended, d, sv, interrupted) \<in> set ts" "cancel_once token i d sv = Inr v" by auto
  then have "d = Answered" by (cases d) (auto simp: cancel_once_def)
  with t(2) have "\<exists>run sc. CancelRun (sv_sched sv) i = (Inr run, sc)"
    by (auto simp: cancel_once_def ask_def api_answer_def withToken_def handleCancelRun_def split: if_splits option.splits prod.splits sum.splits)
  with t(1) \<open>d = Answered\<close> show ?thesis by blast
qed

text \<open>
  When the answer to a cancel that closed the run at once is lost, the retry finds the run finished: the command
  reports an error although the cancel was carried out.
\<close>

lemma lost_cancel_answer:
  assumes "sys_init sv0" and "(sys_step decode)\<^sup>*\<^sup>* sv0 sv" and "run \<in> set (t_runs (st (sv_sched sv)))"
    and "r_state run \<in> {RunPending, RunRunning}" and "CancelRun (sv_sched sv) (r_id run) = (Inr out, sc)" and "run_over (r_state out)"
    and "requireToken (sv_token sv) (Some (''Bearer '' @ token))"
  shows "cancelCmd token retries backoff (r_id run) [(False, AnswerLost, sv, False), (False, Answered, sv\<lparr>sv_sched := sc\<rparr>, False)] =
    (Some (CommandErr (ApiErr 409 [] [])), [])"
proof -
  have "CancelRun sc (r_id run) = (Inl ErrRunFinished, sc)"
    using CancelRun_idempotent [OF assms(1-5)] assms(6) by (auto simp: run_over_def)
  then have "cancel_once token (r_id run) Answered (sv\<lparr>sv_sched := sc\<rparr>) = Inl (ApiErr 409 [] [])"
    using assms(7) by (simp add: cancel_once_def ask_def withToken_def handleCancelRun_def api_answer_def)
  moreover have "cancel_once token (r_id run) AnswerLost sv = Inl ConnErr" by (simp add: cancel_once_def)
  ultimately show ?thesis by (simp add: cancelCmd_def cli_Cancel_def transient_def)
qed

end
