(* ===== verification/Routes.thy ===== *)
theory Routes
  imports Requests Docker
begin

text \<open>
  internal/api/api.go: the routes of the server and the middleware around them. A request is dispatched by
  the patterns of \<open>New\<close>, as \<open>http.ServeMux\<close> matches them, to the handlers of the development, behind the token
  check for everything under \<open>/api/\<close>. Whatever arrives is then one of the steps of the control plane.
\<close>


section \<open>Requests\<close>

text \<open>
  A request: method, the segments of its path behind the leading slash, the two headers the middleware reads, the
  query, and what reading or decoding the body as each handler does it gives.
\<close>

record http_request =
  hq_method :: string
  hq_path :: "string list"
  hq_auth :: "string option"
  hq_request_id :: string
  hq_query :: "string \<Rightarrow> string"
  hq_submit :: submit_body
  hq_claim :: "RunnerInfo body"
  hq_heartbeat :: "(string \<times> (string \<times> int) list) body"
  hq_complete :: "(string \<times> int \<times> Result) body"
  hq_register :: "registerRequest body"
  hq_logs :: "(string \<times> int \<times> (int \<times> bytes) list) body"
  hq_upload :: reader
  hq_length :: int
  hq_type :: string

text \<open>What is random: the ids of a submission, of a registration and of the request.\<close>

record entropy =
  en_ids :: "nat \<Rightarrow> string"
  en_runner :: string
  en_request :: string

definition path_number :: "string \<Rightarrow> param" where
  "path_number v = (case ParseInt64 v of None \<Rightarrow> NotNumber | Some n \<Rightarrow> Number n)"

definition query_number :: "http_request \<Rightarrow> string \<Rightarrow> param" where
  "query_number rq k = (if hq_query rq k = [] then Absent else path_number (hq_query rq k))"


section \<open>Routes\<close>

datatype segment = Lit string | Wild | Rest

datatype endpoint = ESubmitRun | EListRuns | EGetRun | ECancelRun | EListEvents | EGetSource | EGetJob | EGetLogs
| EListArtifacts | EGetArtifact | EListRunners | ERegister | EClaim | EHeartbeat | EComplete | EAppendLogs | EUploadArtifact

definition routes :: "(string \<times> segment list \<times> endpoint) list" where
  "routes =
    [(''POST'', [Lit ''api'', Lit ''runs''], ESubmitRun),
     (''GET'', [Lit ''api'', Lit ''runs''], EListRuns),
     (''GET'', [Lit ''api'', Lit ''runs'', Wild], EGetRun),
     (''POST'', [Lit ''api'', Lit ''runs'', Wild, Lit ''cancel''], ECancelRun),
     (''GET'', [Lit ''api'', Lit ''runs'', Wild, Lit ''events''], EListEvents),
     (''GET'', [Lit ''api'', Lit ''runs'', Wild, Lit ''source''], EGetSource),
     (''GET'', [Lit ''api'', Lit ''jobs'', Wild], EGetJob),
     (''GET'', [Lit ''api'', Lit ''jobs'', Wild, Lit ''logs''], EGetLogs),
     (''GET'', [Lit ''api'', Lit ''jobs'', Wild, Lit ''artifacts''], EListArtifacts),
     (''GET'', [Lit ''api'', Lit ''jobs'', Wild, Lit ''artifacts'', Rest], EGetArtifact),
     (''GET'', [Lit ''api'', Lit ''runners''], EListRunners),
     (''POST'', [Lit ''api'', Lit ''runner'', Lit ''register''], ERegister),
     (''POST'', [Lit ''api'', Lit ''runner'', Lit ''claim''], EClaim),
     (''POST'', [Lit ''api'', Lit ''runner'', Lit ''heartbeat''], EHeartbeat),
     (''POST'', [Lit ''api'', Lit ''runner'', Lit ''jobs'', Wild, Lit ''complete''], EComplete),
     (''POST'', [Lit ''api'', Lit ''runner'', Lit ''jobs'', Wild, Lit ''logs''], EAppendLogs),
     (''POST'', [Lit ''api'', Lit ''runner'', Lit ''jobs'', Wild, Lit ''attempts'', Wild, Lit ''artifacts'', Rest], EUploadArtifact)]"

text \<open>A wildcard matches one segment that is not empty; the last one of a \<open>{path...}\<close> pattern takes all that is left.\<close>

fun match_path :: "segment list \<Rightarrow> string list \<Rightarrow> string list option" where
  "match_path [] [] = Some []"
| "match_path [Rest] (s # ss) = Some [join_slash (s # ss)]"
| "match_path (Lit l # ps) (s # ss) = (if s = l then match_path ps ss else None)"
| "match_path (Wild # ps) (s # ss) = (if s = [] then None else map_option (Cons s) (match_path ps ss))"
| "match_path _ _ = None"

text \<open>A pattern for \<open>GET\<close> serves \<open>HEAD\<close> too. A path that only other methods have is answered 405.\<close>

definition method_ok :: "string \<Rightarrow> string \<Rightarrow> bool" where
  "method_ok pat m \<longleftrightarrow> m = pat \<or> pat = ''GET'' \<and> m = ''HEAD''"

definition lookup_route :: "string \<Rightarrow> string list \<Rightarrow> nat + endpoint \<times> string list" where
  "lookup_route m path =
     (let hits = filter (\<lambda>(_, pat, _). match_path pat path \<noteq> None) routes in
      case find (\<lambda>(pm, _, _). method_ok pm m) hits of
        Some (_, pat, e) \<Rightarrow> Inr (e, the (match_path pat path))
      | None \<Rightarrow> Inl (if hits = [] then 404 else 405))"

definition status_of :: "'a response \<times> server \<Rightarrow> nat \<times> server" where
  "status_of r = (fst (fst r), snd r)"

definition dispatch :: "(string \<Rightarrow> yaml_result) \<Rightarrow> (string \<Rightarrow> string) \<Rightarrow> entropy \<Rightarrow> endpoint \<Rightarrow> string list \<Rightarrow> http_request \<Rightarrow> server \<Rightarrow> nat \<times> server" where
  "dispatch decode sha en e vs rq sv =
     (case e of
        ESubmitRun \<Rightarrow> status_of (handleSubmitRun decode (en_ids en) (hq_submit rq) sv)
      | EListRuns \<Rightarrow> status_of (handleListRuns (query_number rq ''limit'') sv)
      | EGetRun \<Rightarrow> status_of (handleGetRun (vs ! 0) sv)
      | ECancelRun \<Rightarrow> status_of (handleCancelRun (vs ! 0) sv)
      | EListEvents \<Rightarrow> status_of (handleListEvents (vs ! 0) (query_number rq ''after'') sv)
      | EGetSource \<Rightarrow> status_of (handleGetSource (vs ! 0) sv)
      | EGetJob \<Rightarrow> status_of (handleGetJob (vs ! 0) sv)
      | EGetLogs \<Rightarrow> status_of (handleGetLogs (vs ! 0) (query_number rq ''attempt'') (query_number rq ''after'') sv)
      | EListArtifacts \<Rightarrow> status_of (handleListArtifacts (vs ! 0) (query_number rq ''attempt'') sv)
      | EGetArtifact \<Rightarrow> status_of (handleGetArtifact (vs ! 0) (query_number rq ''attempt'') (vs ! 1) sv)
      | EListRunners \<Rightarrow> status_of (handleListRunners sv)
      | ERegister \<Rightarrow> status_of (handleRegister (en_runner en) (hq_register rq) sv)
      | EClaim \<Rightarrow> status_of (handleClaim (hq_claim rq) sv)
      | EHeartbeat \<Rightarrow> status_of (handleHeartbeat (hq_heartbeat rq) sv)
      | EComplete \<Rightarrow> status_of (handleComplete (vs ! 0) (hq_complete rq) sv)
      | EAppendLogs \<Rightarrow> status_of (handleAppendLogs (vs ! 0) (hq_logs rq) sv)
      | EUploadArtifact \<Rightarrow>
          status_of (handleUploadArtifact sha (vs ! 0) (path_number (vs ! 1)) (vs ! 2) (hq_length rq) (hq_type rq) (hq_upload rq) sv))"


section \<open>Middleware\<close>

definition withRequestID :: "entropy \<Rightarrow> http_request \<Rightarrow> string" where
  "withRequestID en rq = (if hq_request_id rq = [] then en_request en else hq_request_id rq)"

text \<open>The mux redirects a path that is not clean; \<open>/api\<close> is redirected to \<open>/api/\<close>.\<close>

definition clean_path :: "string list \<Rightarrow> bool" where
  "clean_path path \<longleftrightarrow> path \<noteq> [] \<and> list_all (\<lambda>s. s \<noteq> []) (butlast path) \<and> list_all (\<lambda>s. s \<noteq> ''.'' \<and> s \<noteq> ''..'') path"

definition open_endpoint :: "string \<Rightarrow> nat" where
  "open_endpoint m = (if method_ok ''GET'' m then 200 else 405)"

text \<open>The status, the \<open>X-Request-ID\<close> of the answer, and the server.\<close>

definition ServeHTTP :: "(string \<Rightarrow> yaml_result) \<Rightarrow> (string \<Rightarrow> string) \<Rightarrow> entropy \<Rightarrow> http_request \<Rightarrow> server \<Rightarrow> nat \<times> string \<times> server" where
  "ServeHTTP decode sha en rq sv =
     (let i = withRequestID en rq; m = hq_method rq; path = hq_path rq in
      if m \<noteq> ''CONNECT'' \<and> \<not> clean_path path then (301, i, sv)
      else if path = [''healthz''] \<or> path = [''metrics''] then (open_endpoint m, i, sv)
      else if path = [''api''] then (301, i, sv)
      else if path \<noteq> [] \<and> hd path = ''api'' then
        if \<not> requireToken (sv_token sv) (hq_auth rq) then (401, i, sv)
        else (case lookup_route m path of
                Inl c \<Rightarrow> (c, i, sv)
              | Inr (e, vs) \<Rightarrow> (case dispatch decode sha en e vs rq sv of (c, sv') \<Rightarrow> (c, i, sv')))
      else (404, i, sv))"


section \<open>Every request is a step\<close>

text \<open>The handlers of \<open>GET\<close> patterns change nothing.\<close>

definition reading_endpoint :: "endpoint \<Rightarrow> bool" where
  "reading_endpoint e \<longleftrightarrow> e \<in> {EListRuns, EGetRun, EListEvents, EGetSource, EGetJob, EGetLogs, EListArtifacts, EGetArtifact, EListRunners}"

lemma reads_change_nothing:
  "snd (handleListRuns l sv) = sv" "snd (handleGetRun i sv) = sv" "snd (handleListEvents i a sv) = sv"
  "snd (handleGetSource i sv) = sv" "snd (handleGetJob i sv) = sv" "snd (handleGetLogs i p a sv) = sv"
  "snd (handleListArtifacts i p sv) = sv" "snd (handleGetArtifact i p path sv) = sv" "snd (handleListRunners sv) = sv"
  by (auto simp: handleListRuns_def handleGetRun_def handleListEvents_def handleGetSource_def handleGetJob_def handleGetLogs_def
      handleListArtifacts_def handleGetArtifact_def handleListRunners_def Let_def
      split: sum.splits option.splits param.splits prod.splits art_error.splits if_splits)

lemma dispatch_reads: "reading_endpoint e \<Longrightarrow> snd (dispatch decode sha en e vs rq sv) = sv"
  by (auto simp: reading_endpoint_def dispatch_def status_of_def reads_change_nothing)

lemma authorised: "requireToken (sv_token sv) h \<Longrightarrow> withToken sv h f = f sv"
  by (simp add: withToken_def)

lemma step_by:
  assumes "requireToken (sv_token sv) h"
  shows "sys_step decode sv (snd (handleSubmitRun decode ids b sv))" "sys_step decode sv (snd (handleCancelRun i sv))"
    "sys_step decode sv (snd (handleClaim c sv))" "sys_step decode sv (snd (handleHeartbeat hb sv))"
    "sys_step decode sv (snd (handleComplete i d sv))" "sys_step decode sv (snd (handleRegister fresh q sv))"
    "sys_step decode sv (snd (handleAppendLogs i l sv))"
  using do_submit [of sv h] do_cancel [of sv h] do_claim [of sv h] do_heartbeat [of sv h] do_complete [of sv h] do_register [of sv h]
    do_logs [of sv h] unfolding authorised [OF assms] by (metis prod.collapse)+

lemma upload_steps:
  assumes "requireToken (sv_token sv) h"
  shows "(sys_step decode)\<^sup>*\<^sup>* sv (snd (handleUploadArtifact sha i a path len ctype r sv))"
proof -
  obtain res sv1 where up: "upload_begin sha i a path len ctype r sv = (res, sv1)" by fastforce
  have "sys_step decode sv sv1" using do_upload [OF assms up] .
  moreover have "sys_step decode sv1 (snd (upload_end u sv1))" for u by (rule do_record) (rule surjective_pairing)
  ultimately show ?thesis using up by (auto simp: handleUploadArtifact_def split: sum.splits intro: rtranclp.rtrancl_into_rtrancl)
qed

lemma dispatch_steps:
  assumes "requireToken (sv_token sv) h"
  shows "(sys_step decode)\<^sup>*\<^sup>* sv (snd (dispatch decode sha en e vs rq sv))"
proof (cases "reading_endpoint e")
  case True
  then show ?thesis by (simp add: dispatch_reads)
next
  case False
  then show ?thesis using step_by [OF assms] upload_steps [OF assms]
    by (cases e) (auto simp: reading_endpoint_def dispatch_def status_of_def intro: r_into_rtranclp)
qed

lemma find_hit: "find P xs = Some x \<Longrightarrow> x \<in> set xs \<and> P x"
  by (auto simp: find_Some_iff)

lemma lookup_route_method:
  assumes "lookup_route m path = Inr (e, vs)"
  shows "reading_endpoint e \<or> m = ''POST''"
proof -
  from assms obtain pm pat where "(pm, pat, e) \<in> set routes" "method_ok pm m"
    by (auto simp: lookup_route_def Let_def split: option.splits dest!: find_hit)
  moreover have "list_all (\<lambda>(pm, _, e). reading_endpoint e \<or> pm = ''POST'') routes"
    by (simp add: routes_def reading_endpoint_def)
  ultimately show ?thesis by (auto simp: list_all_iff method_ok_def)
qed

text \<open>No path matches two routes of one method, so the order of the table does not matter.\<close>

fun overlap :: "segment list \<Rightarrow> segment list \<Rightarrow> bool" where
  "overlap [] [] = True"
| "overlap (Lit a # p) (Lit b # q) = (a = b \<and> overlap p q)"
| "overlap (Lit a # p) (Wild # q) = overlap p q"
| "overlap (Wild # p) (Lit b # q) = overlap p q"
| "overlap (Wild # p) (Wild # q) = overlap p q"
| "overlap [Rest] (b # q) = True"
| "overlap (a # p) [Rest] = True"
| "overlap _ _ = False"

lemma match_Nil: "match_path p [] = Some v \<Longrightarrow> p = []"
  by (cases p rule: list.exhaust) (auto elim: match_path.elims)

lemma match_Cons:
  assumes "match_path p (s # ss) = Some v"
  obtains "p = [Rest]" | p' where "p = Lit s # p'" "match_path p' ss = Some v" | p' v' where "p = Wild # p'" "match_path p' ss = Some v'"
  using assms by (cases "(p, s # ss)" rule: match_path.cases) (auto split: if_splits)

lemma overlap_Rest [simp]: "p \<noteq> [] \<Longrightarrow> overlap [Rest] p" "p \<noteq> [] \<Longrightarrow> overlap p [Rest]"
proof -
  show "overlap [Rest] p" if "p \<noteq> []" using that by (cases p) auto
  show "overlap p [Rest]" if "p \<noteq> []"
  proof (cases p)
    case (Cons x xs)
    then show ?thesis by (cases x; cases xs) auto
  qed (use that in simp)
qed

lemma match_overlap: "match_path p path = Some v \<Longrightarrow> match_path q path = Some w \<Longrightarrow> overlap p q"
proof (induction path arbitrary: p q v w)
  case Nil
  then show ?case by (auto dest!: match_Nil)
next
  case (Cons s ss)
  from Cons.prems(1) show ?case
  proof (cases rule: match_Cons)
    case 1
    then show ?thesis using Cons.prems(2) by (cases q) auto
  next
    case (2 p')
    from Cons.prems(2) show ?thesis by (cases rule: match_Cons) (use 2 Cons.IH in auto)
  next
    case (3 p' v')
    from Cons.prems(2) show ?thesis by (cases rule: match_Cons) (use 3 Cons.IH in auto)
  qed
qed

lemma routes_unambiguous:
  assumes "i < length routes" and "j < length routes" and "fst (routes ! i) = fst (routes ! j)"
    and "match_path (fst (snd (routes ! i))) path = Some v" and "match_path (fst (snd (routes ! j))) path = Some w"
  shows "i = j"
proof -
  have "list_all (\<lambda>i. list_all (\<lambda>j. i = j \<or> fst (routes ! i) \<noteq> fst (routes ! j) \<or>
      \<not> overlap (fst (snd (routes ! i))) (fst (snd (routes ! j)))) [0..<length routes]) [0..<length routes]" by code_simp
  with assms match_overlap show ?thesis by (fastforce simp: list_all_iff)
qed

lemma ServeHTTP_cases:
  obtains c where "ServeHTTP decode sha en rq sv = (c, withRequestID en rq, sv)"
      and "prefix [''api''] (hq_path rq) \<and> \<not> requireToken (sv_token sv) (hq_auth rq) \<longrightarrow>
        c = (if hq_path rq = [''api''] \<or> hq_method rq \<noteq> ''CONNECT'' \<and> \<not> clean_path (hq_path rq) then 301 else 401)"
    | e vs c sv' where "dispatch decode sha en e vs rq sv = (c, sv')" "ServeHTTP decode sha en rq sv = (c, withRequestID en rq, sv')"
      "lookup_route (hq_method rq) (hq_path rq) = Inr (e, vs)" "requireToken (sv_token sv) (hq_auth rq)"
proof (cases "hq_method rq \<noteq> ''CONNECT'' \<and> \<not> clean_path (hq_path rq) \<or> hq_path rq = [''healthz''] \<or> hq_path rq = [''metrics''] \<or> hq_path rq = [''api''] \<or>
    \<not> prefix [''api''] (hq_path rq)")
  case True
  then have "\<exists>c. ServeHTTP decode sha en rq sv = (c, withRequestID en rq, sv) \<and>
      (prefix [''api''] (hq_path rq) \<longrightarrow> c = 301 \<and> (hq_path rq = [''api''] \<or> hq_method rq \<noteq> ''CONNECT'' \<and> \<not> clean_path (hq_path rq)))"
    by (cases "hq_path rq") (simp_all add: ServeHTTP_def Let_def, blast)
  then show ?thesis using that(1) by auto
next
  case False
  then have api: "ServeHTTP decode sha en rq sv = (if \<not> requireToken (sv_token sv) (hq_auth rq) then (401, withRequestID en rq, sv)
        else (case lookup_route (hq_method rq) (hq_path rq) of
                Inl c \<Rightarrow> (c, withRequestID en rq, sv)
              | Inr (e, vs) \<Rightarrow> (case dispatch decode sha en e vs rq sv of (c, sv') \<Rightarrow> (c, withRequestID en rq, sv'))))"
    by (cases "hq_path rq") (auto simp: ServeHTTP_def Let_def)
  show ?thesis
  proof (cases "requireToken (sv_token sv) (hq_auth rq)")
    case True
    show ?thesis
    proof (cases "lookup_route (hq_method rq) (hq_path rq)")
      case (Inr x)
      obtain e vs where x: "x = (e, vs)" by fastforce
      obtain c sv' where "dispatch decode sha en e vs rq sv = (c, sv')" by fastforce
      with that(2) [of e vs c sv'] api True Inr x show ?thesis by simp
    qed (use api True that(1) in simp)
  qed (use False api that(1) in simp)
qed

lemma ServeHTTP_steps: "(sys_step decode)\<^sup>*\<^sup>* sv (snd (snd (ServeHTTP decode sha en rq sv)))"
proof (rule ServeHTTP_cases [of decode sha en rq sv])
  fix e vs c sv' assume "dispatch decode sha en e vs rq sv = (c, sv')" "ServeHTTP decode sha en rq sv = (c, withRequestID en rq, sv')"
    "requireToken (sv_token sv) (hq_auth rq)"
  then show ?thesis using dispatch_steps [of sv "hq_auth rq" decode sha en e vs rq] by simp
qed simp

lemma ServeHTTP_effect:
  "case ServeHTTP decode sha en rq sv of (code, i, sv') \<Rightarrow>
     (sys_step decode)\<^sup>*\<^sup>* sv sv' \<and>
     (sv' \<noteq> sv \<longrightarrow> hq_method rq = ''POST'' \<and> requireToken (sv_token sv) (hq_auth rq)) \<and>
     (prefix [''api''] (hq_path rq) \<and> \<not> requireToken (sv_token sv) (hq_auth rq) \<longrightarrow>
        code = (if hq_path rq = [''api''] \<or> hq_method rq \<noteq> ''CONNECT'' \<and> \<not> clean_path (hq_path rq) then 301 else 401)) \<and>
     i = (if hq_request_id rq = [] then en_request en else hq_request_id rq)"
proof (rule ServeHTTP_cases [of decode sha en rq sv])
  fix c assume "ServeHTTP decode sha en rq sv = (c, withRequestID en rq, sv)"
    and "prefix [''api''] (hq_path rq) \<and> \<not> requireToken (sv_token sv) (hq_auth rq) \<longrightarrow>
      c = (if hq_path rq = [''api''] \<or> hq_method rq \<noteq> ''CONNECT'' \<and> \<not> clean_path (hq_path rq) then 301 else 401)"
  then show ?thesis by (simp add: withRequestID_def)
next
  fix e vs c sv' assume d: "dispatch decode sha en e vs rq sv = (c, sv')" "ServeHTTP decode sha en rq sv = (c, withRequestID en rq, sv')"
    "lookup_route (hq_method rq) (hq_path rq) = Inr (e, vs)" "requireToken (sv_token sv) (hq_auth rq)"
  have "(sys_step decode)\<^sup>*\<^sup>* sv sv'" using ServeHTTP_steps [of decode sv sha en rq] d(2) by simp
  moreover have "hq_method rq = ''POST''" if "sv' \<noteq> sv"
    using dispatch_reads [of e decode sha en vs rq sv] lookup_route_method [OF d(3)] d(1) that by auto
  ultimately show ?thesis using d(2,4) by (simp add: withRequestID_def)
qed


definition demo_request :: http_request where
  "demo_request = \<lparr>hq_method = ''POST'', hq_path = [''api'', ''runs''], hq_auth = demo_header, hq_request_id = ''req'', hq_query = (\<lambda>_. []),
     hq_submit = demo_body, hq_claim = BodyBad, hq_heartbeat = BodyBad, hq_complete = BodyBad, hq_register = BodyBad, hq_logs = BodyBad,
     hq_upload = \<lparr>rd_bytes = [], rd_error = None\<rparr>, hq_length = 0, hq_type = []\<rparr>"

definition demo_entropy :: entropy where
  "demo_entropy = \<lparr>en_ids = demo_ids, en_runner = ''r'', en_request = ''fresh''\<rparr>"


end
