(* ===== verification/Startup.thy ===== *)
theory Startup
  imports Routes Agent Remote
begin

text \<open>
  How the two processes come up: the settings of cmd/server and cmd/runner, the migrations of the database
  (internal/store/migrate.go), and the gauges of internal/metrics. What the settings promise is put together
  with what the scheduler and the agent make of them, and a server started on the local
  artifact store is an initial state of the control plane.
\<close>


section \<open>Strings\<close>

text \<open>\<open>strings.Split\<close>, \<open>strings.Cut\<close> and \<open>strings.Join\<close> with a separator of one character.\<close>

fun split_on :: "char \<Rightarrow> string \<Rightarrow> string list" where
  "split_on d [] = [[]]"
| "split_on d (c # cs) =
     (if c = d then [] # split_on d cs
      else case split_on d cs of [] \<Rightarrow> [[c]] | seg # segs \<Rightarrow> (c # seg) # segs)"

fun cut_on :: "char \<Rightarrow> string \<Rightarrow> (string \<times> string) option" where
  "cut_on d [] = None"
| "cut_on d (c # cs) = (if c = d then Some ([], cs) else map_option (apfst (Cons c)) (cut_on d cs))"

fun join_on :: "char \<Rightarrow> string list \<Rightarrow> string" where
  "join_on d [] = []"
| "join_on d [s] = s"
| "join_on d (s # ss) = s @ d # join_on d ss"

text \<open>\<open>strings.TrimRight(s, "/")\<close>.\<close>

definition trim_slashes :: "string \<Rightarrow> string" where
  "trim_slashes s = rev (dropWhile (\<lambda>c. c = CHR ''/'') (rev s))"


section \<open>Settings\<close>

text \<open>The environment gives the empty string for a variable that is not set. \<open>dur\<close> is \<open>time.ParseDuration\<close>, in nanoseconds.\<close>

type_synonym env = "string \<Rightarrow> string"

datatype config_error = Unset string | NotPositive string string | UnknownBackend string | NotLabel string | NoHostname | NoDocker | UnknownExecutor string

definition envOr :: "env \<Rightarrow> string \<Rightarrow> string \<Rightarrow> string" where
  "envOr env key d = (if env key \<noteq> [] then env key else d)"

definition env_positive :: "env \<Rightarrow> (string \<Rightarrow> int option) \<Rightarrow> string \<Rightarrow> int \<Rightarrow> config_error + int" where
  "env_positive env parse key d =
     (if env key = [] then Inr d
      else case parse (env key) of
        None \<Rightarrow> Inl (NotPositive key (env key))
      | Some n \<Rightarrow> if n \<le> 0 then Inl (NotPositive key (env key)) else Inr n)"

subsection \<open>cmd/server\<close>

record server_config =
  sc_listen :: string
  sc_db :: string
  sc_token :: string
  sc_lease_ttl :: int
  sc_max_attempts :: int
  sc_log_cap :: int
  sc_backend :: string
  sc_blob_dir :: string
  sc_remote :: remote_config

definition server_defaults :: "env \<Rightarrow> server_config" where
  "server_defaults env =
     \<lparr>sc_listen = envOr env ''QUARRY_LISTEN'' '':8080'', sc_db = envOr env ''QUARRY_DB'' ''quarry.db'',
      sc_token = env ''QUARRY_API_TOKEN'', sc_lease_ttl = DefaultLeaseTTL, sc_max_attempts = DefaultMaxAttempts, sc_log_cap = DefaultLogCapBytes,
      sc_backend = envOr env ''QUARRY_ARTIFACT_BACKEND'' ''local'', sc_blob_dir = envOr env ''QUARRY_ARTIFACT_DIR'' ''quarry-artifacts'',
      sc_remote = \<lparr>rc_base = env ''QUARRY_ARTIFACT_REMOTE_URL'', rc_bucket = envOr env ''QUARRY_ARTIFACT_REMOTE_BUCKET'' ''quarry-artifacts'',
        rc_token = env ''QUARRY_ARTIFACT_REMOTE_TOKEN'', rc_spool = [], rc_request_timeout = 0, rc_transfer_timeout = 0, rc_attempts = 0,
        rc_backoff = 0, rc_max_backoff = 0\<rparr>\<rparr>"

definition server_loadConfig :: "env \<Rightarrow> (string \<Rightarrow> int option) \<Rightarrow> config_error + server_config" where
  "server_loadConfig env dur =
     (let c = server_defaults env in
      if sc_token c = [] then Inl (Unset ''QUARRY_API_TOKEN'')
      else if sc_backend c = ''remote'' \<and> rc_base (sc_remote c) = [] then Inl (Unset ''QUARRY_ARTIFACT_REMOTE_URL'')
      else if sc_backend c \<noteq> ''remote'' \<and> sc_backend c \<noteq> ''local'' then Inl (UnknownBackend (sc_backend c))
      else
        (case env_positive env dur ''QUARRY_LEASE_TTL'' (sc_lease_ttl c) of
           Inl e \<Rightarrow> Inl e
         | Inr d \<Rightarrow>
             (case env_positive env ParseInt64 ''QUARRY_MAX_ATTEMPTS'' (sc_max_attempts c) of
                Inl e \<Rightarrow> Inl e
              | Inr n \<Rightarrow>
                  (case env_positive env ParseInt64 ''QUARRY_LOG_CAP'' (sc_log_cap c) of
                     Inl e \<Rightarrow> Inl e
                   | Inr k \<Rightarrow> Inr (c\<lparr>sc_lease_ttl := d, sc_max_attempts := n, sc_log_cap := k\<rparr>)))))"

text \<open>What \<open>run\<close> makes of the settings: \<open>openArtifacts\<close> opens the backend, \<open>api.New\<close> is around \<open>scheduler.New\<close>.\<close>

definition scheduler_config :: "server_config \<Rightarrow> Config" where
  "scheduler_config c = \<lparr>c_lease_ttl = sc_lease_ttl c, c_log_cap_bytes = sc_log_cap c, c_max_attempts = sc_max_attempts c, c_monitor_interval = 0,
     c_runner_offline_after = 0, c_timeout_grace = 0\<rparr>"

datatype blobs = LocalBlobs localfs | RemoteBlobs remote_config

datatype start_error = BadConfig config_error | NoDatabase | NoDirectory | NoRemote "remote_error option" | NoListener

text \<open>
  \<open>dir\<close> is the tree found or made at the configured directory (\<open>None\<close>: it cannot be made); \<open>valid\<close>, \<open>ctx\<close>, \<open>co\<close>
  and \<open>w\<close> are what \<open>remote.New\<close> meets.
\<close>

definition openArtifacts :: "server_config \<Rightarrow> localfs option \<Rightarrow> bool \<Rightarrow> ctx \<Rightarrow> 'c coordinator \<Rightarrow> 'c \<Rightarrow> (start_error + blobs) \<times> 'c" where
  "openArtifacts c dir valid ctx co w =
     (if sc_backend c = ''remote'' then
        (case remote_New valid (sc_remote c) ctx co w of
           (Inl e, w') \<Rightarrow> (Inl (NoRemote e), w')
         | (Inr cfg, w') \<Rightarrow> (Inr (RemoteBlobs cfg), w'))
      else (case dir of None \<Rightarrow> (Inl NoDirectory, w) | Some fs \<Rightarrow> (Inr (LocalBlobs fs), w)))"

record started =
  sd_sched :: Scheduler
  sd_blobs :: blobs
  sd_token :: string

text \<open>
  \<open>run\<close> up to the moment it serves: \<open>db\<close> is the migrated database, or \<open>None\<close> when it does not open or its states cannot be counted, and
  \<open>listens\<close> whether the address could be bound.
\<close>

definition server_run :: "env \<Rightarrow> (string \<Rightarrow> int option) \<Rightarrow> store option \<Rightarrow> localfs option \<Rightarrow> bool \<Rightarrow> ctx \<Rightarrow> 'c coordinator \<Rightarrow> bool \<Rightarrow> 'c
    \<Rightarrow> (start_error + started) \<times> 'c" where
  "server_run env dur db dir valid ctx co listens w =
     (case server_loadConfig env dur of
        Inl e \<Rightarrow> (Inl (BadConfig e), w)
      | Inr c \<Rightarrow>
          (case db of
             None \<Rightarrow> (Inl NoDatabase, w)
           | Some s \<Rightarrow>
               (case openArtifacts c dir valid ctx co w of
                  (Inl e, w') \<Rightarrow> (Inl e, w')
                | (Inr b, w') \<Rightarrow>
                    if \<not> listens then (Inl NoListener, w')
                    else (Inr \<lparr>sd_sched = New s new_metrics (scheduler_config c), sd_blobs = b, sd_token = sc_token c\<rparr>, w'))))"

subsection \<open>cmd/runner\<close>

fun label_loop :: "string list \<Rightarrow> (string \<times> string) list \<Rightarrow> config_error + (string \<times> string) list" where
  "label_loop [] out = Inr out"
| "label_loop (kv # kvs) out =
     (let kv' = TrimSpace kv in
      if kv' = [] then label_loop kvs out
      else case cut_on (CHR ''='') kv' of
        None \<Rightarrow> Inl (NotLabel kv')
      | Some (k, v) \<Rightarrow>
          if TrimSpace k = [] then Inl (NotLabel kv') else label_loop kvs (AList.update (TrimSpace k) (TrimSpace v) out))"

definition parseLabels :: "string \<Rightarrow> config_error + (string \<times> string) list" where
  "parseLabels s = label_loop (split_on (CHR '','') s) []"

record runner_config =
  rg_agent :: agent_config
  rg_executor :: string
  rg_keep_failed :: bool
  rg_metrics :: string

definition runner_defaults :: "env \<Rightarrow> string \<Rightarrow> runner_config" where
  "runner_defaults env version =
     \<lparr>rg_agent = \<lparr>ac_server_url = trim_slashes (env ''QUARRY_SERVER''), ac_token = env ''QUARRY_API_TOKEN'', ac_name = env ''QUARRY_RUNNER_NAME'',
        ac_labels = [], ac_capacity = DefaultCapacity, ac_version = version, ac_poll_interval = 0, ac_heartbeat_interval = 0,
        ac_complete_retries = 0, ac_complete_backoff = 0, ac_log_flush_interval = 0, ac_log_flush_bytes = 0, ac_log_flush_timeout = 0\<rparr>,
      rg_executor = envOr env ''QUARRY_EXECUTOR'' ''fake'', rg_keep_failed = (env ''QUARRY_KEEP_FAILED'' = ''1''),
      rg_metrics = env ''QUARRY_METRICS_LISTEN''\<rparr>"

definition runner_loadConfig :: "env \<Rightarrow> (string \<Rightarrow> int option) \<Rightarrow> string option \<Rightarrow> string \<Rightarrow> config_error + runner_config" where
  "runner_loadConfig env dur host version =
     (let c = runner_defaults env version; a = rg_agent c in
      if ac_server_url a = [] \<or> ac_token a = [] then Inl (Unset ''QUARRY_SERVER'')
      else
        (case (if ac_name a = [] then host else Some (ac_name a)) of
           None \<Rightarrow> Inl NoHostname
         | Some name \<Rightarrow>
             (case (if env ''QUARRY_LABELS'' = [] then Inr [] else parseLabels (env ''QUARRY_LABELS'')) of
                Inl e \<Rightarrow> Inl e
              | Inr labels \<Rightarrow>
                  (case env_positive env ParseInt64 ''QUARRY_CAPACITY'' (ac_capacity a) of
                     Inl e \<Rightarrow> Inl e
                   | Inr n \<Rightarrow>
                       (case env_positive env dur ''QUARRY_POLL_INTERVAL'' 0 of
                          Inl e \<Rightarrow> Inl e
                        | Inr p \<Rightarrow>
                            (case env_positive env dur ''QUARRY_HEARTBEAT_INTERVAL'' 0 of
                               Inl e \<Rightarrow> Inl e
                             | Inr h \<Rightarrow> Inr (c\<lparr>rg_agent := a\<lparr>ac_name := name, ac_labels := labels, ac_capacity := n,
                                 ac_poll_interval := p, ac_heartbeat_interval := h\<rparr>\<rparr>)))))))"

text \<open>\<open>newExecutor\<close>: \<open>docker\<close> is whether a Docker client could be made.\<close>

definition newExecutor :: "runner_config \<Rightarrow> bool \<Rightarrow> config_error option" where
  "newExecutor c docker =
     (if rg_executor c = ''fake'' then None
      else if rg_executor c = ''docker'' then (if docker then None else Some NoDocker)
      else Some (UnknownExecutor (rg_executor c)))"

text \<open>The start of a runner up to \<open>agent.New\<close>.\<close>

definition runner_run :: "env \<Rightarrow> (string \<Rightarrow> int option) \<Rightarrow> string option \<Rightarrow> string \<Rightarrow> bool \<Rightarrow> config_error + (agent_config \<times> agent) option" where
  "runner_run env dur host version docker =
     (case runner_loadConfig env dur host version of
        Inl e \<Rightarrow> Inl e
      | Inr c \<Rightarrow> (case newExecutor c docker of Some e \<Rightarrow> Inl e | None \<Rightarrow> Inr (agent_New (rg_agent c) True)))"


section \<open>migrate.go\<close>

text \<open>
  The embedded files as (name, contents) in the order of their names; the schema is whatever the SQL moves, and \<open>exec\<close> is
  what executing a script does to it, \<open>None\<close> when it fails.
\<close>

record migration =
  mg_version :: int
  mg_name :: string
  mg_sql :: string

datatype migration_error = BadName string | BadVersion string | Twice int | ApplyFailed string

fun load_loop :: "(string \<times> string) list \<Rightarrow> int list \<Rightarrow> migration list \<Rightarrow> migration_error + migration list" where
  "load_loop [] seen ms = Inr ms"
| "load_loop ((name, body) # es) seen ms =
     (if \<not> suffix ''.sql'' name then load_loop es seen ms
      else case cut_on (CHR ''_'') name of
        None \<Rightarrow> Inl (BadName name)
      | Some (pre, _) \<Rightarrow>
          (case ParseInt64 pre of
             None \<Rightarrow> Inl (BadVersion name)
           | Some v \<Rightarrow>
               if v \<le> 0 then Inl (BadVersion name)
               else if v \<in> set seen then Inl (Twice v)
               else load_loop es (v # seen) (ms @ [\<lparr>mg_version = v, mg_name = name, mg_sql = body\<rparr>])))"

definition loadMigrations :: "(string \<times> string) list \<Rightarrow> migration_error + migration list" where
  "loadMigrations files = map_sum (\<lambda>e. e) (sort_key mg_version) (load_loop files [] [])"

record 's database =
  db_schema :: 's
  db_applied :: "(int \<times> string \<times> int) list"

text \<open>One migration and the row that records it, in one transaction: an error leaves both out.\<close>

definition apply_migration :: "(string \<Rightarrow> 's \<Rightarrow> 's option) \<Rightarrow> (migration \<Rightarrow> int) \<Rightarrow> migration \<Rightarrow> 's database \<Rightarrow> 's database option" where
  "apply_migration exec now m db =
     (if mg_version m \<in> fst ` set (db_applied db) then Some db
      else case exec (mg_sql m) (db_schema db) of
        None \<Rightarrow> None
      | Some s \<Rightarrow> Some (db\<lparr>db_schema := s, db_applied := db_applied db @ [(mg_version m, mg_name m, now m)]\<rparr>))"

fun migrate_loop :: "(string \<Rightarrow> 's \<Rightarrow> 's option) \<Rightarrow> (migration \<Rightarrow> int) \<Rightarrow> migration list \<Rightarrow> 's database \<Rightarrow> migration_error option \<times> 's database" where
  "migrate_loop exec now [] db = (None, db)"
| "migrate_loop exec now (m # ms) db =
     (case apply_migration exec now m db of
        None \<Rightarrow> (Some (ApplyFailed (mg_name m)), db)
      | Some db' \<Rightarrow> migrate_loop exec now ms db')"

definition migrate :: "(string \<times> string) list \<Rightarrow> (string \<Rightarrow> 's \<Rightarrow> 's option) \<Rightarrow> (migration \<Rightarrow> int) \<Rightarrow> 's database \<Rightarrow> migration_error option \<times> 's database" where
  "migrate files exec now db = (case loadMigrations files of Inl e \<Rightarrow> (Some e, db) | Inr ms \<Rightarrow> migrate_loop exec now ms db)"

definition SchemaVersion :: "'s database \<Rightarrow> int" where
  "SchemaVersion db = foldr max (map fst (db_applied db)) 0"


section \<open>metrics.go and counts.go\<close>

text \<open>\<open>m[k]++\<close> over a list of keys.\<close>

definition bump :: "'k \<Rightarrow> ('k \<times> nat) list \<Rightarrow> ('k \<times> nat) list" where
  "bump k m = AList.update k (Suc (case map_of m k of None \<Rightarrow> 0 | Some n \<Rightarrow> n)) m"

definition count_by :: "'k list \<Rightarrow> ('k \<times> nat) list" where
  "count_by ks = fold bump ks []"

definition LabelKey :: "(string \<times> string) list \<Rightarrow> string" where
  "LabelKey labels = join_on (CHR '','') (map (\<lambda>k. k @ CHR ''='' # the (map_of labels k)) (sort (remdups (map fst labels))))"

record snapshot =
  sn_queue :: "(string \<times> nat) list"
  sn_runners :: "(runner_state \<times> nat) list"

fun label_keys :: "Job list \<Rightarrow> string list stx" where
  "label_keys [] = tx_return []"
| "label_keys (j # js) = tx_bind (specLabels j) (\<lambda>need. tx_bind (label_keys js) (\<lambda>ks. tx_return (LabelKey need # ks)))"

definition Snapshot :: "snapshot stx" where
  "Snapshot =
     tx_bind ListQueuedJobs (\<lambda>queued.
     tx_bind (label_keys queued) (\<lambda>keys.
     tx_bind ListRunners (\<lambda>rs. tx_return \<lparr>sn_queue = count_by keys, sn_runners = count_by (map rn_state rs)\<rparr>)))"

text \<open>\<open>Collect\<close>: the gauges of a scrape; a failed read exports nothing.\<close>

definition Collect :: "store \<Rightarrow> ((string \<times> nat) + (runner_state \<times> nat)) list" where
  "Collect s = (case fst (Snapshot s) of Inl _ \<Rightarrow> [] | Inr snap \<Rightarrow> map Inl (sn_queue snap) @ map Inr (sn_runners snap))"

record state_counts =
  ct_runs :: "(run_state \<times> nat) list"
  ct_jobs :: "(job_state \<times> nat) list"
  ct_runners :: "(runner_state \<times> nat) list"

definition StateCounts :: "store \<Rightarrow> state_counts" where
  "StateCounts s = \<lparr>ct_runs = count_by (map r_state (t_runs s)), ct_jobs = count_by (map j_state (t_jobs s)),
     ct_runners = count_by (map rn_state (t_runners s))\<rparr>"


section \<open>What the settings promise\<close>

definition setting_ok :: "env \<Rightarrow> (string \<Rightarrow> int option) \<Rightarrow> string \<Rightarrow> bool" where
  "setting_ok env parse key \<longleftrightarrow> env key = [] \<or> (\<exists>n > 0. parse (env key) = Some n)"

definition setting :: "env \<Rightarrow> (string \<Rightarrow> int option) \<Rightarrow> string \<Rightarrow> int \<Rightarrow> int" where
  "setting env parse key d = (if env key = [] then d else the (parse (env key)))"

lemma env_positive_Inr: "env_positive env parse key d = Inr n \<longleftrightarrow> setting_ok env parse key \<and> n = setting env parse key d"
  by (auto simp: env_positive_def setting_ok_def setting_def split: option.splits if_splits)

lemma env_positive_Inl: "(\<exists>e. env_positive env parse key d = Inl e) \<longleftrightarrow> \<not> setting_ok env parse key"
  by (auto simp: env_positive_def setting_ok_def split: option.splits if_splits)

lemma setting_positive: "setting_ok env parse key \<Longrightarrow> 0 < d \<Longrightarrow> 0 < setting env parse key d"
  by (auto simp: setting_ok_def setting_def)

lemma chain_Inr: "(case p of Inl e \<Rightarrow> Inl e | Inr d \<Rightarrow> f d) = Inr c \<longleftrightarrow> (\<exists>d. p = Inr d \<and> f d = Inr c)"
  by (cases p) auto

lemma server_loadConfig_Inr:
  "server_loadConfig env dur = Inr c \<longleftrightarrow>
     env ''QUARRY_API_TOKEN'' \<noteq> [] \<and>
     (envOr env ''QUARRY_ARTIFACT_BACKEND'' ''local'' = ''local'' \<or>
      envOr env ''QUARRY_ARTIFACT_BACKEND'' ''local'' = ''remote'' \<and> env ''QUARRY_ARTIFACT_REMOTE_URL'' \<noteq> []) \<and>
     setting_ok env dur ''QUARRY_LEASE_TTL'' \<and> setting_ok env ParseInt64 ''QUARRY_MAX_ATTEMPTS'' \<and> setting_ok env ParseInt64 ''QUARRY_LOG_CAP'' \<and>
     c = (server_defaults env)\<lparr>sc_lease_ttl := setting env dur ''QUARRY_LEASE_TTL'' DefaultLeaseTTL,
       sc_max_attempts := setting env ParseInt64 ''QUARRY_MAX_ATTEMPTS'' DefaultMaxAttempts,
       sc_log_cap := setting env ParseInt64 ''QUARRY_LOG_CAP'' DefaultLogCapBytes\<rparr>"
proof -
  let ?b = "sc_backend (server_defaults env)" and ?u = "rc_base (sc_remote (server_defaults env))"
  have f: "?b = envOr env ''QUARRY_ARTIFACT_BACKEND'' ''local''" "?u = env ''QUARRY_ARTIFACT_REMOTE_URL''" "sc_token (server_defaults env) = env ''QUARRY_API_TOKEN''"
    "sc_lease_ttl (server_defaults env) = DefaultLeaseTTL" "sc_max_attempts (server_defaults env) = DefaultMaxAttempts"
    "sc_log_cap (server_defaults env) = DefaultLogCapBytes"
    by (simp_all add: server_defaults_def)
  show ?thesis
  proof (cases "env ''QUARRY_API_TOKEN'' \<noteq> [] \<and> (?b = ''local'' \<or> ?b = ''remote'' \<and> ?u \<noteq> [])")
    case True
    then have "server_loadConfig env dur =
        (case env_positive env dur ''QUARRY_LEASE_TTL'' DefaultLeaseTTL of
           Inl e \<Rightarrow> Inl e
         | Inr d \<Rightarrow>
             (case env_positive env ParseInt64 ''QUARRY_MAX_ATTEMPTS'' DefaultMaxAttempts of
                Inl e \<Rightarrow> Inl e
              | Inr n \<Rightarrow>
                  (case env_positive env ParseInt64 ''QUARRY_LOG_CAP'' DefaultLogCapBytes of
                     Inl e \<Rightarrow> Inl e
                   | Inr k \<Rightarrow> Inr ((server_defaults env)\<lparr>sc_lease_ttl := d, sc_max_attempts := n, sc_log_cap := k\<rparr>))))"
      unfolding server_loadConfig_def Let_def f by auto
    then show ?thesis using True unfolding f by (simp add: chain_Inr env_positive_Inr conj_assoc eq_commute [of c])
  next
    case False
    then show ?thesis by (auto simp: server_loadConfig_def Let_def f)
  qed
qed

text \<open>
  Settings the server can run with: a token, a known backend with its address, and every number that is set a
  positive one.
\<close>

definition settings_ok :: "env \<Rightarrow> (string \<Rightarrow> int option) \<Rightarrow> bool" where
  "settings_ok env dur \<longleftrightarrow> env ''QUARRY_API_TOKEN'' \<noteq> [] \<and>
     (env ''QUARRY_ARTIFACT_BACKEND'' \<in> {[], ''local''} \<or>
      env ''QUARRY_ARTIFACT_BACKEND'' = ''remote'' \<and> env ''QUARRY_ARTIFACT_REMOTE_URL'' \<noteq> []) \<and>
     setting_ok env dur ''QUARRY_LEASE_TTL'' \<and> setting_ok env ParseInt64 ''QUARRY_MAX_ATTEMPTS'' \<and> setting_ok env ParseInt64 ''QUARRY_LOG_CAP''"

definition remote_settings :: "env \<Rightarrow> remote_config" where
  "remote_settings env = \<lparr>rc_base = env ''QUARRY_ARTIFACT_REMOTE_URL'',
     rc_bucket = (if env ''QUARRY_ARTIFACT_REMOTE_BUCKET'' = [] then ''quarry-artifacts'' else env ''QUARRY_ARTIFACT_REMOTE_BUCKET''),
     rc_token = env ''QUARRY_ARTIFACT_REMOTE_TOKEN'', rc_spool = [], rc_request_timeout = 0, rc_transfer_timeout = 0, rc_attempts = 0,
     rc_backoff = 0, rc_max_backoff = 0\<rparr>"

lemma settings_accepted:
  "(\<exists>c. server_loadConfig env dur = Inr c) \<longleftrightarrow> settings_ok env dur"
  unfolding server_loadConfig_Inr settings_ok_def by (auto simp: envOr_def)

lemma settings_kept:
  assumes "server_loadConfig env dur = Inr c"
  shows "sc_token c = env ''QUARRY_API_TOKEN''" "sc_lease_ttl c = setting env dur ''QUARRY_LEASE_TTL'' DefaultLeaseTTL"
    "sc_max_attempts c = setting env ParseInt64 ''QUARRY_MAX_ATTEMPTS'' DefaultMaxAttempts"
    "sc_log_cap c = setting env ParseInt64 ''QUARRY_LOG_CAP'' DefaultLogCapBytes"
    "sc_remote c = remote_settings env" "sc_backend c = ''remote'' \<longleftrightarrow> env ''QUARRY_ARTIFACT_BACKEND'' = ''remote''"
  using assms unfolding server_loadConfig_Inr by (auto simp: server_defaults_def remote_settings_def envOr_def)

lemma scheduler_settings:
  fixes s :: store and m :: metrics
  assumes "server_loadConfig env dur = Inr c"
  defines "sc \<equiv> New s m (scheduler_config c)"
  shows "ttl sc = milliseconds (setting env dur ''QUARRY_LEASE_TTL'' DefaultLeaseTTL)"
    "maxAttempts sc = setting env ParseInt64 ''QUARRY_MAX_ATTEMPTS'' DefaultMaxAttempts" "0 < maxAttempts sc"
    "logCap sc = setting env ParseInt64 ''QUARRY_LOG_CAP'' DefaultLogCapBytes" "0 < logCap sc"
proof -
  have d: "0 < DefaultLeaseTTL" "0 < DefaultMaxAttempts" "0 < DefaultLogCapBytes"
    by (simp_all add: DefaultLeaseTTL_def DefaultMaxAttempts_def DefaultLogCapBytes_def)
  have ok: "settings_ok env dur" using assms(1) settings_accepted by blast
  have pos: "0 < setting env dur ''QUARRY_LEASE_TTL'' DefaultLeaseTTL" "0 < setting env ParseInt64 ''QUARRY_MAX_ATTEMPTS'' DefaultMaxAttempts"
    "0 < setting env ParseInt64 ''QUARRY_LOG_CAP'' DefaultLogCapBytes"
    using ok d unfolding settings_ok_def by (blast intro: setting_positive)+
  then show "ttl sc = milliseconds (setting env dur ''QUARRY_LEASE_TTL'' DefaultLeaseTTL)"
    "maxAttempts sc = setting env ParseInt64 ''QUARRY_MAX_ATTEMPTS'' DefaultMaxAttempts" "0 < maxAttempts sc"
    "logCap sc = setting env ParseInt64 ''QUARRY_LOG_CAP'' DefaultLogCapBytes" "0 < logCap sc"
    by (simp_all add: sc_def New_def Let_def scheduler_config_def or_default_def settings_kept [OF assms(1)])
qed


definition demo_env :: env where
  "demo_env k = (if k = ''QUARRY_API_TOKEN'' then ''secret'' else if k = ''QUARRY_MAX_ATTEMPTS'' then ''5'' else [])"


text \<open>A lease below a millisecond is a positive duration and so accepted, and is none at all for the scheduler.\<close>

lemma short_lease: "0 \<le> sc_lease_ttl c \<Longrightarrow> sc_lease_ttl c < 1000000 \<Longrightarrow> 0 < sc_lease_ttl c \<Longrightarrow> ttl (New s m (scheduler_config c)) = 0"
  by (simp add: New_def Let_def scheduler_config_def or_default_def milliseconds_def)


section \<open>A started runner\<close>

text \<open>
  A started runner. Settings that are accepted give a runner that comes up (on a host that has a name), with
  positive capacity and intervals: the ones that were set, or the defaults.
\<close>

theorem runner_starts:
  assumes "runner_run env dur host version docker = Inr r" and "host \<noteq> Some []"
  shows "\<exists>cfg g. r = Some (cfg, g) \<and> ac_token cfg = env ''QUARRY_API_TOKEN'' \<and> ac_token cfg \<noteq> [] \<and>
    ac_server_url cfg = trim_slashes (env ''QUARRY_SERVER'') \<and> ac_server_url cfg \<noteq> [] \<and>
    ac_capacity cfg = setting env ParseInt64 ''QUARRY_CAPACITY'' DefaultCapacity \<and> 0 < ac_capacity cfg \<and>
    ac_poll_interval cfg = setting env dur ''QUARRY_POLL_INTERVAL'' DefaultPollInterval \<and> 0 < ac_poll_interval cfg \<and>
    ac_heartbeat_interval cfg = setting env dur ''QUARRY_HEARTBEAT_INTERVAL'' DefaultHeartbeatInterval \<and> 0 < ac_heartbeat_interval cfg \<and>
    ag_capacity g = nat (ac_capacity cfg) \<and> (env ''QUARRY_LABELS'' \<noteq> [] \<longrightarrow> parseLabels (env ''QUARRY_LABELS'') = Inr (ac_labels cfg))"
proof -
  let ?a = "rg_agent (runner_defaults env version)"
  have a: "ac_server_url ?a = trim_slashes (env ''QUARRY_SERVER'')" "ac_token ?a = env ''QUARRY_API_TOKEN''" "ac_capacity ?a = DefaultCapacity"
    by (simp_all add: runner_defaults_def)
  from assms(1) obtain c where load: "runner_loadConfig env dur host version = Inr c" and r: "r = agent_New (rg_agent c) True"
    by (auto simp: runner_run_def split: sum.splits option.splits)
  from load obtain name labels n p h where name: "(if ac_name ?a = [] then host else Some (ac_name ?a)) = Some name"
    and labels: "(if env ''QUARRY_LABELS'' = [] then Inr [] else parseLabels (env ''QUARRY_LABELS'')) = Inr labels"
    and n: "env_positive env ParseInt64 ''QUARRY_CAPACITY'' (ac_capacity ?a) = Inr n"
    and p: "env_positive env dur ''QUARRY_POLL_INTERVAL'' 0 = Inr p" and h: "env_positive env dur ''QUARRY_HEARTBEAT_INTERVAL'' 0 = Inr h"
    and set: "\<not> (ac_server_url ?a = [] \<or> ac_token ?a = [])"
    and c: "rg_agent c = ?a\<lparr>ac_name := name, ac_labels := labels, ac_capacity := n, ac_poll_interval := p, ac_heartbeat_interval := h\<rparr>"
    unfolding runner_loadConfig_def Let_def by (auto split: if_split_asm option.splits sum.splits)
  have name': "name \<noteq> []" using name assms(2) by (auto split: if_splits)
  have pos: "0 < DefaultCapacity" "0 < DefaultPollInterval" "0 < DefaultHeartbeatInterval"
    by (simp_all add: DefaultCapacity_def DefaultPollInterval_def DefaultHeartbeatInterval_def)
  have n': "n = setting env ParseInt64 ''QUARRY_CAPACITY'' DefaultCapacity" "0 < n"
    using n a(3) pos(1) by (auto simp: env_positive_Inr intro: setting_positive)
  have either: "(if x \<le> 0 then d else x) = setting env dur k d \<and> 0 < setting env dur k d" if "env_positive env dur k 0 = Inr x" "0 < d" for x d k
    using that by (auto simp: env_positive_Inr setting_ok_def setting_def)
  note p' = either [OF p pos(2)] and h' = either [OF h pos(3)]
  show ?thesis using r c name' set n' p' h' labels a by (auto simp: agent_New_def Let_def)
qed

definition demo_runner_env :: env where
  "demo_runner_env k = (if k = ''QUARRY_API_TOKEN'' then ''secret'' else if k = ''QUARRY_SERVER'' then ''http://q/'' else if k = ''QUARRY_LABELS'' then ''os=linux, gpu='' else [])"

theorem runner_starts_witness:
  "\<exists>cfg g. runner_run demo_runner_env (\<lambda>_. None) (Some ''host'') ''dev'' False = Inr (Some (cfg, g)) \<and> ac_capacity cfg = 2 \<and>
     parseLabels ''os=linux, gpu='' = Inr (ac_labels cfg)"
proof -
  have "\<not> isl (runner_run demo_runner_env (\<lambda>_. None) (Some ''host'') ''dev'' False)" by code_simp
  then obtain r where r: "runner_run demo_runner_env (\<lambda>_. None) (Some ''host'') ''dev'' False = Inr r" by (cases "runner_run demo_runner_env (\<lambda>_. None) (Some ''host'') ''dev'' False") auto
  from runner_starts [OF r] obtain cfg g where "r = Some (cfg, g)" "ac_capacity cfg = setting demo_runner_env ParseInt64 ''QUARRY_CAPACITY'' DefaultCapacity"
    "demo_runner_env ''QUARRY_LABELS'' \<noteq> [] \<longrightarrow> parseLabels (demo_runner_env ''QUARRY_LABELS'') = Inr (ac_labels cfg)" by auto
  with r show ?thesis by (simp add: demo_runner_env_def setting_def DefaultCapacity_def)
qed


section \<open>Migrations\<close>

text \<open>Two databases that differ at most in when their migrations were recorded.\<close>

definition same_db :: "'s database \<Rightarrow> 's database \<Rightarrow> bool" where
  "same_db a b \<longleftrightarrow> db_schema a = db_schema b \<and> map (\<lambda>(v, n, _). (v, n)) (db_applied a) = map (\<lambda>(v, n, _). (v, n)) (db_applied b)"

lemma same_db_versions:
  assumes "same_db a b"
  shows "fst ` set (db_applied a) = fst ` set (db_applied b)"
proof -
  have "map fst (map (\<lambda>(v, n, _). (v, n)) (db_applied a)) = map fst (map (\<lambda>(v, n, _). (v, n)) (db_applied b))" using assms by (simp add: same_db_def)
  then have "map fst (db_applied a) = map fst (db_applied b)" by (simp add: comp_def case_prod_unfold)
  then show ?thesis by (metis set_map)
qed

lemma apply_grows: "apply_migration exec now m db = Some db' \<Longrightarrow> prefix (db_applied db) (db_applied db')"
  by (auto simp: apply_migration_def split: if_splits option.splits)

lemma migrate_loop_grows: "migrate_loop exec now ms db = (r, db') \<Longrightarrow> prefix (db_applied db) (db_applied db')"
proof (induction ms arbitrary: db)
  case (Cons m ms)
  show ?case
  proof (cases "apply_migration exec now m db")
    case (Some x)
    with Cons have "prefix (db_applied x) (db_applied db')" by simp
    with apply_grows [OF Some] show ?thesis by (rule prefix_order.trans)
  qed (use Cons.prems in simp)
qed simp

lemma apply_same:
  assumes "same_db a b"
  shows "rel_option same_db (apply_migration exec now m a) (apply_migration exec now' m b)"
  using assms same_db_versions [OF assms] by (auto simp: apply_migration_def same_db_def split: option.splits)

lemma migrate_loop_same:
  "same_db a b \<Longrightarrow> migrate_loop exec now ms a = (r, a') \<Longrightarrow> migrate_loop exec now' ms b = (r', b') \<Longrightarrow> r = r' \<and> same_db a' b'"
proof (induction ms arbitrary: a b)
  case (Cons m ms)
  from apply_same [OF Cons.prems(1), of exec now m now'] show ?case
    using Cons.prems Cons.IH by (cases rule: option.rel_cases) auto
qed auto

lemma apply_once:
  assumes "\<And>q x. exec1 q x = None \<or> exec1 q x = exec q x" and "apply_migration exec1 now m a = Some a'"
  shows "apply_migration exec now m a = Some a'"
  using assms(2) assms(1) [of "mg_sql m" "db_schema a"] by (auto simp: apply_migration_def split: if_splits option.splits)

text \<open>An interrupted run, then a complete one: as if the first had never been.\<close>

lemma migrate_loop_resumes:
  assumes "\<And>q x. exec1 q x = None \<or> exec1 q x = exec q x"
    and "migrate_loop exec1 now1 ms a = (r1, a1)" and "migrate_loop exec now2 ms a1 = (r2, a2)" and "migrate_loop exec now3 ms b = (r3, b3)"
    and "same_db a b"
  shows "r2 = r3 \<and> same_db a2 b3"
  using assms(2-)
proof (induction ms arbitrary: a b a1)
  case Nil
  then show ?case by simp
next
  case (Cons m ms)
  note versions = same_db_versions [OF Cons.prems(4)]
  show ?case
  proof (cases "apply_migration exec1 now1 m a")
    case None
    then have fresh: "a1 = a" "mg_version m \<notin> fst ` set (db_applied a)" using Cons.prems(1) by (auto simp: apply_migration_def split: if_splits)
    show ?thesis using migrate_loop_same [OF Cons.prems(4)] Cons.prems(2,3) fresh(1) by blast
  next
    case (Some a')
    then have rest: "migrate_loop exec1 now1 ms a' = (r1, a1)" using Cons.prems(1) by simp
    have "mg_version m \<in> fst ` set (db_applied a')" using Some by (auto simp: apply_migration_def split: if_splits option.splits)
    then have again: "apply_migration exec now2 m a1 = Some a1"
      using migrate_loop_grows [OF rest] by (auto simp: apply_migration_def prefix_def)
    obtain b' where b': "apply_migration exec now3 m b = Some b'" "same_db a' b'"
      using Some apply_same [OF Cons.prems(4), of exec now1 m now3] apply_once [OF assms(1) Some] by (auto simp: option_rel_Some1)
    show ?thesis using Cons.IH [OF rest _ _ b'(2)] Cons.prems(2,3) again b'(1) by simp
  qed
qed

text \<open>The files are loaded with distinct positive versions, and applied in their order.\<close>

lemma load_loop_versions:
  "load_loop es seen ms = Inr ms' \<Longrightarrow> distinct (map mg_version ms) \<Longrightarrow> set seen = set (map mg_version ms) \<Longrightarrow> \<forall>m \<in> set ms. 0 < mg_version m \<Longrightarrow>
    distinct (map mg_version ms') \<and> (\<forall>m \<in> set ms'. 0 < mg_version m)"
  by (induction es seen ms rule: load_loop.induct) (auto split: if_splits option.splits prod.splits)

lemma loadMigrations_ordered:
  assumes "loadMigrations files = Inr ms"
  shows "sorted_wrt (<) (map mg_version ms)" and "\<forall>m \<in> set ms. 0 < mg_version m"
proof -
  from assms obtain raw where raw: "load_loop files [] [] = Inr raw" "ms = sort_key mg_version raw"
    by (cases "load_loop files [] []") (auto simp: loadMigrations_def)
  note v = load_loop_versions [OF raw(1)]
  have "mset (map mg_version ms) = mset (map mg_version raw)" unfolding raw(2) by (metis mset_map mset_sort)
  then have "distinct (map mg_version ms)" using v mset_eq_imp_distinct_iff by fastforce
  then show "sorted_wrt (<) (map mg_version ms)" by (simp add: strict_sorted_iff raw(2))
  show "\<forall>m \<in> set ms. 0 < mg_version m" using v raw(2) by simp
qed

lemma migrate_loop_applied:
  "migrate_loop exec now ms db = (r, db') \<Longrightarrow> distinct (map mg_version ms) \<Longrightarrow>
    \<exists>ms1 ms2. filter (\<lambda>m. mg_version m \<notin> fst ` set (db_applied db)) ms = ms1 @ ms2 \<and>
      db_applied db' = db_applied db @ map (\<lambda>m. (mg_version m, mg_name m, now m)) ms1 \<and> (r = None \<longrightarrow> ms2 = [])"
proof (induction ms arbitrary: db)
  case (Cons m ms)
  show ?case
  proof (cases "apply_migration exec now m db")
    case None
    then show ?thesis using Cons.prems(1) by auto
  next
    case (Some x)
    then have "migrate_loop exec now ms x = (r, db')" using Cons.prems(1) by simp
    from Cons.IH [OF this] Cons.prems(2) obtain ms1 ms2 where IH: "filter (\<lambda>m. mg_version m \<notin> fst ` set (db_applied x)) ms = ms1 @ ms2"
      "db_applied db' = db_applied x @ map (\<lambda>m. (mg_version m, mg_name m, now m)) ms1" "r = None \<longrightarrow> ms2 = []" by auto
    show ?thesis
    proof (cases "mg_version m \<in> fst ` set (db_applied db)")
      case True
      then have "x = db" using Some by (simp add: apply_migration_def)
      with True IH show ?thesis by (intro exI [of _ ms1] exI [of _ ms2]) simp
    next
      case False
      then have x: "db_applied x = db_applied db @ [(mg_version m, mg_name m, now m)]"
        using Some by (auto simp: apply_migration_def split: option.splits)
      have "filter (\<lambda>m'. mg_version m' \<notin> fst ` set (db_applied x)) ms = filter (\<lambda>m'. mg_version m' \<notin> fst ` set (db_applied db)) ms"
        using Cons.prems(2) unfolding x by (intro filter_cong refl) (auto simp: image_iff)
      with False IH x show ?thesis by (intro exI [of _ "m # ms1"] exI [of _ ms2]) simp
    qed
  qed
qed simp

lemma migrate_loop_noop: "\<forall>m \<in> set ms. mg_version m \<in> fst ` set (db_applied db) \<Longrightarrow> migrate_loop exec now ms db = (None, db)"
  by (induction ms) (auto simp: apply_migration_def)

text \<open>
  C38. Migrations resume. Whatever fails in one start of the server, at a migration or in the middle of one, the next
  complete run leaves the schema, the recorded versions and the outcome of a run that was never
  interrupted. The migrations recorded by a run are missing ones in ascending order of their versions;
  when it ends in order every migration is recorded, and running again changes nothing.
\<close>

theorem migrations_resume:
  assumes "\<forall>q x. exec1 q x = None \<or> exec1 q x = exec q x" and "migrate files exec1 now1 db = (r1, db1)"
    and "migrate files exec now2 db1 = (r2, db2)" and "migrate files exec now3 db = (r3, db3)"
  shows "r2 = r3 \<and> same_db db2 db3 \<and>
    (\<exists>vs. map fst (db_applied db1) = map fst (db_applied db) @ vs \<and> sorted_wrt (<) vs \<and> set vs \<inter> fst ` set (db_applied db) = {}) \<and>
    (r2 = None \<longrightarrow> (\<exists>ms. loadMigrations files = Inr ms \<and> mg_version ` set ms \<subseteq> fst ` set (db_applied db2)) \<and>
      migrate files exec now4 db2 = (None, db2))"
proof (cases "loadMigrations files")
  case (Inl e)
  with assms show ?thesis by (auto simp: migrate_def same_db_def)
next
  case (Inr ms)
  note loaded = loadMigrations_ordered(1) [OF Inr]
  then have dist: "distinct (map mg_version ms)" by (simp add: strict_sorted_iff)
  have runs: "migrate_loop exec1 now1 ms db = (r1, db1)" "migrate_loop exec now2 ms db1 = (r2, db2)" "migrate_loop exec now3 ms db = (r3, db3)"
    using assms(2-4) Inr by (simp_all add: migrate_def)
  have "same_db db db" by (simp add: same_db_def)
  then have same: "r2 = r3 \<and> same_db db2 db3" using migrate_loop_resumes [OF _ runs] assms(1) by blast
  obtain ms1 ms2 where first: "filter (\<lambda>m. mg_version m \<notin> fst ` set (db_applied db)) ms = ms1 @ ms2"
    "db_applied db1 = db_applied db @ map (\<lambda>m. (mg_version m, mg_name m, now1 m)) ms1" using migrate_loop_applied [OF runs(1) dist] by blast
  have "sorted_wrt (<) (map mg_version (ms1 @ ms2))" unfolding first(1) [symmetric] using loaded by (simp add: sorted_wrt_map sorted_wrt_filter)
  then have sorted: "sorted_wrt (<) (map mg_version ms1)" by (simp add: sorted_wrt_append)
  have "set ms1 \<subseteq> set (filter (\<lambda>m. mg_version m \<notin> fst ` set (db_applied db)) ms)" unfolding first(1) by simp
  then have fresh: "set (map mg_version ms1) \<inter> fst ` set (db_applied db) = {}" by auto
  have all: "\<forall>m \<in> set ms. mg_version m \<in> fst ` set (db_applied db2)" if "r2 = None"
  proof -
    obtain xs ys where xs: "filter (\<lambda>m. mg_version m \<notin> fst ` set (db_applied db1)) ms = xs @ ys" "r2 = None \<longrightarrow> ys = []"
      "db_applied db2 = db_applied db1 @ map (\<lambda>m. (mg_version m, mg_name m, now2 m)) xs" using migrate_loop_applied [OF runs(2) dist] by blast
    then have "set xs = {m \<in> set ms. mg_version m \<notin> fst ` set (db_applied db1)}" using that by (metis append_Nil2 set_filter)
    then show ?thesis using xs(3) by (force simp: image_Un)
  qed
  have "\<exists>vs. map fst (db_applied db1) = map fst (db_applied db) @ vs \<and> sorted_wrt (<) vs \<and> set vs \<inter> fst ` set (db_applied db) = {}"
    using sorted fresh first(2) by (intro exI [of _ "map mg_version ms1"]) (simp add: comp_def)
  with same all Inr migrate_loop_noop [of ms db2 exec now4] show ?thesis by (auto simp: migrate_def)
qed

definition demo_files :: "(string \<times> string) list" where
  "demo_files = [(''0001_init.sql'', ''a''), (''0002_labels.sql'', ''b''), (''README'', [])]"

definition demo_exec :: "bool \<Rightarrow> string \<Rightarrow> string \<Rightarrow> string option" where
  "demo_exec fails q x = (if fails \<and> q = ''b'' then None else Some (x @ q))"

theorem migrations_resume_witness:
  "\<exists>db1 db2. migrate demo_files (demo_exec True) (\<lambda>_. 1) \<lparr>db_schema = [], db_applied = []\<rparr> = (Some (ApplyFailed ''0002_labels.sql''), db1) \<and>
     migrate demo_files (demo_exec False) (\<lambda>_. 2) db1 = (None, db2) \<and> db_schema db2 = ''ab'' \<and> migrate demo_files (demo_exec False) (\<lambda>_. 3) db2 = (None, db2)"
proof -
  let ?db = "\<lparr>db_schema = [], db_applied = []\<rparr> :: string database" and ?db1 = "\<lparr>db_schema = ''a'', db_applied = [(1, ''0001_init.sql'', 1)]\<rparr> :: string database"
    and ?db2 = "\<lparr>db_schema = ''ab'', db_applied = [(1, ''0001_init.sql'', 1), (2, ''0002_labels.sql'', 2)]\<rparr> :: string database"
    and ?db3 = "\<lparr>db_schema = ''ab'', db_applied = [(1, ''0001_init.sql'', 3), (2, ''0002_labels.sql'', 3)]\<rparr> :: string database"
  have runs: "migrate demo_files (demo_exec True) (\<lambda>_. 1) ?db = (Some (ApplyFailed ''0002_labels.sql''), ?db1)"
    "migrate demo_files (demo_exec False) (\<lambda>_. 2) ?db1 = (None, ?db2)" "migrate demo_files (demo_exec False) (\<lambda>_. 3) ?db = (None, ?db3)"
    by code_simp+
  have "\<forall>q x. demo_exec True q x = None \<or> demo_exec True q x = demo_exec False q x" by (simp add: demo_exec_def)
  from migrations_resume [OF this runs] runs show ?thesis by (intro exI [of _ ?db1] exI [of _ ?db2]) auto
qed


section \<open>Labels and gauges\<close>

text \<open>Text without white space, and without the characters that labels are separated by.\<close>

definition label_text :: "char set \<Rightarrow> string \<Rightarrow> bool" where
  "label_text seps s \<longleftrightarrow> list_all (\<lambda>c. visible c \<and> c \<notin> seps) s"

lemma TrimSpace_text: "label_text seps s \<Longrightarrow> TrimSpace s = s"
proof (cases "s = []")
  case True
  then show ?thesis by (simp add: TrimSpace_def)
next
  case False
  assume "label_text seps s"
  then have "list_all visible s" by (simp add: label_text_def list_all_iff)
  with False show ?thesis by (rule TrimSpace_visible)
qed

lemma split_on_plain: "d \<notin> set s \<Longrightarrow> split_on d s = [s]"
  by (induction s) auto

lemma split_on_append: "d \<notin> set s \<Longrightarrow> split_on d (s @ d # t) = s # split_on d t"
  by (induction s) auto

lemma split_join_on: "ss \<noteq> [] \<Longrightarrow> \<forall>s \<in> set ss. d \<notin> set s \<Longrightarrow> split_on d (join_on d ss) = ss"
  by (induction d ss rule: join_on.induct) (auto simp: split_on_plain split_on_append)

lemma cut_on_append: "d \<notin> set s \<Longrightarrow> cut_on d (s @ d # t) = Some (s, t)"
  by (induction s) auto

definition label_pair :: "string \<times> string \<Rightarrow> string" where
  "label_pair kv = fst kv @ CHR ''='' # snd kv"

definition labels_ok :: "(string \<times> string) list \<Rightarrow> bool" where
  "labels_ok labels \<longleftrightarrow> (\<forall>(k, v) \<in> set labels. k \<noteq> [] \<and> label_text {CHR ''='', CHR '',''} k \<and> label_text {CHR '',''} v)"

lemma label_loop_pairs:
  "labels_ok labels \<Longrightarrow> label_loop (map label_pair labels) out = Inr (fold (\<lambda>(k, v). AList.update k v) labels out)"
proof (induction labels arbitrary: out)
  case (Cons kv labels)
  obtain k v where kv: "kv = (k, v)" by fastforce
  have k: "k \<noteq> []" "label_text {CHR ''='', CHR '',''} k" "label_text {CHR '',''} v" using Cons.prems kv by (simp_all add: labels_ok_def)
  then have "label_text {CHR '',''} (label_pair (k, v))" by (auto simp: label_text_def label_pair_def list_all_iff visible_def)
  moreover have "CHR ''='' \<notin> set k" using k(2) by (auto simp: label_text_def list_all_iff)
  moreover have "labels_ok labels" using Cons.prems by (simp add: labels_ok_def)
  ultimately show ?case using Cons.IH k kv
    by (simp add: Let_def TrimSpace_text cut_on_append [of "CHR ''=''" k v] label_pair_def)
qed simp

lemma label_pairs_plain: "labels_ok xs \<Longrightarrow> \<forall>s \<in> set (map label_pair xs). CHR '','' \<notin> set s"
  by (induction xs) (auto simp: labels_ok_def label_text_def label_pair_def list_all_iff)

lemma map_of_key: "map_of xs k = Some v \<Longrightarrow> k \<in> fst ` set xs"
  by (force dest: map_of_SomeD)

lemma map_of_updates: "distinct (map fst labels) \<Longrightarrow> map_of (fold (\<lambda>(k, v). AList.update k v) labels out) = map_of out ++ map_of labels"
proof (induction labels arbitrary: out)
  case (Cons kv labels)
  obtain k v where kv: "kv = (k, v)" by fastforce
  then have "k \<notin> dom (map_of labels)" using Cons.prems by (simp add: dom_map_of_conv_image_fst)
  with Cons kv show ?case by (simp add: update_conv' map_add_upd_left) (simp add: fun_eq_iff map_add_def)
qed simp

text \<open>
  Labels round trip. What the queue gauge shows for a set of labels, given to a runner as its labels, is read back as
  the same labels, for all keys and values without white space and separators; so equal gauge
  names mean equal requirements.
\<close>

theorem labels_roundtrip:
  assumes "labels_ok labels" and "distinct (map fst labels)"
  shows "\<exists>out. parseLabels (LabelKey labels) = Inr out \<and> map_of out = map_of labels"
proof -
  let ?ks = "sort (remdups (map fst labels))"
  let ?sorted = "map (\<lambda>k. (k, the (map_of labels k))) ?ks"
  have mem: "(k, the (map_of labels k)) \<in> set labels" if "k \<in> set ?ks" for k
    using that by (auto simp: assms(2) intro!: map_of_SomeD)
  have ok: "labels_ok ?sorted" using assms(1) mem by (auto simp: labels_ok_def)
  have key: "LabelKey labels = join_on (CHR '','') (map label_pair ?sorted)" by (simp add: LabelKey_def label_pair_def comp_def)
  have dist: "distinct (map fst ?sorted)" by (simp add: comp_def)
  have same: "map_of ?sorted = map_of labels"
  proof
    fix k
    have sorted: "map_of ?sorted k = (if k \<in> fst ` set labels then Some (the (map_of labels k)) else None)"
      unfolding map_of_map_restrict by (simp add: restrict_map_def)
    have none: "(map_of labels k = None) = (k \<notin> fst ` set labels)" by (rule map_of_eq_None_iff)
    show "map_of ?sorted k = map_of labels k"
    proof (cases "k \<in> fst ` set labels")
      case True
      with none show ?thesis unfolding sorted by auto
    next
      case False
      then have "map_of labels k = None" using none by blast
      with False show ?thesis unfolding sorted by simp
    qed
  qed
  have plain: "\<forall>s \<in> set (map label_pair ?sorted). CHR '','' \<notin> set s" by (rule label_pairs_plain [OF ok])
  show ?thesis
  proof (cases "labels = []")
    case True
    then show ?thesis by (simp add: LabelKey_def parseLabels_def TrimSpace_def)
  next
    case False
    then have "length ?ks \<noteq> 0" by (simp only: length_sort length_0_conv remdups_eq_nil_iff map_is_Nil_conv not_False_eq_True)
    then have "length (map label_pair ?sorted) \<noteq> 0" by (simp only: length_map not_False_eq_True)
    then have "map label_pair ?sorted \<noteq> []" by (simp only: length_0_conv not_False_eq_True)
    from split_join_on [OF this plain] have "parseLabels (LabelKey labels) = label_loop (map label_pair ?sorted) []"
      by (simp add: parseLabels_def key)
    also have "\<dots> = Inr (fold (\<lambda>(k, v). AList.update k v) ?sorted [])" by (rule label_loop_pairs [OF ok])
    finally show ?thesis using map_of_updates [OF dist, of "[]"] same by simp
  qed
qed

theorem labels_roundtrip_witness:
  "\<exists>out. parseLabels ''arch=arm64,os=linux'' = Inr out \<and> map_of out = map_of [(''os'', ''linux''), (''arch'', ''arm64'')]"
proof -
  let ?l = "[(''os'', ''linux''), (''arch'', ''arm64'')]"
  have "labels_ok ?l" "distinct (map fst ?l)" by (simp_all add: labels_ok_def label_text_def visible_def)
  moreover have "LabelKey ?l = ''arch=arm64,os=linux''" by code_simp
  ultimately show ?thesis using labels_roundtrip [of ?l] by simp
qed

text \<open>The gauges count: a key is exported with the number of its occurrences, and only if there is one.\<close>

lemma count_by_lookup: "map_of (count_by ks) k = (if k \<in> set ks then Some (count_list ks k) else None)"
proof (induction ks rule: rev_induct)
  case (snoc x ks)
  have "count_by (ks @ [x]) = bump x (count_by ks)" by (simp add: count_by_def)
  with snoc show ?case by (auto simp: bump_def update_conv' count_list_0_iff)
qed (simp add: count_by_def)

lemma StateCounts_counts:
  "map_of (ct_jobs (StateCounts s)) x = (if \<exists>j \<in> set (t_jobs s). j_state j = x then Some (length (filter (\<lambda>j. j_state j = x) (t_jobs s))) else None)"
proof -
  have "count_list (map j_state js) x = length (filter (\<lambda>j. j_state j = x) js)" for js by (induction js) auto
  then show ?thesis by (auto simp: StateCounts_def count_by_lookup)
qed

end
