(* ===== verification/Spec2Isabelle.thy ===== *)
theory Spec2Isabelle
  imports Topo Dispatch Monitor Ingest Requests Agent Logship Docker Render Remote Commands Startup
begin

text \<open>
  Quarry is a self-hosted CI control plane in Go. A server keeps runs, jobs, runners, logs and an audit log in one
  SQLite database and objects (source bundles, job artifacts) in an artifact store; it serves an HTTP API to
  a command line client and to runners, and a monitor requeues the jobs of runners that went silent. A runner claims
  jobs under a lease, runs each attempt in an executor, ships its output, uploads its artifacts and reports
  the result. This development models these parts and proves what makes them correct, alone and together.

  \<^bold>\<open>Parts, theories and sources\<close> (paths under src/).

  \<^item> Prelude: the transaction monad (state and error, with the state reached kept for an explicit rollback), guarded
    updates and keyed selects on lists of rows, Go maps as association lists, the locales of state orders and inductive
    invariants.
  \<^item> Pipeline, Topo: internal/pipeline. The document with its defaults, every check of \<open>finalize\<close> and Kahn's algorithm
    line by line; acceptance is exactly well-formedness and acyclicity, and the order is the priority topological order.
  \<^item> Store: internal/store (types, runs, jobs, runners, events, logs, artifacts). A table is a list of rows in insertion
    order, a NULL column an option, a query or guarded UPDATE one definition, \<open>Tx\<close> commit or rollback.
  \<^item> Scheduler: internal/scheduler. \<open>Claim\<close>, \<open>Heartbeat\<close>, \<open>Complete\<close>, \<open>CancelRun\<close>, \<open>advance\<close>, \<open>Tick\<close>, \<open>AppendLogs\<close>,
    each one transaction followed by its metrics.
  \<^item> Artifact_Store, Remote: internal/artifact, its local directory store and its client of a replicated object store. The
    locale \<open>blob_store\<close> is the contract of the interface, interpreted on the directory tree; the weaker
    \<open>atomic_store\<close> is what both backends keep.
  \<^item> Api, Submit, Routes: internal/api. The handlers, submission, and the routes with their middleware.
  \<^item> Lifecycle, Evolve, Advance, Invariant, Preserve, Tables: the step relations of job and run rows, the order they
    induce on stores, \<open>advance\<close> as the solution of the equations of the DAG, the invariant of the database and that every
    transaction keeps it, the key constraints.
  \<^item> ControlPlane, Reachable, Fencing, Dispatch, Settle, Cancel, Monitor, Requests, Demo: the server as a transition
    system (any requests, monitor passes, restarts, in any order), what holds in all its reachable states, and what each
    operation does there; a small evaluated execution for the witnesses.
  \<^item> Logship, Ingest: internal/logship and its composition with log ingestion: from \<open>Write\<close> in a job to the reader of the API.
  \<^item> Executor, Docker, Agent: internal/executor, its scripted and its Docker implementation, and internal/agent: client, attempt,
    and the runner as a transition system.
  \<^item> Cli, Workspace, Commands, Render: internal/cli. The retries, the commands that ask once, the polling commands and their exit codes against the histories of the
    server, the bundle and submission of a workspace, verified downloads, the order of the job table.
  \<^item> Startup: cmd/server, cmd/runner, internal/store/migrate.go, internal/metrics: settings, migrations, labels, gauges.
  \<^item> This theory: a completion report between the runner that retries it and the server that counts it once.

  \<^bold>\<open>What is shown.\<close> Validation accepts exactly the documents it should and orders them. In every reachable state jobs run
  only after their needs, runs are finished exactly when their jobs are and with the verdict of them, no unfinished run is
  stuck, rows are well formed, keys unique, records permanent. Claims are exclusive and take the oldest fitting job;
  writes of superseded attempts are refused; completion, cancellation and the monitor do exactly what they
  should to every row. A report counts once, and every report a runner makes means what its attempt did.
  The log a shipper accepted is the log a reader gets, across retries, lost answers and interleavings; artifacts are read back as they were sent. The two
  artifact stores refine a map of objects. A runner keeps to its capacity, cleans up its containers, and writes only where
  it may. The client prints what the server recorded, exits with the verdict, bundles exactly the workspace and
  downloads only verified files. Every HTTP request is a step of the control plane, the server
  starts exactly on the settings it should, and migrations resume.

  \<^bold>\<open>Loops, bounds and fuel.\<close> Loops over rows, jobs, tries and entries are structural recursions or have a measure, so they
  are total. A loop that may wait for ever (a client's retries, a polling command, registration) runs over the list of
  what its successive calls meet, and running out of that list is the result \<open>None\<close>, that is, running on; the
  theorems say what it has done by then and when it ends. The listing of the remote store follows the pages the coordinator announces:
  it is a \<open>partial_function\<close>, and it is proved to return. No fuel is used. Integers of Go are unbounded where the code
  cannot overflow, and words or an explicit range check where it matters (memory limits, \<open>ParseInt64\<close>).

  \<^bold>\<open>Parameters.\<close> Code outside the repository is an argument: the YAML decoder, SHA-256, tar encoding, the clock and random ids,
  the Docker daemon (the list of its answers), the object store's coordinator (with the named promises \<open>writes_ok\<close>,
  \<open>reads_ok\<close>, \<open>lists_ok\<close>, instantiated by a concrete one in the witnesses), the execution of SQL scripts,
  \<open>time.ParseDuration\<close>.

  \<^bold>\<open>Not modelled.\<close> The rendering and decoding of JSON and the layout of tables (standard library); listeners, signals, logging,
  the draining of \<open>http.Server\<close> and goroutine bookkeeping (their orders are interleavings of steps); failures of the local disk; opening
  SQLite and its pragmas; the registration and exposition of Prometheus metrics; flags of the commands. The control plane runs on the local
  artifact store; of the remote backend the start and the store client are modelled. An upload is two steps of the control plane, between
  which others may come; the route that serves it, and the round trip of an artifact, take the two together. The in-process test cluster (internal/harness), the benchmark and recording scripts, the spike and the example are not
  part of the product.
\<close>


section \<open>A report counts once\<close>

text \<open>A report that is not for the running attempt: a finished one is answered with the row as it is, any other is fenced off.\<close>

lemma report_elsewhere:
  assumes "find (\<lambda>q. j_id q = i) (t_jobs (st (sv_sched sv))) = Some k" and "\<not> (j_state k = JobRunning \<and> j_attempt k = a)"
    and "runnerID \<noteq> []" and "0 < a" and "report_ok req"
  shows "handleComplete i (BodyOK (runnerID, a, req)) sv =
    (if j_attempt k = a \<and> isTerminal (j_state k) then (200, Some k) else (409, None), sv)"
proof -
  from report_verdict [OF assms(5)] obtain v where v: "check_result req = Inr v" by metis
  have "tr_apply no_transitions m = m" for m by (simp add: tr_apply_def no_transitions_def)
  then show ?thesis using assms(3,4) v complete_tx_fence [OF assms(1,2), of v req]
    by (simp add: handleComplete_def decodeBody_def Complete_def Tx_def runner_status_def)
qed

text \<open>What a report answered 200 leaves: the row it returned, stored, at its attempt and no longer running.\<close>

lemma report_answered:
  assumes inv: "store_inv (st (sv_sched sv))" and ok: "handleComplete i (BodyOK (runnerID, a, req)) sv = ((200, Some row), sv')"
  shows "0 < a \<and> row \<in> set (t_jobs (st (sv_sched sv'))) \<and> j_id row = i \<and> j_attempt row = a \<and> j_state row \<noteq> JobRunning"
proof -
  from ok obtain sc' where in_range: "runnerID \<noteq> []" "0 < a" and c: "Complete (sv_sched sv) i a req = (Inr row, sc')" "sv' = sv\<lparr>sv_sched := sc'\<rparr>"
    by (auto simp: handleComplete_def decodeBody_def split: if_splits prod.splits sum.splits)
  from c(1) have rep: "report_ok req" by (auto simp: Complete_def check_result_def report_ok_def split: if_splits)
  from c(1) obtain j where j: "find (\<lambda>q. j_id q = i) (t_jobs (st (sv_sched sv))) = Some j"
    by (auto simp: Complete_def Tx_def complete_tx_def GetJob_def tx_bind_run split: option.splits sum.splits prod.splits)
  then have mem: "j \<in> set (t_jobs (st (sv_sched sv)))" "j_id j = i" by (auto simp: find_Some_iff)
  show ?thesis
  proof (cases "j_state j = JobRunning \<and> j_attempt j = a")
    case True
    from Complete_outcome [OF inv mem(1) _ rep] True mem c in_range(2) show ?thesis
      by (auto simp: outcome_def Let_def)
  next
    case False
    from report_elsewhere [OF j False in_range rep] ok mem in_range(2) show ?thesis by (auto split: if_splits)
  qed
qed

text \<open>An attempt that is over stays over: the job runs again only under a larger number.\<close>

lemma attempt_stays_over:
  assumes "job_step\<^sup>*\<^sup>* j k" and "a \<le> j_attempt j" and "\<not> (j_state j = JobRunning \<and> j_attempt j = a)"
  shows "a \<le> j_attempt k \<and> \<not> (j_state k = JobRunning \<and> j_attempt k = a)"
  using assms
proof (induction rule: rtranclp_induct)
  case (step k l)
  then show ?case by (auto simp: row_simps elim!: job_step.cases)
qed simp

text \<open>
  C40. A report counts once. Let a completion report be answered 200 in any reachable state; the row it answers is the
  one stored. Whatever requests, monitor passes and restarts follow, and whichever runner reports whatever
  verdict for that attempt again (a retry after a lost answer, say), the server is left exactly as it was. When the report finished the
  job the answer is that same row, for good. When it requeued the job the later report is answered 409 until the job
  is finished under that attempt number (by a cancel), and then with that row. Either answer is final for the
  runner: its client takes the first as success and the second as fenced off, and does not try again.
\<close>

theorem reports_count_once:
  assumes "sys_init sv0" and "(sys_step decode)\<^sup>*\<^sup>* sv0 sv"
    and "handleComplete i (BodyOK (runnerID, a, req)) sv = ((200, Some row), sv1)"
    and "(sys_step decode)\<^sup>*\<^sup>* sv1 sv2" and "report_ok req'" and "runnerID' \<noteq> []"
  shows "row \<in> set (t_jobs (st (sv_sched sv1))) \<and>
    (\<exists>k \<in> set (t_jobs (st (sv_sched sv2))). j_id k = i \<and> (isTerminal (j_state row) \<longrightarrow> k = row) \<and>
      (if j_attempt k = a \<and> isTerminal (j_state k)
       then handleComplete i (BodyOK (runnerID', a, req')) sv2 = ((200, Some k), sv2) \<and>
         client_complete d ((True, Reply 200 (Some k), w) # ts) = Some (Inr ())
       else handleComplete i (BodyOK (runnerID', a, req')) sv2 = ((409, None), sv2) \<and>
         client_complete d ((True, Reply 409 (None :: Job option), w) # ts) = Some (Inl errFenced)))"
proof -
  have inv: "sys_inv sv" by (rule control_plane.reachable_I [OF assms(1,2)])
  then have "store_inv (st (sv_sched sv))" by (simp add: sys_inv_def)
  from report_answered [OF this assms(3)] have a: "0 < a" and row: "row \<in> set (t_jobs (st (sv_sched sv1)))" "j_id row = i" "j_attempt row = a" "j_state row \<noteq> JobRunning"
    by blast+
  from good_stepD [OF good_handlers(4) [OF assms(3)] inv] have inv1: "sys_inv sv1" by blast
  have "sys_inv sv2" by (rule control_plane.steps_I [OF assms(4) inv1])
  then have s2: "store_inv (st (sv_sched sv2))" by (simp add: sys_inv_def)
  have "grows (st (sv_sched sv1)) (st (sv_sched sv2))" using control_plane.steps_R [OF assms(4) inv1] by (simp add: sys_grows_def)
  from grows_row [OF this row(1)] obtain k
    where k: "k \<in> set (t_jobs (st (sv_sched sv2)))" "job_step\<^sup>*\<^sup>* row k" by blast
  have id: "j_id k = i" using job_steps_static [OF k(2)] row(2) by simp
  then have found: "find (\<lambda>q. j_id q = i) (t_jobs (st (sv_sched sv2))) = Some k"
    using find_keyed_Some [OF inv_distinct [OF s2] k(1)] by simp
  have over: "\<not> (j_state k = JobRunning \<and> j_attempt k = a)" using attempt_stays_over [OF k(2), of a] row(3,4) by simp
  from report_elsewhere [OF found over assms(6) a assms(5)] have "handleComplete i (BodyOK (runnerID', a, req')) sv2 =
    (if j_attempt k = a \<and> isTerminal (j_state k) then (200, Some k) else (409, None), sv2)" .
  then show ?thesis using row(1) k(1) id terminal_stuck [OF k(2)]
    by (intro conjI bexI [of _ k]) (auto simp: client_complete_def client_post_def postOnce_def map_complete_def)
qed

text \<open>The report of the second attempt of the example job, delivered again after a restart, by another runner and with another verdict.\<close>

theorem reports_count_once_witness:
  "\<exists>row sv1 sv2. handleComplete ''4'' (BodyOK (''r1'', 2, demo_result ''succeeded'' [])) demo_sv4 = ((200, Some row), sv1) \<and>
     sv2 = sv1\<lparr>sv_sched := New (st (sv_sched sv1)) new_metrics demo_cfg\<rparr> \<and> j_state row = JobSucceeded \<and>
     handleComplete ''4'' (BodyOK (''r2'', 2, demo_result ''failed'' ''infra'')) sv2 = ((200, Some row), sv2)"
proof -
  obtain row sc where c: "Complete (sv_sched demo_sv4) ''4'' 2 (demo_result ''succeeded'' []) = (Inr row, sc)" "j_state row = JobSucceeded"
    by (rule demo_completion)
  define sv1 where "sv1 = demo_sv4\<lparr>sv_sched := sc\<rparr>"
  define sv2 where "sv2 = sv1\<lparr>sv_sched := New (st (sv_sched sv1)) new_metrics demo_cfg\<rparr>"
  from c(1) have one: "handleComplete ''4'' (BodyOK (''r1'', 2, demo_result ''succeeded'' [])) demo_sv4 = ((200, Some row), sv1)"
    by (simp add: handleComplete_def decodeBody_def sv1_def)
  have later: "(sys_step demo_decode)\<^sup>*\<^sup>* sv1 sv2" unfolding sv2_def by (rule r_into_rtranclp, rule do_restart)
  have bad: "report_ok (demo_result ''failed'' ''infra'')" by (simp add: report_ok_def demo_result_def)
  have at: "j_attempt row = 2" using report_answered [OF reach_inv(1) [OF demo_sv0_init demo_reach(4)] one] by simp
  from reports_count_once [OF demo_sv0_init demo_reach(4) one later bad, of "''r2''"] c(2) at
  have "handleComplete ''4'' (BodyOK (''r2'', 2, demo_result ''failed'' ''infra'')) sv2 = ((200, Some row), sv2)" by auto
  with one c(2) show ?thesis unfolding sv2_def by blast
qed

end
